(* ===== verification/Prelude.thy ===== *)
theory Prelude
  imports Main "HOL-Library.Word"
begin

text \<open>
  Shared ground of the development: the names of the machine integers, the outcome type of
  fallible Rust code (value, error, or panic), the Rust slice operations on byte buffers with
  their panics written out, big-endian conversion, and the sum of 16-bit words that the Internet
  checksum is computed from.  Nothing in here is specific to one component.
\<close>

unbundle bit_operations_syntax

section \<open>Collections of simplification rules\<close>

named_theorems slice_simps \<open>reading a byte buffer after a write\<close>
named_theorems eval_simps \<open>definitions unfolded to evaluate a closed term\<close>
named_theorems bytes_simps \<open>big-endian conversion of words and byte lists\<close>

section \<open>Machine integers\<close>

type_synonym u8 = "8 word"
type_synonym u16 = "16 word"
type_synonym u32 = "32 word"
type_synonym u64 = "64 word"
type_synonym u128 = "128 word"
type_synonym bytes = "8 word list"

text \<open>Time is a count of nanoseconds; \<open>saturating_duration_since\<close> is the subtraction of \<open>nat\<close>.\<close>

type_synonym instant = nat
type_synonym duration = nat

definition secs :: "nat \<Rightarrow> duration" where
  "secs n = n * 1000000000"

section \<open>Outcomes of fallible code\<close>

text \<open>
  \<open>Ok\<close> and \<open>Err\<close> are the two constructors of the Rust result type; \<open>Panic\<close> is what an
  out-of-range index or slice does.  An operation on a mutable buffer returns the buffer in both
  \<open>Ok\<close> and \<open>Err\<close>, so that a refusal which has already written is visible.
\<close>

datatype ('e, 'a) res = Ok 'a | Err 'e | Panic

fun attempt :: "('e, 'a) res \<Rightarrow> ('e \<Rightarrow> 'f) \<Rightarrow> ('a \<Rightarrow> ('f, 'b) res) \<Rightarrow> ('f, 'b) res" where
  "attempt (Ok a) h k = k a"
| "attempt (Err e) h k = Err (h e)"
| "attempt Panic h k = Panic"

definition ok_or :: "'a option \<Rightarrow> 'e \<Rightarrow> ('e, 'a) res" where
  "ok_or x e = (case x of None \<Rightarrow> Err e | Some a \<Rightarrow> Ok a)"

lemma ok_or_simps [simp]: "ok_or None e = Err e" "ok_or (Some a) e = Ok a"
  by (simp_all add: ok_or_def)

lemma ok_or_not_Panic [simp]: "ok_or x e \<noteq> Panic"
  by (cases x) simp_all

lemma ok_or_eq_Ok [simp]: "ok_or x e = Ok a \<longleftrightarrow> x = Some a"
  by (cases x) simp_all

lemma attempt_eq_Ok: "attempt m h k = Ok b \<longleftrightarrow> (\<exists>a. m = Ok a \<and> k a = Ok b)"
  by (cases m) simp_all

lemma attempt_eq_Err:
  "attempt m h k = Err f \<longleftrightarrow> (\<exists>e. m = Err e \<and> f = h e) \<or> (\<exists>a. m = Ok a \<and> k a = Err f)"
  by (cases m) auto

lemma attempt_eq_Panic: "attempt m h k = Panic \<longleftrightarrow> m = Panic \<or> (\<exists>a. m = Ok a \<and> k a = Panic)"
  by (cases m) simp_all

section \<open>Slices\<close>

text \<open>\<open>sub a n xs\<close> is the run of \<open>n\<close> bytes at offset \<open>a\<close>; \<open>overwrite xs a ys\<close> overwrites at \<open>a\<close>.\<close>

definition sub :: "nat \<Rightarrow> nat \<Rightarrow> 'a list \<Rightarrow> 'a list" where
  "sub a n xs = take n (drop a xs)"

definition overwrite :: "'a list \<Rightarrow> nat \<Rightarrow> 'a list \<Rightarrow> 'a list" where
  "overwrite xs a ys = take a xs @ ys @ drop (a + length ys) xs"

text \<open>The checked read \<open>buf.get(a..b)\<close>.\<close>

definition slice_get :: "'a list \<Rightarrow> nat \<Rightarrow> nat \<Rightarrow> 'a list option" where
  "slice_get xs a b = (if a \<le> b \<and> b \<le> length xs then Some (sub a (b - a) xs) else None)"

definition nth_get :: "'a list \<Rightarrow> nat \<Rightarrow> 'a option" where
  "nth_get xs i = (if i < length xs then Some (xs ! i) else None)"

text \<open>The unchecked forms \<open>buf[i]\<close>, \<open>buf[a..b]\<close> and \<open>buf[a..].copy_from_slice\<close>, which panic.\<close>

definition with_nth :: "'a list \<Rightarrow> nat \<Rightarrow> ('a \<Rightarrow> ('e, 'b) res) \<Rightarrow> ('e, 'b) res" where
  "with_nth xs i k = (if i < length xs then k (xs ! i) else Panic)"

definition with_sub :: "'a list \<Rightarrow> nat \<Rightarrow> nat \<Rightarrow> ('a list \<Rightarrow> ('e, 'b) res) \<Rightarrow> ('e, 'b) res" where
  "with_sub xs a n k = (if a + n \<le> length xs then k (sub a n xs) else Panic)"

definition write_sub :: "'a list \<Rightarrow> nat \<Rightarrow> 'a list \<Rightarrow> ('a list \<Rightarrow> ('e, 'b) res) \<Rightarrow> ('e, 'b) res" where
  "write_sub xs a ys k = (if a + length ys \<le> length xs then k (overwrite xs a ys) else Panic)"

lemma with_nth_in [simp]: "i < length xs \<Longrightarrow> with_nth xs i k = k (xs ! i)"
  by (simp add: with_nth_def)

lemma with_sub_in [simp]: "a + n \<le> length xs \<Longrightarrow> with_sub xs a n k = k (sub a n xs)"
  by (simp add: with_sub_def)

lemma write_sub_in [simp]: "a + length ys \<le> length xs \<Longrightarrow> write_sub xs a ys k = k (overwrite xs a ys)"
  by (simp add: write_sub_def)

lemma length_sub [simp]: "length (sub a n xs) = min n (length xs - a)"
  by (simp add: sub_def)

lemma nth_sub [simp]: "i < n \<Longrightarrow> a + i < length xs \<Longrightarrow> sub a n xs ! i = xs ! (a + i)"
  by (simp add: sub_def)

lemma length_overwrite [simp]: "a + length ys \<le> length xs \<Longrightarrow> length (overwrite xs a ys) = length xs"
  by (simp add: overwrite_def)

lemma nth_overwrite:
  assumes "a + length ys \<le> length xs" and "i < length xs"
  shows "overwrite xs a ys ! i = (if a \<le> i \<and> i < a + length ys then ys ! (i - a) else xs ! i)"
  using assms by (auto simp: overwrite_def nth_append min_def)

lemma nth_overwrite_other [slice_simps]:
  assumes "a + length ys \<le> length xs" and "i < length xs" and "i < a \<or> a + length ys \<le> i"
  shows "overwrite xs a ys ! i = xs ! i"
  using assms by (auto simp: nth_overwrite)

lemma sub_overwrite_same [slice_simps]:
  assumes "a + length ys \<le> length xs" and "n = length ys"
  shows "sub a n (overwrite xs a ys) = ys"
  using assms by (simp add: sub_def overwrite_def min_def)

lemma sub_overwrite_other [slice_simps]:
  assumes "a + length ys \<le> length xs" and "b + n \<le> a \<or> a + length ys \<le> b"
  shows "sub b n (overwrite xs a ys) = sub b n xs"
proof (rule nth_equalityI)
  show "length (sub b n (overwrite xs a ys)) = length (sub b n xs)"
    using assms(1) by simp
  fix i assume "i < length (sub b n (overwrite xs a ys))"
  then have i: "i < n" "b + i < length xs" using assms(1) by auto
  then have "overwrite xs a ys ! (b + i) = xs ! (b + i)"
    using assms by (intro nth_overwrite_other) auto
  then show "sub b n (overwrite xs a ys) ! i = sub b n xs ! i"
    using i assms(1) by simp
qed

lemma overwrite_same [simp]: "a + n \<le> length xs \<Longrightarrow> overwrite xs a (sub a n xs) = xs"
  by (rule nth_equalityI) (auto simp: nth_overwrite)

lemma take_overwrite:
  "a + length ys \<le> n \<Longrightarrow> n \<le> length xs \<Longrightarrow> take n (overwrite xs a ys) = overwrite (take n xs) a ys"
  by (rule nth_equalityI) (auto simp: nth_overwrite)

lemma take_overwrite_out:
  "n \<le> a \<Longrightarrow> a + length ys \<le> length xs \<Longrightarrow> take n (overwrite xs a ys) = take n xs"
  by (rule nth_equalityI) (auto simp: nth_overwrite)

lemma drop_overwrite:
  "n \<le> a \<Longrightarrow> a + length ys \<le> length xs \<Longrightarrow> drop n (overwrite xs a ys) = overwrite (drop n xs) (a - n) ys"
  by (rule nth_equalityI) (auto simp: nth_overwrite add.commute)

lemma drop_overwrite_out:
  "a + length ys \<le> n \<Longrightarrow> a + length ys \<le> length xs \<Longrightarrow> drop n (overwrite xs a ys) = drop n xs"
  by (rule nth_equalityI) (auto simp: nth_overwrite)

lemma sub_take: "a + n \<le> m \<Longrightarrow> sub a n (take m xs) = sub a n xs"
  by (simp add: sub_def drop_take min_absorb1)

lemma sub_drop: "m \<le> a \<Longrightarrow> sub (a - m) n (drop m xs) = sub a n xs"
  by (simp add: sub_def)

lemma slice_get_in [simp]: "a \<le> b \<Longrightarrow> b \<le> length xs \<Longrightarrow> slice_get xs a b = Some (sub a (b - a) xs)"
  by (simp add: slice_get_def)

lemma slice_get_Some:
  "slice_get xs a b = Some ys \<longleftrightarrow> a \<le> b \<and> b \<le> length xs \<and> ys = sub a (b - a) xs"
  by (auto simp: slice_get_def)

lemma slice_get_None: "slice_get xs a b = None \<longleftrightarrow> \<not> (a \<le> b \<and> b \<le> length xs)"
  by (simp add: slice_get_def)

section \<open>Big-endian conversion\<close>

definition be_val :: "bytes \<Rightarrow> nat" where
  "be_val bs = foldl (\<lambda>acc b. acc * 256 + unat b) 0 bs"

fun be_bytes :: "nat \<Rightarrow> nat \<Rightarrow> bytes" where
  "be_bytes 0 v = []"
| "be_bytes (Suc n) v = be_bytes n (v div 256) @ [word_of_nat (v mod 256)]"

definition u16_be :: "u8 \<Rightarrow> u8 \<Rightarrow> u16" where
  "u16_be a b = word_of_nat (unat a * 256 + unat b)"

definition to_be16 :: "u16 \<Rightarrow> bytes" where
  "to_be16 w = [word_of_nat (unat w div 256), word_of_nat (unat w mod 256)]"

lemma unat_u8_less [simp]: "unat (b :: u8) < 256"
  using unsigned_less [of b] by simp

lemma unat_u16_less [simp]: "unat (w :: u16) < 65536"
  using unsigned_less [of w] by simp

lemma unat_u32_less: "unat (w :: u32) < 2 ^ 32"
  by (rule order.strict_trans2 [OF unsigned_less]) simp

lemma unat_u128_less: "unat (w :: u128) < 2 ^ 128"
  by (rule order.strict_trans2 [OF unsigned_less]) simp

lemma unat_word_of_nat_u8 [simp]: "n < 256 \<Longrightarrow> unat (word_of_nat n :: u8) = n"
  by (simp add: unat_of_nat)

lemma unat_word_of_nat_u16 [simp]: "n < 65536 \<Longrightarrow> unat (word_of_nat n :: u16) = n"
  by (simp add: unat_of_nat)

lemma be_val_Nil [simp]: "be_val [] = 0"
  by (simp add: be_val_def)

lemma be_val_snoc [simp]: "be_val (bs @ [b]) = be_val bs * 256 + unat b"
  by (simp add: be_val_def)

lemma length_be_bytes [simp]: "length (be_bytes n v) = n"
  by (induction n arbitrary: v) simp_all

lemma be_val_less: "be_val bs < 256 ^ length bs"
proof (induction bs rule: rev_induct)
  case (snoc b bs)
  have "be_val bs * 256 + unat b < (be_val bs + 1) * 256"
    using unat_u8_less [of b] by simp
  also have "\<dots> \<le> 256 ^ length bs * 256" using snoc by (intro mult_right_mono) auto
  finally show ?case by simp
qed simp

lemma be_val_be_bytes [bytes_simps]: "be_val (be_bytes n v) = v mod 256 ^ n"
proof (induction n arbitrary: v)
  case (Suc n)
  have "v mod (256 * 256 ^ n) = 256 * (v div 256 mod 256 ^ n) + v mod 256"
    by (simp add: mod_mult2_eq)
  then show ?case by (simp add: Suc mult.commute)
qed simp

lemma be_bytes_be_val [bytes_simps]: "n = length bs \<Longrightarrow> be_bytes n (be_val bs) = bs"
proof (induction bs arbitrary: n rule: rev_induct)
  case (snoc b bs)
  then show ?case by simp
qed simp

lemma length_to_be16 [simp]: "length (to_be16 w) = 2"
  by (simp add: to_be16_def)

lemma unat_u16_be [bytes_simps]: "unat (u16_be a b) = unat a * 256 + unat b"
proof -
  have "unat a * 256 + unat b < 65536" using unat_u8_less [of a] unat_u8_less [of b] by linarith
  then have "unat (word_of_nat (unat a * 256 + unat b) :: u16) = unat a * 256 + unat b"
    by (rule unat_word_of_nat_u16)
  then show ?thesis by (simp only: u16_be_def)
qed

lemma u16_be_to_be16 [simp]: "u16_be (to_be16 w ! 0) (to_be16 w ! Suc 0) = w"
  by (simp add: u16_be_def to_be16_def less_mult_imp_div_less)

lemma to_be16_u16_be [simp]: "to_be16 (u16_be a b) = [a, b]"
  by (simp add: to_be16_def bytes_simps)

text \<open>Reading a big-endian 16-bit field by indexing, as the source does with \<open>from_be_bytes\<close>.\<close>

definition rd16 :: "bytes \<Rightarrow> nat \<Rightarrow> u16" where
  "rd16 xs i = u16_be (xs ! i) (xs ! Suc i)"

definition with_u16 :: "bytes \<Rightarrow> nat \<Rightarrow> (u16 \<Rightarrow> ('e, 'b) res) \<Rightarrow> ('e, 'b) res" where
  "with_u16 xs i k = (if Suc i < length xs then k (rd16 xs i) else Panic)"

lemma with_u16_in [simp]: "Suc i < length xs \<Longrightarrow> with_u16 xs i k = k (rd16 xs i)"
  by (simp add: with_u16_def)

lemma rd16_overwrite_same [slice_simps]:
  "a + 2 \<le> length xs \<Longrightarrow> rd16 (overwrite xs a (to_be16 w)) a = w"
  by (simp add: rd16_def nth_overwrite)

lemma rd16_overwrite_other [slice_simps]:
  assumes "a + length ys \<le> length xs" and "Suc i < length xs" and "Suc i < a \<or> a + length ys \<le> i"
  shows "rd16 (overwrite xs a ys) i = rd16 xs i"
  using assms by (auto simp: rd16_def nth_overwrite_other)

lemma rd16_take [simp]: "Suc i < n \<Longrightarrow> rd16 (take n xs) i = rd16 xs i"
  by (simp add: rd16_def)

lemma sub_2: "Suc i < length xs \<Longrightarrow> sub i 2 xs = [xs ! i, xs ! Suc i]"
  by (intro nth_equalityI) (auto simp: less_Suc_eq numeral_2_eq_2)

lemma rd16_eq_sub:
  "sub i 2 xs = sub i 2 ys \<Longrightarrow> Suc i < length xs \<Longrightarrow> Suc i < length ys \<Longrightarrow> rd16 xs i = rd16 ys i"
  by (simp add: rd16_def sub_2)

section \<open>The sum of 16-bit words\<close>

text \<open>
  The Internet checksum of a run of bytes is the complement of the ones'-complement sum of its
  16-bit words (an odd last byte padded with zero).  Ones'-complement addition is addition modulo
  65535, so the sum modulo 65535 is what an incremental update must account for.
\<close>

fun word_sum :: "bytes \<Rightarrow> nat" where
  "word_sum [] = 0"
| "word_sum [a] = unat a * 256"
| "word_sum (a # b # r) = unat a * 256 + unat b + word_sum r"

lemma word_sum_append: "even (length xs) \<Longrightarrow> word_sum (xs @ ys) = word_sum xs + word_sum ys"
  by (induction xs rule: word_sum.induct) simp_all

lemma word_sum_overwrite:
  assumes "even a" and "even (length ys)" and "a + length ys \<le> length xs"
  shows "word_sum (overwrite xs a ys) + word_sum (sub a (length ys) xs) = word_sum xs + word_sum ys"
proof -
  let ?l = "take a xs" and ?m = "sub a (length ys) xs" and ?r = "drop (a + length ys) xs"
  have xs: "xs = ?l @ ?m @ ?r"
    by (simp add: sub_def flip: append.assoc take_add)
  have ev: "even (length ?l)" "even (length ?m)" using assms by (simp_all add: min_absorb1 min_absorb2)
  have "word_sum xs = word_sum ?l + word_sum ?m + word_sum ?r"
    by (subst xs) (simp only: word_sum_append ev add.assoc)
  moreover have "word_sum (overwrite xs a ys) = word_sum ?l + word_sum ys + word_sum ?r"
    using ev assms(2) by (simp add: overwrite_def word_sum_append)
  ultimately show ?thesis by simp
qed

lemma word_sum_to_be16 [simp]: "word_sum (to_be16 w) = unat w"
  by (simp add: to_be16_def less_mult_imp_div_less)

lemma word_sum_pair: "Suc i < length xs \<Longrightarrow> word_sum (sub i 2 xs) = unat (rd16 xs i)"
  by (simp add: sub_2 rd16_def bytes_simps)

lemmas [eval_simps] = Let_def rd16_def u16_be_def to_be16_def with_u16_def with_sub_def with_nth_def
  write_sub_def slice_get_def nth_get_def sub_def overwrite_def be_val_def

end
