(* ===== verification/Ports.thy ===== *)
theory Ports
  imports Prelude
begin

text \<open>
  \<open>warren-bolthole-core/src/ports.rs\<close> and the core errors of \<open>error.rs\<close>: the free list over one
  contiguous range of external ports or identifiers.  The random draw comes from the \<open>rand\<close> crate
  and is the argument \<open>draw\<close> (a generator state and a bound give an index and the next state).
  The locale \<open>port_space\<close> is the contract the NAT relies on; it is interpreted on this allocator.
\<close>

section \<open>State and operations\<close>

datatype core_error = PortOutsidePool | PortInUse | PortAlreadyReserved | TargetNotOwned

definition DYNAMIC_POOL_START :: u16 where "DYNAMIC_POOL_START = 32768"
definition DYNAMIC_POOL_END :: u16 where "DYNAMIC_POOL_END = 60999"
definition CONTROL_RANGE_START :: u16 where "CONTROL_RANGE_START = 61000"
definition CONTROL_RANGE_END :: u16 where "CONTROL_RANGE_END = 61999"

text \<open>\<open>u32::MAX\<close>, the mark of a port that is not in the free list.\<close>

definition TAKEN :: nat where "TAKEN = 4294967295"

definition to_u32 :: "nat \<Rightarrow> nat" where
  "to_u32 n = (if n < 4294967296 then n else TAKEN)"

definition is_control :: "u16 \<Rightarrow> bool" where
  "is_control port \<longleftrightarrow> CONTROL_RANGE_START \<le> port \<and> port \<le> CONTROL_RANGE_END"

record port_allocator =
  pa_base :: u16
  pa_free :: "u16 list"
  pa_slot :: "nat list"
  pa_reserved :: "bool list"
  pa_capacity :: nat
  pa_keeps_control_range :: bool

definition port_range :: "u16 \<Rightarrow> u16 \<Rightarrow> u16 list" where
  "port_range lo hi = map word_of_nat [unat lo..<Suc (unat hi)]"

fun fill_slots :: "u16 \<Rightarrow> nat \<Rightarrow> u16 list \<Rightarrow> nat list \<Rightarrow> nat list" where
  "fill_slots base at [] slot = slot"
| "fill_slots base at (port # rest) slot =
     (let offset = unat port - unat base in
      fill_slots base (Suc at) rest
        (if offset < length slot then slot[offset := to_u32 at] else slot))"

definition build :: "u16 \<Rightarrow> u16 \<Rightarrow> bool \<Rightarrow> port_allocator" where
  "build lo hi keeps =
     (let span = length (port_range lo hi);
          free = filter (\<lambda>port. \<not> (keeps \<and> is_control port)) (port_range lo hi)
      in \<lparr>pa_base = lo, pa_free = free, pa_slot = fill_slots lo 0 free (replicate span TAKEN),
          pa_reserved = replicate span False, pa_capacity = length free,
          pa_keeps_control_range = keeps\<rparr>)"

definition pa_new :: "u16 \<Rightarrow> u16 \<Rightarrow> port_allocator" where
  "pa_new lo hi = build lo hi False"

definition pa_ports :: "u16 \<Rightarrow> u16 \<Rightarrow> port_allocator" where
  "pa_ports lo hi = build lo hi True"

definition dynamic_pool :: port_allocator where
  "dynamic_pool = pa_ports DYNAMIC_POOL_START DYNAMIC_POOL_END"

definition identifiers :: port_allocator where
  "identifiers = pa_new 1 65535"

definition available :: "port_allocator \<Rightarrow> nat" where
  "available a = length (pa_free a)"

definition pa_index :: "port_allocator \<Rightarrow> u16 \<Rightarrow> nat option" where
  "pa_index a port =
     (if pa_keeps_control_range a \<and> is_control port then None
      else if unat port < unat (pa_base a) then None
      else let offset = unat port - unat (pa_base a) in
        if offset < length (pa_slot a) then Some offset else None)"

definition contains :: "port_allocator \<Rightarrow> u16 \<Rightarrow> bool" where
  "contains a port \<longleftrightarrow> pa_index a port \<noteq> None"

text \<open>\<open>self.reserved.get(i).copied().unwrap_or(false)\<close> and \<open>self.slot.get(i).copied().unwrap_or(TAKEN)\<close>.\<close>

definition reserved_at :: "port_allocator \<Rightarrow> nat \<Rightarrow> bool" where
  "reserved_at a i \<longleftrightarrow> i < length (pa_reserved a) \<and> pa_reserved a ! i"

definition slot_at :: "port_allocator \<Rightarrow> nat \<Rightarrow> nat" where
  "slot_at a i = (if i < length (pa_slot a) then pa_slot a ! i else TAKEN)"

definition is_reserved :: "port_allocator \<Rightarrow> u16 \<Rightarrow> bool" where
  "is_reserved a port = (case pa_index a port of None \<Rightarrow> False | Some i \<Rightarrow> reserved_at a i)"

definition swap_remove :: "'a list \<Rightarrow> nat \<Rightarrow> 'a list" where
  "swap_remove xs i = butlast (xs[i := last xs])"

definition take_slot :: "port_allocator \<Rightarrow> nat \<Rightarrow> port_allocator \<times> u16 option" where
  "take_slot a index =
     (case nth_get (pa_slot a) index of
        None \<Rightarrow> (a, None)
      | Some at \<Rightarrow>
          (case nth_get (pa_free a) at of
             None \<Rightarrow> (a, None)
           | Some port \<Rightarrow>
               let a1 = a\<lparr>pa_free := swap_remove (pa_free a) at\<rparr> in
               (case nth_get (pa_free a1) at of
                  None \<Rightarrow> (a1\<lparr>pa_slot := (pa_slot a1)[index := TAKEN]\<rparr>, Some port)
                | Some moved \<Rightarrow>
                    (case pa_index a1 moved of
                       None \<Rightarrow> (a1, None)
                     | Some moved_index \<Rightarrow>
                         (a1\<lparr>pa_slot := (pa_slot a1)[moved_index := to_u32 at, index := TAKEN]\<rparr>,
                          Some port)))))"

type_synonym 'g draw = "'g \<Rightarrow> nat \<Rightarrow> nat \<times> 'g"

text \<open>The uniform draw of \<open>alloc\<close>, reached when the preferred port cannot be given.\<close>

definition alloc_draw :: "'g draw \<Rightarrow> port_allocator \<Rightarrow> 'g \<Rightarrow> port_allocator \<times> 'g \<times> u16 option" where
  "alloc_draw draw a g =
     (if pa_free a = [] then (a, g, None)
      else let (at, g') = draw g (length (pa_free a)) in
        case nth_get (pa_free a) at of
          None \<Rightarrow> (a, g', None)
        | Some port \<Rightarrow>
            (case pa_index a port of
               None \<Rightarrow> (a, g', None)
             | Some index \<Rightarrow> let (a', r) = take_slot a index in (a', g', r)))"

definition alloc ::
  "'g draw \<Rightarrow> port_allocator \<Rightarrow> u16 option \<Rightarrow> 'g \<Rightarrow> port_allocator \<times> 'g \<times> u16 option" where
  "alloc draw a preferred g =
     (case Option.bind preferred (pa_index a) of
        Some index \<Rightarrow>
          (case nth_get (pa_slot a) index of
             None \<Rightarrow> (a, g, None)
           | Some s \<Rightarrow>
               if s \<noteq> TAKEN then let (a', r) = take_slot a index in (a', g, r)
               else alloc_draw draw a g)
      | None \<Rightarrow> alloc_draw draw a g)"

definition push_free :: "port_allocator \<Rightarrow> nat \<Rightarrow> u16 \<Rightarrow> port_allocator" where
  "push_free a index port =
     a\<lparr>pa_free := pa_free a @ [port],
       pa_slot := (if index < length (pa_slot a)
                   then (pa_slot a)[index := to_u32 (length (pa_free a))] else pa_slot a)\<rparr>"

definition set_reserved :: "port_allocator \<Rightarrow> nat \<Rightarrow> bool \<Rightarrow> port_allocator" where
  "set_reserved a index b =
     a\<lparr>pa_reserved := (if index < length (pa_reserved a)
                       then (pa_reserved a)[index := b] else pa_reserved a)\<rparr>"

definition reserve ::
  "port_allocator \<Rightarrow> u16 \<Rightarrow> (core_error \<times> port_allocator, port_allocator) res" where
  "reserve a port =
     (case pa_index a port of
        None \<Rightarrow> Err (PortOutsidePool, a)
      | Some index \<Rightarrow>
          if reserved_at a index then Err (PortAlreadyReserved, a)
          else if slot_at a index = TAKEN then Err (PortInUse, a)
          else (case take_slot a index of
                  (a', None) \<Rightarrow> Err (PortInUse, a')
                | (a', Some _) \<Rightarrow> Ok (set_reserved a' index True)))"

definition unreserve :: "port_allocator \<Rightarrow> u16 \<Rightarrow> port_allocator \<times> bool" where
  "unreserve a port =
     (case pa_index a port of
        None \<Rightarrow> (a, False)
      | Some index \<Rightarrow>
          if \<not> reserved_at a index then (a, False)
          else (push_free (set_reserved a index False) index port, True))"

definition release :: "port_allocator \<Rightarrow> u16 \<Rightarrow> port_allocator" where
  "release a port =
     (case pa_index a port of
        None \<Rightarrow> a
      | Some index \<Rightarrow>
          if reserved_at a index then a
          else if slot_at a index \<noteq> TAKEN then a
          else push_free a index port)"

section \<open>The invariant\<close>

text \<open>
  The free list holds ports of the space, each once, and the slot table is its inverse: the slot of
  a free port is its position in the list, every other slot is \<open>TAKEN\<close>, and no pinned port is free.
\<close>

definition pa_inv :: "port_allocator \<Rightarrow> bool" where
  "pa_inv a \<longleftrightarrow>
     length (pa_reserved a) = length (pa_slot a) \<and>
     length (pa_slot a) + unat (pa_base a) \<le> 65536 \<and>
     distinct (pa_free a) \<and>
     (\<forall>p\<in>set (pa_free a). contains a p) \<and>
     (\<forall>p j. pa_index a p = Some j \<longrightarrow>
        (if p \<in> set (pa_free a) then pa_slot a ! j < length (pa_free a) \<and> pa_free a ! (pa_slot a ! j) = p
         else pa_slot a ! j = TAKEN) \<and>
        (pa_reserved a ! j \<longrightarrow> p \<notin> set (pa_free a)))"

lemma pa_index_Some:
  "pa_index a p = Some j \<longleftrightarrow>
     \<not> (pa_keeps_control_range a \<and> is_control p) \<and> unat (pa_base a) \<le> unat p \<and>
     j = unat p - unat (pa_base a) \<and> j < length (pa_slot a)"
  by (auto simp: pa_index_def Let_def)

lemma pa_index_lt: "pa_index a p = Some j \<Longrightarrow> j < length (pa_slot a)"
  by (simp add: pa_index_Some)

lemma pa_index_inj: "pa_index a p = Some j \<Longrightarrow> pa_index a q = Some j \<Longrightarrow> p = q"
  by (auto simp: pa_index_Some intro!: unsigned_word_eqI [where ?'a = nat])

text \<open>The index depends on the shape of the allocator only.\<close>

definition same_shape :: "port_allocator \<Rightarrow> port_allocator \<Rightarrow> bool" where
  "same_shape a b \<longleftrightarrow>
     pa_base b = pa_base a \<and> length (pa_slot b) = length (pa_slot a) \<and>
     pa_keeps_control_range b = pa_keeps_control_range a"

lemma same_shape_refl [simp]: "same_shape a a"
  by (simp add: same_shape_def)

lemma same_shape_trans: "same_shape a b \<Longrightarrow> same_shape b c \<Longrightarrow> same_shape a c"
  by (simp add: same_shape_def)

lemma same_shape_index: "same_shape a b \<Longrightarrow> pa_index b = pa_index a"
  by (auto simp: same_shape_def fun_eq_iff pa_index_def Let_def)

lemma pa_inv_free_index: "pa_inv a \<Longrightarrow> p \<in> set (pa_free a) \<Longrightarrow> \<exists>j. pa_index a p = Some j"
  by (auto simp: pa_inv_def contains_def)

lemma pa_inv_free_short:
  assumes "pa_inv a" shows "length (pa_free a) \<le> 65536"
proof -
  let ?f = "\<lambda>p. the (pa_index a p)"
  have "?f ` set (pa_free a) \<subseteq> {..<length (pa_slot a)}"
    using pa_inv_free_index [OF assms] pa_index_lt [of a] by force
  moreover have "inj_on ?f (set (pa_free a))"
    using pa_inv_free_index [OF assms] pa_index_inj [of a] by (intro inj_onI) (metis option.sel)
  ultimately have "card (set (pa_free a)) \<le> length (pa_slot a)"
    by (metis card_image card_lessThan card_mono finite_lessThan)
  then show ?thesis using assms by (simp add: pa_inv_def distinct_card)
qed

lemma to_u32_small [simp]: "n < 4294967296 \<Longrightarrow> to_u32 n = n"
  by (simp add: to_u32_def)

lemma pa_inv_slot:
  assumes "pa_inv a" and "pa_index a p = Some j"
  shows "pa_slot a ! j \<noteq> TAKEN \<longleftrightarrow> p \<in> set (pa_free a)"
    and "p \<in> set (pa_free a) \<Longrightarrow> pa_slot a ! j < length (pa_free a) \<and> pa_free a ! (pa_slot a ! j) = p"
proof -
  have *: "if p \<in> set (pa_free a) then pa_slot a ! j < length (pa_free a) \<and> pa_free a ! (pa_slot a ! j) = p
      else pa_slot a ! j = TAKEN"
    using assms unfolding pa_inv_def by blast
  then show "pa_slot a ! j \<noteq> TAKEN \<longleftrightarrow> p \<in> set (pa_free a)"
    using pa_inv_free_short [OF assms(1)] by (cases "p \<in> set (pa_free a)") (auto simp: TAKEN_def)
  show "pa_slot a ! j < length (pa_free a) \<and> pa_free a ! (pa_slot a ! j) = p" if "p \<in> set (pa_free a)"
    using * that by simp
qed

lemma slot_at_index: "pa_index a p = Some j \<Longrightarrow> slot_at a j = pa_slot a ! j"
  by (simp add: slot_at_def pa_index_lt)

lemma reserved_at_index: "pa_inv a \<Longrightarrow> pa_index a p = Some j \<Longrightarrow> reserved_at a j = pa_reserved a ! j"
  by (auto simp: reserved_at_def pa_inv_def dest: pa_index_lt)

section \<open>Taking a port out of the free list\<close>

lemma length_swap_remove [simp]: "i < length xs \<Longrightarrow> length (swap_remove xs i) = length xs - 1"
  by (simp add: swap_remove_def)

lemma nth_swap_remove:
  "i < length xs \<Longrightarrow> k < length xs - 1 \<Longrightarrow> swap_remove xs i ! k = (if k = i then last xs else xs ! k)"
  by (auto simp: swap_remove_def nth_butlast nth_list_update)

lemma swap_remove_mset:
  assumes "i < length xs" shows "swap_remove xs i = (if i = length xs - 1 then butlast xs else (butlast xs)[i := last xs])"
  using assms by (auto simp: swap_remove_def intro!: nth_equalityI simp: nth_butlast nth_list_update)

lemma swap_remove_distinct:
  assumes "distinct xs" and "i < length xs"
  shows "distinct (swap_remove xs i)" and "set (swap_remove xs i) = set xs - {xs ! i}"
proof -
  from assms(2) obtain ys y where xs: "xs = ys @ [y]" by (cases xs rule: rev_cases) auto
  show "distinct (swap_remove xs i)"
    using assms by (auto simp: swap_remove_mset xs distinct_list_update)
  show "set (swap_remove xs i) = set xs - {xs ! i}"
  proof (cases "i = length ys")
    case True
    then show ?thesis using assms by (auto simp: swap_remove_mset xs nth_append)
  next
    case False
    then have "i < length ys" using assms(2) by (simp add: xs)
    then show ?thesis using assms(1) False
      by (auto simp: swap_remove_mset xs nth_append set_update_distinct)
  qed
qed

lemma take_slot_spec:
  assumes inv: "pa_inv a" and ix: "pa_index a p = Some j" and free: "p \<in> set (pa_free a)"
  obtains a' where "take_slot a j = (a', Some p)" and "pa_inv a'" and "same_shape a a'"
    and "pa_reserved a' = pa_reserved a" and "set (pa_free a') = set (pa_free a) - {p}"
    and "pa_capacity a' = pa_capacity a"
proof -
  define at where "at = pa_slot a ! j"
  let ?xs = "pa_free a" and ?ys = "swap_remove (pa_free a) at"
  have at: "at < length ?xs" "?xs ! at = p" using pa_inv_slot(2) [OF inv ix free] by (auto simp: at_def)
  have dx: "distinct ?xs" using inv by (simp add: pa_inv_def)
  have ys: "distinct ?ys" "set ?ys = set ?xs - {p}" "length ?ys = length ?xs - 1"
    using swap_remove_distinct [OF dx at(1)] at by auto
  have short: "length ?xs \<le> 65536" by (rule pa_inv_free_short [OF inv])
  have jl: "j < length (pa_slot a)" by (rule pa_index_lt [OF ix])
  define sl where "sl = (if at < length ?xs - 1
      then (pa_slot a)[the (pa_index a (last ?xs)) := at, j := TAKEN] else (pa_slot a)[j := TAKEN])"
  define b where "b = a\<lparr>pa_free := ?ys, pa_slot := sl\<rparr>"
  have ne: "?xs \<noteq> []" using at(1) by auto
  then have last: "last ?xs \<in> set ?xs" and lastn: "last ?xs = ?xs ! (length ?xs - 1)"
    by (simp_all add: last_conv_nth)
  then obtain m where m: "pa_index a (last ?xs) = Some m" using inv by (auto simp: pa_inv_def contains_def)
  have shape: "same_shape a b" by (simp add: same_shape_def b_def sl_def)
  have idx: "pa_index (a\<lparr>pa_free := ?ys\<rparr>) = pa_index a"
    by (rule same_shape_index) (simp add: same_shape_def)
  have take: "take_slot a j = (b, Some p)"
    using jl at m short ys(3)
    by (simp add: take_slot_def nth_get_def at_def [symmetric] Let_def idx b_def sl_def nth_swap_remove)
  have inv': "pa_inv b"
    unfolding pa_inv_def
  proof (intro conjI ballI allI impI)
    show "length (pa_reserved b) = length (pa_slot b)" "length (pa_slot b) + unat (pa_base b) \<le> 65536"
      using inv by (simp_all add: pa_inv_def b_def sl_def)
    show "distinct (pa_free b)" using ys by (simp add: b_def)
    show "contains b q" if "q \<in> set (pa_free b)" for q
      using that ys(2) pa_inv_free_index [OF inv, of q] same_shape_index [OF shape]
      by (auto simp: contains_def b_def)
    fix q k assume q: "pa_index b q = Some k"
    then have qa: "pa_index a q = Some k" by (simp add: same_shape_index [OF shape])
    show "q \<notin> set (pa_free b)" if "pa_reserved b ! k"
      using that inv qa ys(2) by (auto simp: pa_inv_def b_def)
    show "if q \<in> set (pa_free b) then pa_slot b ! k < length (pa_free b) \<and> pa_free b ! (pa_slot b ! k) = q
        else pa_slot b ! k = TAKEN"
    proof (cases "q = p")
      case True
      then have "k = j" using qa ix by simp
      then show ?thesis using True ys(2) jl by (simp add: b_def sl_def)
    next
      case False
      then have kj: "k \<noteq> j" using pa_index_inj qa ix by blast
      have kl: "k < length (pa_slot a)" by (rule pa_index_lt [OF qa])
      show ?thesis
      proof (cases "q \<in> set ?xs")
        case True
        then have sk: "pa_slot a ! k < length ?xs" "?xs ! (pa_slot a ! k) = q"
          using pa_inv_slot(2) [OF inv qa] by auto
        then have nat: "pa_slot a ! k \<noteq> at" using at(2) False by auto
        show ?thesis
        proof (cases "k = m")
          case True
          then have ql: "q = last ?xs" using pa_index_inj qa m by blast
          have "at \<noteq> length ?xs - 1" using False ql at(2) lastn by metis
          then have "at < length ?xs - 1" using at(1) by simp
          then show ?thesis using True kl kj ql ys at m last False
            by (simp add: b_def sl_def nth_swap_remove)
        next
          case km: False
          then have "q \<noteq> last ?xs" using m qa by auto
          then have "pa_slot a ! k \<noteq> length ?xs - 1" using sk(2) lastn by metis
          then have "pa_slot a ! k < length ?xs - 1" using sk(1) by simp
          then show ?thesis using sk km kj kl nat ys at(1) True False m
            by (simp add: b_def sl_def nth_swap_remove)
        qed
      next
        case out: False
        then have "pa_slot a ! k = TAKEN" using pa_inv_slot(1) [OF inv qa] by simp
        moreover have "k \<noteq> m" using out m qa pa_index_inj last by blast
        ultimately show ?thesis using out ys(2) kj kl m by (simp add: b_def sl_def)
      qed
    qed
  qed
  show thesis
    by (rule that [OF take inv' shape]) (use ys in \<open>simp_all add: b_def\<close>)
qed

section \<open>The allocator as sets of ports\<close>

definition pa_space :: "port_allocator \<Rightarrow> u16 set" where
  "pa_space a = {p. contains a p}"

definition pa_free_set :: "port_allocator \<Rightarrow> u16 set" where
  "pa_free_set a = set (pa_free a)"

definition pa_pinned :: "port_allocator \<Rightarrow> u16 set" where
  "pa_pinned a = {p. is_reserved a p}"

definition draw_in_range :: "'g draw \<Rightarrow> bool" where
  "draw_in_range draw \<longleftrightarrow> (\<forall>g n. 0 < n \<longrightarrow> fst (draw g n) < n)"

lemmas pa_sets = pa_space_def pa_free_set_def pa_pinned_def

lemma pa_space_cong: "same_shape a b \<Longrightarrow> pa_space b = pa_space a"
  by (simp add: pa_space_def contains_def same_shape_index)

lemma pa_pinned_cong:
  "same_shape a b \<Longrightarrow> pa_reserved b = pa_reserved a \<Longrightarrow> pa_pinned b = pa_pinned a"
  by (auto simp: pa_pinned_def is_reserved_def same_shape_index reserved_at_def split: option.splits)

lemma pa_pinned_index: "pa_inv a \<Longrightarrow> pa_index a p = Some j \<Longrightarrow> p \<in> pa_pinned a \<longleftrightarrow> pa_reserved a ! j"
  by (simp add: pa_pinned_def is_reserved_def reserved_at_index)

lemma pa_sets_part:
  assumes "pa_inv a"
  shows "pa_free_set a \<subseteq> pa_space a" and "pa_pinned a \<subseteq> pa_space a" and "pa_free_set a \<inter> pa_pinned a = {}"
proof -
  show "pa_free_set a \<subseteq> pa_space a" using assms by (auto simp: pa_sets pa_inv_def)
  show "pa_pinned a \<subseteq> pa_space a" by (auto simp: pa_sets is_reserved_def contains_def split: option.splits)
  show "pa_free_set a \<inter> pa_pinned a = {}"
  proof (rule ccontr)
    assume "pa_free_set a \<inter> pa_pinned a \<noteq> {}"
    then obtain p where p: "p \<in> set (pa_free a)" "p \<in> pa_pinned a" by (auto simp: pa_free_set_def)
    obtain j where "pa_index a p = Some j" using pa_inv_free_index [OF assms p(1)] by blast
    with p assms show False unfolding pa_inv_def by (metis pa_pinned_index [OF assms])
  qed
qed

lemma take_slot_sets:
  assumes inv: "pa_inv a" and ix: "pa_index a p = Some j" and free: "p \<in> pa_free_set a"
  shows "\<exists>a'. take_slot a j = (a', Some p) \<and> pa_inv a' \<and> same_shape a a' \<and>
    pa_free_set a' = pa_free_set a - {p} \<and> pa_pinned a' = pa_pinned a \<and> pa_space a' = pa_space a"
proof -
  have "p \<in> set (pa_free a)" using free by (simp add: pa_free_set_def)
  from take_slot_spec [OF inv ix this] obtain a' where
    a': "take_slot a j = (a', Some p)" "pa_inv a'" "same_shape a a'" "pa_reserved a' = pa_reserved a"
      "set (pa_free a') = set (pa_free a) - {p}" by blast
  then show ?thesis using pa_pinned_cong [OF a'(3,4)] pa_space_cong [OF a'(3)]
    by (simp add: pa_free_set_def)
qed

lemma push_free_spec:
  assumes inv: "pa_inv a" and ix: "pa_index a p = Some j" and nf: "p \<notin> pa_free_set a"
    and nr: "p \<notin> pa_pinned a"
  shows "pa_inv (push_free a j p)" and "pa_free_set (push_free a j p) = insert p (pa_free_set a)"
    and "pa_pinned (push_free a j p) = pa_pinned a" and "pa_space (push_free a j p) = pa_space a"
    and "same_shape a (push_free a j p)"
proof -
  let ?b = "push_free a j p"
  have jl: "j < length (pa_slot a)" by (rule pa_index_lt [OF ix])
  have short: "length (pa_free a) \<le> 65536" by (rule pa_inv_free_short [OF inv])
  show shape: "same_shape a ?b" by (simp add: same_shape_def push_free_def)
  note idx = same_shape_index [OF shape]
  show "pa_free_set ?b = insert p (pa_free_set a)" by (simp add: pa_free_set_def push_free_def)
  show "pa_pinned ?b = pa_pinned a" by (rule pa_pinned_cong [OF shape]) (simp add: push_free_def)
  show "pa_space ?b = pa_space a" by (rule pa_space_cong [OF shape])
  show "pa_inv ?b"
    unfolding pa_inv_def
  proof (intro conjI ballI allI impI)
    show "length (pa_reserved ?b) = length (pa_slot ?b)" "length (pa_slot ?b) + unat (pa_base ?b) \<le> 65536"
      using inv by (simp_all add: pa_inv_def push_free_def)
    show "distinct (pa_free ?b)" using inv nf by (simp add: pa_inv_def push_free_def pa_free_set_def)
    show "contains ?b q" if "q \<in> set (pa_free ?b)" for q
      using that inv ix idx by (auto simp: contains_def push_free_def pa_inv_def)
    fix q k assume "pa_index ?b q = Some k"
    then have qa: "pa_index a q = Some k" by (simp add: idx)
    have kl: "k < length (pa_slot a)" by (rule pa_index_lt [OF qa])
    show "if q \<in> set (pa_free ?b) then pa_slot ?b ! k < length (pa_free ?b) \<and> pa_free ?b ! (pa_slot ?b ! k) = q
        else pa_slot ?b ! k = TAKEN"
    proof (cases "q = p")
      case True
      then show ?thesis using qa ix jl short by (simp add: push_free_def)
    next
      case False
      then have "k \<noteq> j" using pa_index_inj qa ix by blast
      then show ?thesis using False jl kl pa_inv_slot [OF inv qa]
        by (auto simp: push_free_def nth_append)
    qed
    show "q \<notin> set (pa_free ?b)" if "pa_reserved ?b ! k"
    proof -
      have "q \<in> pa_pinned a" using that pa_pinned_index [OF inv qa] by (simp add: push_free_def)
      then show ?thesis using nr pa_sets_part(3) [OF inv] by (auto simp: push_free_def pa_free_set_def)
    qed
  qed
qed

lemma set_reserved_spec:
  assumes inv: "pa_inv a" and ix: "pa_index a p = Some j" and nf: "p \<notin> pa_free_set a"
  shows "pa_inv (set_reserved a j b)" and "pa_free_set (set_reserved a j b) = pa_free_set a"
    and "pa_pinned (set_reserved a j b) = (if b then insert p (pa_pinned a) else pa_pinned a - {p})"
    and "same_shape a (set_reserved a j b)"
proof -
  let ?b = "set_reserved a j b"
  show shape: "same_shape a ?b" by (simp add: same_shape_def set_reserved_def)
  note idx = same_shape_index [OF shape]
  have jl: "j < length (pa_reserved a)" using inv pa_index_lt [OF ix] by (simp add: pa_inv_def)
  show inv': "pa_inv ?b"
    unfolding pa_inv_def
  proof (intro conjI ballI allI impI)
    show "length (pa_reserved ?b) = length (pa_slot ?b)" "length (pa_slot ?b) + unat (pa_base ?b) \<le> 65536"
      "distinct (pa_free ?b)"
      using inv by (simp_all add: pa_inv_def set_reserved_def)
    show "contains ?b q" if "q \<in> set (pa_free ?b)" for q
      using that inv idx by (auto simp: contains_def set_reserved_def pa_inv_def)
    fix q k assume "pa_index ?b q = Some k"
    then have qa: "pa_index a q = Some k" by (simp add: idx)
    show "if q \<in> set (pa_free ?b) then pa_slot ?b ! k < length (pa_free ?b) \<and> pa_free ?b ! (pa_slot ?b ! k) = q
        else pa_slot ?b ! k = TAKEN"
      using pa_inv_slot [OF inv qa] by (auto simp: set_reserved_def)
    show "q \<notin> set (pa_free ?b)" if r: "pa_reserved ?b ! k"
    proof (cases "q = p")
      case True then show ?thesis using nf by (simp add: set_reserved_def pa_free_set_def)
    next
      case False
      then have "k \<noteq> j" using pa_index_inj qa ix by blast
      then have "q \<in> pa_pinned a" using r pa_pinned_index [OF inv qa] jl by (simp add: set_reserved_def)
      then show ?thesis using pa_sets_part(3) [OF inv] by (auto simp: set_reserved_def pa_free_set_def)
    qed
  qed
  show "pa_free_set ?b = pa_free_set a" by (simp add: pa_free_set_def set_reserved_def)
  show "pa_pinned ?b = (if b then insert p (pa_pinned a) else pa_pinned a - {p})"
  proof (rule set_eqI)
    fix q
    show "q \<in> pa_pinned ?b \<longleftrightarrow> q \<in> (if b then insert p (pa_pinned a) else pa_pinned a - {p})"
    proof (cases "pa_index a q")
      case None
      then have "q \<notin> pa_pinned a" "q \<notin> pa_pinned ?b" "q \<noteq> p"
        using ix by (auto simp: pa_pinned_def is_reserved_def idx)
      then show ?thesis by simp
    next
      case (Some k)
      have "q \<in> pa_pinned ?b \<longleftrightarrow> pa_reserved ?b ! k"
        using pa_pinned_index [OF inv'] Some by (simp add: idx)
      moreover have "q = p \<longleftrightarrow> k = j" using Some ix pa_index_inj by fastforce
      ultimately show ?thesis using pa_pinned_index [OF inv Some] jl
        by (auto simp: set_reserved_def nth_list_update)
    qed
  qed
qed

section \<open>The laws of the operations\<close>

lemma alloc_draw_cases:
  assumes inv: "pa_inv a" and dr: "draw_in_range draw"
  obtains (full) "alloc_draw draw a g = (a, g, None)" "pa_free_set a = {}"
  | (given) a' g' p where "alloc_draw draw a g = (a', g', Some p)" "p \<in> pa_free_set a" "pa_inv a'"
      "pa_free_set a' = pa_free_set a - {p}" "pa_pinned a' = pa_pinned a" "pa_space a' = pa_space a"
proof (cases "pa_free a = []")
  case True
  then show thesis using full by (simp add: alloc_draw_def pa_free_set_def)
next
  case False
  obtain at g' where d: "draw g (length (pa_free a)) = (at, g')" by (cases "draw g (length (pa_free a))")
  have at: "at < length (pa_free a)" 
    using dr [unfolded draw_in_range_def, rule_format, of "length (pa_free a)" g] False d by simp
  let ?p = "pa_free a ! at"
  have pf: "?p \<in> set (pa_free a)" using at by simp
  obtain j where j: "pa_index a ?p = Some j" using pa_inv_free_index [OF inv pf] by blast
  have "?p \<in> pa_free_set a" using pf by (simp add: pa_free_set_def)
  from take_slot_sets [OF inv j this] obtain a' where
    "take_slot a j = (a', Some ?p)" "pa_inv a'" "pa_free_set a' = pa_free_set a - {?p}"
    "pa_pinned a' = pa_pinned a" "pa_space a' = pa_space a" by blast
  then show thesis using given [of a' g' ?p] False d at j pf
    by (simp add: alloc_draw_def nth_get_def Let_def pa_free_set_def)
qed

lemma alloc_preferred:
  assumes inv: "pa_inv a" and p: "p \<in> pa_free_set a"
  shows "\<exists>a'. alloc draw a (Some p) g = (a', g, Some p) \<and> pa_inv a' \<and>
    pa_free_set a' = pa_free_set a - {p} \<and> pa_pinned a' = pa_pinned a \<and> pa_space a' = pa_space a"
proof -
  obtain j where j: "pa_index a p = Some j"
    using pa_inv_free_index [OF inv] p by (auto simp: pa_free_set_def)
  have "pa_slot a ! j \<noteq> TAKEN" "j < length (pa_slot a)"
    using pa_inv_slot(1) [OF inv j] p pa_index_lt [OF j] by (auto simp: pa_free_set_def)
  moreover from take_slot_sets [OF inv j p] obtain a' where
    "take_slot a j = (a', Some p)" "pa_inv a'" "pa_free_set a' = pa_free_set a - {p}"
    "pa_pinned a' = pa_pinned a" "pa_space a' = pa_space a" by blast
  ultimately show ?thesis using j by (simp add: alloc_def nth_get_def)
qed

lemma alloc_not_free:
  assumes inv: "pa_inv a" and p: "\<And>p. pref = Some p \<Longrightarrow> p \<notin> pa_free_set a"
  shows "alloc draw a pref g = alloc_draw draw a g"
proof (cases "Option.bind pref (pa_index a)")
  case None
  then show ?thesis by (simp add: alloc_def)
next
  case (Some j)
  then obtain q where q: "pref = Some q" "pa_index a q = Some j" by (cases pref) auto
  then have "pa_slot a ! j = TAKEN" "j < length (pa_slot a)"
    using pa_inv_slot(1) [OF inv q(2)] p pa_index_lt [OF q(2)] by (auto simp: pa_free_set_def)
  then show ?thesis by (simp add: alloc_def q nth_get_def)
qed

lemma alloc_cases:
  assumes inv: "pa_inv a" and dr: "draw_in_range draw"
  obtains (full) "alloc draw a pref g = (a, g, None)" "pa_free_set a = {}"
  | (given) a' g' p where "alloc draw a pref g = (a', g', Some p)" "p \<in> pa_free_set a" "pa_inv a'"
      "pa_free_set a' = pa_free_set a - {p}" "pa_pinned a' = pa_pinned a" "pa_space a' = pa_space a"
proof (cases "\<exists>p. pref = Some p \<and> p \<in> pa_free_set a")
  case True
  then obtain p where p: "pref = Some p" "p \<in> pa_free_set a" by blast
  from alloc_preferred [OF inv p(2), of draw g] obtain a' where
    "alloc draw a (Some p) g = (a', g, Some p)" "pa_inv a'" "pa_free_set a' = pa_free_set a - {p}"
    "pa_pinned a' = pa_pinned a" "pa_space a' = pa_space a" by blast
  then show thesis using given [of a' g p] p by simp
next
  case False
  then have eq: "alloc draw a pref g = alloc_draw draw a g" by (intro alloc_not_free [OF inv]) blast
  show thesis by (rule alloc_draw_cases [OF inv dr, of g]) (use full given eq in auto)
qed

lemma reserve_outside: "p \<notin> pa_space a \<Longrightarrow> reserve a p = Err (PortOutsidePool, a)"
  by (simp add: reserve_def pa_space_def contains_def)

lemma reserve_pinned: "pa_inv a \<Longrightarrow> p \<in> pa_pinned a \<Longrightarrow> reserve a p = Err (PortAlreadyReserved, a)"
  by (auto simp: reserve_def pa_pinned_def is_reserved_def split: option.splits)

lemma reserve_held:
  assumes inv: "pa_inv a" and p: "p \<in> pa_space a" "p \<notin> pa_pinned a" "p \<notin> pa_free_set a"
  shows "reserve a p = Err (PortInUse, a)"
proof -
  obtain j where j: "pa_index a p = Some j" using p(1) by (auto simp: pa_space_def contains_def)
  then show ?thesis
    using p pa_pinned_index [OF inv j] pa_inv_slot(1) [OF inv j]
    by (simp add: reserve_def reserved_at_index [OF inv j] slot_at_index [OF j] pa_free_set_def)
qed

lemma reserve_free:
  assumes inv: "pa_inv a" and p: "p \<in> pa_free_set a"
  shows "\<exists>a'. reserve a p = Ok a' \<and> pa_inv a' \<and> pa_free_set a' = pa_free_set a - {p} \<and>
    pa_pinned a' = insert p (pa_pinned a) \<and> pa_space a' = pa_space a"
proof -
  obtain j where j: "pa_index a p = Some j"
    using pa_inv_free_index [OF inv] p by (auto simp: pa_free_set_def)
  have np: "p \<notin> pa_pinned a" using p pa_sets_part(3) [OF inv] by blast
  from take_slot_sets [OF inv j p] obtain b where
    b: "take_slot a j = (b, Some p)" "pa_inv b" "pa_free_set b = pa_free_set a - {p}"
      "pa_pinned b = pa_pinned a" "pa_space b = pa_space a" "same_shape a b" by blast
  have jb: "pa_index b p = Some j" using j same_shape_index [OF b(6)] by simp
  have nf: "p \<notin> pa_free_set b" using b(3) by simp
  note r = set_reserved_spec [OF b(2) jb nf, of True]
  have "reserve a p = Ok (set_reserved b j True)"
    using np p j b(1) pa_pinned_index [OF inv j] pa_inv_slot(1) [OF inv j]
    by (simp add: reserve_def reserved_at_index [OF inv j] slot_at_index [OF j] pa_free_set_def)
  then show ?thesis using r b(3,4,5) pa_space_cong [OF r(4)] by simp
qed

lemma unreserve_pinned:
  assumes inv: "pa_inv a" and p: "p \<in> pa_pinned a"
  shows "\<exists>a'. unreserve a p = (a', True) \<and> pa_inv a' \<and> pa_free_set a' = insert p (pa_free_set a) \<and>
    pa_pinned a' = pa_pinned a - {p} \<and> pa_space a' = pa_space a"
proof -
  obtain j where j: "pa_index a p = Some j"
    using p by (auto simp: pa_pinned_def is_reserved_def split: option.splits)
  have nf: "p \<notin> pa_free_set a" using p pa_sets_part(3) [OF inv] by blast
  note r = set_reserved_spec [OF inv j nf, of False]
  let ?b = "set_reserved a j False"
  have jb: "pa_index ?b p = Some j" using j same_shape_index [OF r(4)] by simp
  have nf': "p \<notin> pa_free_set ?b" using nf r(2) by simp
  have np': "p \<notin> pa_pinned ?b" using r(3) by simp
  note f = push_free_spec [OF r(1) jb nf' np']
  have "unreserve a p = (push_free ?b j p, True)"
    using j p pa_pinned_index [OF inv j] by (simp add: unreserve_def reserved_at_index [OF inv j])
  then show ?thesis using f r(2,3) pa_space_cong [OF r(4)] by simp
qed

lemma unreserve_other: "p \<notin> pa_pinned a \<Longrightarrow> unreserve a p = (a, False)"
  by (auto simp: unreserve_def pa_pinned_def is_reserved_def split: option.splits)

lemma release_held:
  assumes inv: "pa_inv a" and p: "p \<in> pa_space a" "p \<notin> pa_pinned a" "p \<notin> pa_free_set a"
  shows "pa_inv (release a p)" and "pa_free_set (release a p) = insert p (pa_free_set a)"
    and "pa_pinned (release a p) = pa_pinned a" and "pa_space (release a p) = pa_space a"
proof -
  obtain j where j: "pa_index a p = Some j" using p(1) by (auto simp: pa_space_def contains_def)
  have "release a p = push_free a j p"
    using p j pa_pinned_index [OF inv j] pa_inv_slot(1) [OF inv j]
    by (simp add: release_def reserved_at_index [OF inv j] slot_at_index [OF j] pa_free_set_def)
  with push_free_spec [OF inv j p(3,2)]
  show "pa_inv (release a p)" "pa_free_set (release a p) = insert p (pa_free_set a)"
    "pa_pinned (release a p) = pa_pinned a" "pa_space (release a p) = pa_space a" by simp_all
qed

lemma release_other:
  assumes inv: "pa_inv a" and p: "p \<notin> pa_space a \<or> p \<in> pa_pinned a \<or> p \<in> pa_free_set a"
  shows "release a p = a"
proof (cases "pa_index a p")
  case None
  then show ?thesis by (simp add: release_def)
next
  case (Some j)
  then show ?thesis
    using p pa_pinned_index [OF inv Some] pa_inv_slot(1) [OF inv Some]
    by (auto simp: release_def reserved_at_index [OF inv Some] slot_at_index [OF Some] pa_space_def
        contains_def pa_free_set_def)
qed

section \<open>Construction\<close>

lemma length_fill_slots [simp]: "length (fill_slots base at ps slot) = length slot"
  by (induction base at ps slot rule: fill_slots.induct) (simp_all add: Let_def)

lemma fill_slots_other:
  "\<forall>p\<in>set ps. unat p - unat base \<noteq> j \<Longrightarrow> fill_slots base at ps slot ! j = slot ! j"
  by (induction base at ps slot rule: fill_slots.induct) (auto simp: Let_def)

lemma fill_slots_at:
  assumes "distinct ps" and "\<forall>p\<in>set ps. unat base \<le> unat p" and "i < length ps"
    and "unat (ps ! i) - unat base < length slot" and "at + length ps < 4294967296"
  shows "fill_slots base at ps slot ! (unat (ps ! i) - unat base) = at + i"
  using assms
proof (induction base at ps slot arbitrary: i rule: fill_slots.induct)
  case (2 base at port rest slot)
  show ?case
  proof (cases i)
    case 0
    have "unat q - unat base \<noteq> unat port - unat base" if "q \<in> set rest" for q
    proof -
      have "q \<noteq> port" using that 2(2) by auto
      then have "unat q \<noteq> unat port" using unsigned_word_eqI [where ?'a = nat] by blast
      moreover have "unat base \<le> unat q" "unat base \<le> unat port" using that 2(3) by auto
      ultimately show ?thesis by simp
    qed
    then show ?thesis using 2 0 by (simp add: Let_def fill_slots_other)
  next
    case (Suc k)
    let ?slot = "if unat port - unat base < length slot then slot[unat port - unat base := to_u32 at] else slot"
    have "fill_slots base (Suc at) rest ?slot ! (unat (rest ! k) - unat base) = Suc at + k"
      by (rule 2(1) [OF refl]) (use 2(2-) Suc in auto)
    then show ?thesis by (simp add: Let_def Suc)
  qed
qed simp

lemma port_range_facts:
  "distinct (port_range lo hi)" "set (port_range lo hi) = {p. lo \<le> p \<and> p \<le> hi}"
  "length (port_range lo hi) = Suc (unat hi) - unat lo"
proof -
  have b: "i < 65536" if "i \<in> set [unat lo..<Suc (unat hi)]" for i
    using that unat_u16_less [of hi] by (auto simp del: unat_u16_less)
  have "inj_on (word_of_nat :: nat \<Rightarrow> u16) (set [unat lo..<Suc (unat hi)])"
    by (rule inj_onI) (metis b unat_word_of_nat_u16)
  then show "distinct (port_range lo hi)" by (simp add: port_range_def distinct_map)
  have "p \<in> word_of_nat ` {unat lo..<Suc (unat hi)} \<longleftrightarrow> lo \<le> p \<and> p \<le> hi" for p :: u16
  proof
    assume "p \<in> word_of_nat ` {unat lo..<Suc (unat hi)}"
    then obtain i where "p = word_of_nat i" "unat lo \<le> i" "i \<le> unat hi" by auto
    then show "lo \<le> p \<and> p \<le> hi" using unat_u16_less [of hi] by (simp add: word_le_nat_alt del: unat_u16_less)
  next
    assume "lo \<le> p \<and> p \<le> hi"
    then have "unat p \<in> {unat lo..<Suc (unat hi)}" by (simp add: word_le_nat_alt less_Suc_eq_le)
    then show "p \<in> word_of_nat ` {unat lo..<Suc (unat hi)}" by (intro image_eqI [of _ _ "unat p"]) simp_all
  qed
  then have "word_of_nat ` {unat lo..<Suc (unat hi)} = {p. lo \<le> p \<and> p \<le> hi}" by blast
  then show "set (port_range lo hi) = {p. lo \<le> p \<and> p \<le> hi}" by (simp only: port_range_def set_map set_upt)
  show "length (port_range lo hi) = Suc (unat hi) - unat lo"
    by (simp only: port_range_def length_map length_upt)
qed

lemma build_index:
  "pa_index (build lo hi keeps) p = Some j \<longleftrightarrow>
     \<not> (keeps \<and> is_control p) \<and> lo \<le> p \<and> p \<le> hi \<and> j = unat p - unat lo"
  by (auto simp: pa_index_Some build_def Let_def port_range_facts word_le_nat_alt)

lemma build_inv: "pa_inv (build lo hi keeps)"
  unfolding pa_inv_def
proof (intro conjI ballI allI impI)
  let ?a = "build lo hi keeps"
  let ?free = "filter (\<lambda>port. \<not> (keeps \<and> is_control port)) (port_range lo hi)"
  have free: "pa_free ?a = ?free" "set ?free = {p. lo \<le> p \<and> p \<le> hi \<and> \<not> (keeps \<and> is_control p)}"
    by (auto simp: build_def Let_def port_range_facts)
  have len: "length ?free \<le> 65536"
  proof -
    have "length ?free \<le> Suc (unat hi) - unat lo"
      using length_filter_le [of _ "port_range lo hi"] by (simp only: port_range_facts)
    then show ?thesis using unat_u16_less [of hi] by linarith
  qed
  show "length (pa_reserved ?a) = length (pa_slot ?a)" by (simp add: build_def Let_def)
  show "length (pa_slot ?a) + unat (pa_base ?a) \<le> 65536"
    using unat_u16_less [of hi] unat_u16_less [of lo]
    by (simp add: build_def Let_def port_range_facts del: unat_u16_less)
  show "distinct (pa_free ?a)" by (simp add: free port_range_facts)
  show "contains ?a p" if "p \<in> set (pa_free ?a)" for p
  proof -
    have "lo \<le> p \<and> p \<le> hi \<and> \<not> (keeps \<and> is_control p)" using that unfolding free by blast
    then show ?thesis using build_index [of lo hi keeps p] by (auto simp: contains_def)
  qed
  fix p j assume "pa_index ?a p = Some j"
  then have p: "\<not> (keeps \<and> is_control p)" "lo \<le> p" "p \<le> hi" "j = unat p - unat lo"
    by (auto simp: build_index)
  then have pf: "p \<in> set ?free" unfolding free(2) by blast
  then obtain i where i: "i < length ?free" "?free ! i = p" unfolding in_set_conv_nth by blast
  have jl: "j < length (port_range lo hi)" using p by (simp add: port_range_facts word_le_nat_alt)
  have "fill_slots lo 0 ?free (replicate (length (port_range lo hi)) TAKEN) ! (unat (?free ! i) - unat lo) = 0 + i"
    by (rule fill_slots_at) (use len i p jl in \<open>auto simp: port_range_facts word_le_nat_alt\<close>)
  then have "pa_slot ?a ! j = i" unfolding i(2) by (simp add: build_def Let_def p(4))
  then show "if p \<in> set (pa_free ?a) then pa_slot ?a ! j < length (pa_free ?a) \<and> pa_free ?a ! (pa_slot ?a ! j) = p
      else pa_slot ?a ! j = TAKEN"
    using i pf unfolding free(1) by simp
  show "p \<notin> set (pa_free ?a)" if "pa_reserved ?a ! j" using that jl by (simp add: build_def Let_def)
qed

lemma build_sets:
  "pa_space (build lo hi keeps) = {p. lo \<le> p \<and> p \<le> hi \<and> \<not> (keeps \<and> is_control p)}"
  "pa_free_set (build lo hi keeps) = pa_space (build lo hi keeps)"
  "pa_pinned (build lo hi keeps) = {}"
proof -
  show sp: "pa_space (build lo hi keeps) = {p. lo \<le> p \<and> p \<le> hi \<and> \<not> (keeps \<and> is_control p)}"
    by (simp add: pa_space_def contains_def set_eq_iff build_index) blast
  show "pa_free_set (build lo hi keeps) = pa_space (build lo hi keeps)"
    unfolding sp by (auto simp: pa_free_set_def build_def Let_def port_range_facts)
  show "pa_pinned (build lo hi keeps) = {}"
    by (auto simp: pa_pinned_def is_reserved_def reserved_at_def build_def Let_def split: option.splits)
qed

section \<open>The contract of a port space\<close>

text \<open>
  What a client of the allocator may rely on: an allocation takes a free port, honours a free
  preference, and fails only when nothing is free; a pin takes a free port out for good; a release
  gives back exactly a port that was held.  A port is \<^emph>\<open>held\<close> when it is in the space, neither
  free nor pinned.
\<close>

locale port_space =
  fixes inv :: "'s \<Rightarrow> bool"
    and space :: "'s \<Rightarrow> u16 set"
    and free :: "'s \<Rightarrow> u16 set"
    and pinned :: "'s \<Rightarrow> u16 set"
    and give :: "'g draw \<Rightarrow> 's \<Rightarrow> u16 option \<Rightarrow> 'g \<Rightarrow> 's \<times> 'g \<times> u16 option"
    and pin :: "'s \<Rightarrow> u16 \<Rightarrow> (core_error \<times> 's, 's) res"
    and unpin :: "'s \<Rightarrow> u16 \<Rightarrow> 's \<times> bool"
    and give_back :: "'s \<Rightarrow> u16 \<Rightarrow> 's"
  assumes part: "inv s \<Longrightarrow> free s \<subseteq> space s \<and> pinned s \<subseteq> space s \<and> free s \<inter> pinned s = {}"
    and give_Some: "inv s \<Longrightarrow> draw_in_range d \<Longrightarrow> give d s pref g = (s', g', Some p) \<Longrightarrow>
      p \<in> free s \<and> inv s' \<and> free s' = free s - {p} \<and> pinned s' = pinned s \<and> space s' = space s"
    and give_None: "inv s \<Longrightarrow> draw_in_range d \<Longrightarrow> give d s pref g = (s', g', None) \<Longrightarrow>
      s' = s \<and> free s = {}"
    and give_pref: "inv s \<Longrightarrow> draw_in_range d \<Longrightarrow> p \<in> free s \<Longrightarrow> \<exists>s'. give d s (Some p) g = (s', g, Some p)"
    and pin_free: "inv s \<Longrightarrow> p \<in> free s \<Longrightarrow> \<exists>s'. pin s p = Ok s' \<and> inv s' \<and>
      free s' = free s - {p} \<and> pinned s' = insert p (pinned s) \<and> space s' = space s"
    and pin_outside: "inv s \<Longrightarrow> p \<notin> space s \<Longrightarrow> pin s p = Err (PortOutsidePool, s)"
    and pin_again: "inv s \<Longrightarrow> p \<in> pinned s \<Longrightarrow> pin s p = Err (PortAlreadyReserved, s)"
    and pin_held: "inv s \<Longrightarrow> p \<in> space s \<Longrightarrow> p \<notin> pinned s \<Longrightarrow> p \<notin> free s \<Longrightarrow> pin s p = Err (PortInUse, s)"
    and unpin_pinned: "inv s \<Longrightarrow> p \<in> pinned s \<Longrightarrow> \<exists>s'. unpin s p = (s', True) \<and> inv s' \<and>
      free s' = insert p (free s) \<and> pinned s' = pinned s - {p} \<and> space s' = space s"
    and unpin_other: "inv s \<Longrightarrow> p \<notin> pinned s \<Longrightarrow> unpin s p = (s, False)"
    and back_held: "inv s \<Longrightarrow> p \<in> space s \<Longrightarrow> p \<notin> pinned s \<Longrightarrow> p \<notin> free s \<Longrightarrow>
      inv (give_back s p) \<and> free (give_back s p) = insert p (free s) \<and>
      pinned (give_back s p) = pinned s \<and> space (give_back s p) = space s"
    and back_other: "inv s \<Longrightarrow> p \<notin> space s \<or> p \<in> pinned s \<or> p \<in> free s \<Longrightarrow> give_back s p = s"
begin

definition held :: "'s \<Rightarrow> u16 set" where
  "held s = space s - free s - pinned s"

lemma give_fresh:
  assumes "inv s" and "draw_in_range d" and "give d s pref g = (s', g', Some p)"
  shows "p \<notin> held s" and "held s' = insert p (held s)" and "p \<notin> pinned s" and "p \<in> space s"
  using give_Some [OF assms] part [OF assms(1)] by (auto simp: held_def)

lemma give_fails_iff_full:
  assumes "inv s" and "draw_in_range d"
  shows "snd (snd (give d s pref g)) = None \<longleftrightarrow> space s = held s \<union> pinned s"
proof -
  obtain s' g' r where g: "give d s pref g = (s', g', r)" by (cases "give d s pref g") auto
  show ?thesis
    using g give_None [OF assms, of pref g] give_Some [OF assms, of pref g] part [OF assms(1)]
    by (cases r) (auto simp: held_def)
qed

lemma back_held_iff:
  assumes "inv s"
  shows "held (give_back s p) = held s - {p}" and "pinned (give_back s p) = pinned s"
    and "inv (give_back s p)" and "space (give_back s p) = space s"
    and "free (give_back s p) = (if p \<in> held s then insert p (free s) else free s)"
proof -
  consider "p \<in> held s" | "p \<notin> space s \<or> p \<in> pinned s \<or> p \<in> free s" by (auto simp: held_def)
  then have "held (give_back s p) = held s - {p} \<and> pinned (give_back s p) = pinned s \<and> inv (give_back s p) \<and>
      space (give_back s p) = space s \<and>
      free (give_back s p) = (if p \<in> held s then insert p (free s) else free s)"
  proof cases
    case 1
    then show ?thesis using back_held [OF assms, of p] by (auto simp: held_def)
  next
    case 2
    then have "p \<notin> held s" by (auto simp: held_def)
    then show ?thesis using back_other [OF assms 2] assms by simp
  qed
  then show "held (give_back s p) = held s - {p}" "pinned (give_back s p) = pinned s"
    "inv (give_back s p)" "space (give_back s p) = space s"
    "free (give_back s p) = (if p \<in> held s then insert p (free s) else free s)" by blast+
qed

lemma give_then_back:
  assumes "inv s" and "draw_in_range d" and "give d s pref g = (s', g', Some p)"
  shows "inv (give_back s' p) \<and> free (give_back s' p) = free s \<and> pinned (give_back s' p) = pinned s"
proof -
  note g = give_Some [OF assms] and f = give_fresh [OF assms]
  then show ?thesis using back_held [of s' p] part [OF assms(1)] by auto
qed

lemma pin_Ok:
  assumes "inv s" and "pin s p = Ok s'"
  shows "p \<in> free s \<and> inv s' \<and> free s' = free s - {p} \<and> pinned s' = insert p (pinned s) \<and>
    space s' = space s \<and> held s' = held s"
proof -
  have f: "p \<in> free s"
  proof (rule ccontr)
    assume "p \<notin> free s"
    then have "\<exists>e. pin s p = Err (e, s)"
      using pin_outside [OF assms(1)] pin_again [OF assms(1)] pin_held [OF assms(1)] by blast
    with assms(2) show False by auto
  qed
  then show ?thesis using pin_free [OF assms(1) f] assms(2) by (auto simp: held_def)
qed

end

interpretation pa: port_space pa_inv pa_space pa_free_set pa_pinned alloc reserve unreserve release
proof unfold_locales
  fix s :: port_allocator and d :: "'g draw" and pref g s' g' p
  assume i: "pa_inv s" and d: "draw_in_range d"
  show "p \<in> pa_free_set s \<and> pa_inv s' \<and> pa_free_set s' = pa_free_set s - {p} \<and>
      pa_pinned s' = pa_pinned s \<and> pa_space s' = pa_space s"
    if "alloc d s pref g = (s', g', Some p)"
    by (rule alloc_cases [OF i d, of pref g]) (use that in auto)
  show "s' = s \<and> pa_free_set s = {}" if "alloc d s pref g = (s', g', None)"
    by (rule alloc_cases [OF i d, of pref g]) (use that in auto)
next
  fix s :: port_allocator and p and d :: "'g draw" and g
  assume i: "pa_inv s"
  show "pa_free_set s \<subseteq> pa_space s \<and> pa_pinned s \<subseteq> pa_space s \<and> pa_free_set s \<inter> pa_pinned s = {}"
    using pa_sets_part [OF i] by blast
  show "\<exists>s'. alloc d s (Some p) g = (s', g, Some p)" if "draw_in_range d" "p \<in> pa_free_set s"
    using alloc_preferred [OF i that(2), of d g] by (elim exE conjE) (rule exI)
  show "\<exists>s'. reserve s p = Ok s' \<and> pa_inv s' \<and> pa_free_set s' = pa_free_set s - {p} \<and>
      pa_pinned s' = insert p (pa_pinned s) \<and> pa_space s' = pa_space s" if "p \<in> pa_free_set s"
    by (rule reserve_free [OF i that])
  show "reserve s p = Err (PortOutsidePool, s)" if "p \<notin> pa_space s" by (rule reserve_outside [OF that])
  show "reserve s p = Err (PortAlreadyReserved, s)" if "p \<in> pa_pinned s" by (rule reserve_pinned [OF i that])
  show "reserve s p = Err (PortInUse, s)" if "p \<in> pa_space s" "p \<notin> pa_pinned s" "p \<notin> pa_free_set s"
    by (rule reserve_held [OF i that])
  show "\<exists>s'. unreserve s p = (s', True) \<and> pa_inv s' \<and> pa_free_set s' = insert p (pa_free_set s) \<and>
      pa_pinned s' = pa_pinned s - {p} \<and> pa_space s' = pa_space s" if "p \<in> pa_pinned s"
    by (rule unreserve_pinned [OF i that])
  show "unreserve s p = (s, False)" if "p \<notin> pa_pinned s" by (rule unreserve_other [OF that])
  show "pa_inv (release s p) \<and> pa_free_set (release s p) = insert p (pa_free_set s) \<and>
      pa_pinned (release s p) = pa_pinned s \<and> pa_space (release s p) = pa_space s"
    if "p \<in> pa_space s" "p \<notin> pa_pinned s" "p \<notin> pa_free_set s"
    using release_held [OF i that] by blast
  show "release s p = s" if "p \<notin> pa_space s \<or> p \<in> pa_pinned s \<or> p \<in> pa_free_set s"
    by (rule release_other [OF i that])
qed

section \<open>Sequences of operations\<close>

text \<open>
  A client's calls, and the ports it was handed and has not given back (a ghost of the run, kept
  beside the allocator and never read by it).  A pin the allocator refuses changes nothing.
\<close>

datatype pa_call = Alloc "u16 option" | Reserve u16 | Unreserve u16 | Release u16

fun pa_call_step ::
  "'g draw \<Rightarrow> port_allocator \<times> 'g \<times> u16 set \<Rightarrow> pa_call \<Rightarrow> port_allocator \<times> 'g \<times> u16 set" where
  "pa_call_step draw (a, g, out) (Alloc preferred) =
     (case alloc draw a preferred g of
        (a', g', None) \<Rightarrow> (a', g', out)
      | (a', g', Some p) \<Rightarrow> (a', g', insert p out))"
| "pa_call_step draw (a, g, out) (Reserve port) =
     (case reserve a port of Ok a' \<Rightarrow> (a', g, out) | Err e \<Rightarrow> (snd e, g, out) | Panic \<Rightarrow> (a, g, out))"
| "pa_call_step draw (a, g, out) (Unreserve port) = (fst (unreserve a port), g, out)"
| "pa_call_step draw (a, g, out) (Release port) = (release a port, g, out - {port})"

definition pa_run :: "'g draw \<Rightarrow> port_allocator \<Rightarrow> 'g \<Rightarrow> pa_call list \<Rightarrow> port_allocator \<times> 'g \<times> u16 set" where
  "pa_run draw a g calls = foldl (pa_call_step draw) (a, g, {}) calls"

definition pa_accounted :: "u16 set \<Rightarrow> port_allocator \<times> 'g \<times> u16 set \<Rightarrow> bool" where
  "pa_accounted S r \<longleftrightarrow> (case r of (a, g, out) \<Rightarrow>
     pa_inv a \<and> pa_space a = S \<and> out = pa_space a - pa_free_set a - pa_pinned a)"

lemma reserve_total:
  assumes "pa_inv a"
  shows "(\<exists>a'. reserve a p = Ok a') \<or> (\<exists>e. reserve a p = Err (e, a))"
  using reserve_outside [of p a] reserve_pinned [OF assms, of p] reserve_held [OF assms, of p]
    reserve_free [OF assms, of p] by blast

lemma pa_call_step_accounted:
  assumes draw: "draw_in_range draw" and r: "pa_accounted S r"
  shows "pa_accounted S (pa_call_step draw r c)"
proof -
  obtain a g out where rr: "r = (a, g, out)" by (cases r) auto
  with r have a: "pa_inv a" "pa_space a = S" "out = pa.held a" by (auto simp: pa_accounted_def pa.held_def)
  show ?thesis
  proof (cases c)
    case (Alloc pref)
    obtain a' g' q where al: "alloc draw a pref g = (a', g', q)" by (cases "alloc draw a pref g") auto
    show ?thesis
    proof (cases q)
      case None
      then show ?thesis using al a rr Alloc pa.give_None [OF a(1) draw, of pref g a' g']
        by (auto simp: pa_accounted_def pa.held_def)
    next
      case (Some p)
      then show ?thesis using al a rr Alloc pa.give_Some [OF a(1) draw, of pref g a' g' p]
          pa.give_fresh [OF a(1) draw, of pref g a' g' p]
        by (auto simp: pa_accounted_def pa.held_def)
    qed
  next
    case (Reserve p)
    from reserve_total [OF a(1), of p] show ?thesis
    proof (elim disjE exE)
      fix a' assume ok: "reserve a p = Ok a'"
      then show ?thesis using rr a Reserve pa.pin_Ok [OF a(1) ok]
        by (simp add: pa_accounted_def pa.held_def) blast
    next
      fix e assume "reserve a p = Err (e, a)"
      then show ?thesis using rr r Reserve by simp
    qed
  next
    case (Unreserve p)
    show ?thesis
    proof (cases "p \<in> pa_pinned a")
      case True
      then show ?thesis
        using rr a Unreserve pa.unpin_pinned [OF a(1) True] by (auto simp: pa_accounted_def pa.held_def)
    next
      case False
      then show ?thesis using rr r Unreserve pa.unpin_other [OF a(1)] by simp
    qed
  next
    case (Release p)
    then show ?thesis using rr a pa.back_held_iff [OF a(1), of p]
      by (simp add: pa_accounted_def pa.held_def)
  qed
qed

lemma pa_run_accounted:
  assumes "draw_in_range draw"
  shows "pa_accounted (pa_space (build lo hi keeps)) (pa_run draw (build lo hi keeps) g calls)"
proof -
  have "pa_accounted S (foldl (pa_call_step draw) r cs)" if "pa_accounted S r" for S r cs
    using that by (induction cs arbitrary: r) (simp_all add: pa_call_step_accounted [OF assms])
  moreover have "pa_accounted (pa_space (build lo hi keeps)) (build lo hi keeps, g, {})"
    using build_inv build_sets by (simp add: pa_accounted_def)
  ultimately show ?thesis by (simp add: pa_run_def)
qed

lemma pa_run_snoc: "pa_run draw a g (calls @ [c]) = pa_call_step draw (pa_run draw a g calls) c"
  by (simp add: pa_run_def)

lemmas [eval_simps] = pa_run_def alloc_def alloc_draw_def reserve_def unreserve_def release_def take_slot_def
  push_free_def set_reserved_def swap_remove_def pa_index_def reserved_at_def slot_at_def nth_get_def
  build_def pa_new_def pa_ports_def port_range_def TAKEN_def to_u32_def is_control_def
  CONTROL_RANGE_START_def CONTROL_RANGE_END_def

section \<open>Properties\<close>

text \<open>
  C21.  Whatever the sequence of calls on a fresh allocator, the next allocation that succeeds hands
  out a port nobody holds: one of the range, not pinned, not among the ports handed out and not yet
  released, and outside the control range when the allocator keeps it.  It fails only when every
  port of the space is held or pinned, and a free preferred port is always the one given.
\<close>

theorem alloc_exclusive:
  assumes draw: "draw_in_range draw" and run: "pa_run draw (build lo hi keeps) g calls = (a, g1, out)"
    and al: "alloc draw a preferred g1 = (a', g2, r)"
  shows "case r of
      Some p \<Rightarrow> p \<notin> out \<and> \<not> is_reserved a p \<and> lo \<le> p \<and> p \<le> hi \<and> \<not> (keeps \<and> is_control p) \<and>
        (\<forall>q. preferred = Some q \<and> contains a q \<and> \<not> is_reserved a q \<and> q \<notin> out \<longrightarrow> p = q)
    | None \<Rightarrow> a' = a \<and> (\<forall>p. lo \<le> p \<and> p \<le> hi \<and> \<not> (keeps \<and> is_control p) \<longrightarrow> p \<in> out \<or> is_reserved a p)"
proof -
  have acc: "pa_inv a" "out = pa.held a" "pa_space a = pa_space (build lo hi keeps)"
    using pa_run_accounted [OF draw, of lo hi keeps g calls] run
    by (auto simp: pa_accounted_def pa.held_def)
  have sets: "\<And>q. is_reserved a q \<longleftrightarrow> q \<in> pa_pinned a" "\<And>q. contains a q \<longleftrightarrow> q \<in> pa_space a"
    by (simp_all add: pa_pinned_def pa_space_def)
  show ?thesis
  proof (cases r)
    case None
    have "pa_free_set a = {}" "a' = a" using pa.give_None [OF acc(1) draw] al None by auto
    then show ?thesis using None acc build_sets [of lo hi keeps] sets by (auto simp: pa.held_def)
  next
    case (Some p)
    have "p = q" if "preferred = Some q" "q \<in> pa_space a" "q \<notin> pa_pinned a" "q \<notin> out" for q
      using pa.give_pref [OF acc(1) draw, of q g1] al Some that acc(2) by (auto simp: pa.held_def)
    then show ?thesis
      using Some pa.give_fresh [OF acc(1) draw, of preferred g1 a' g2 p] al acc build_sets [of lo hi keeps] sets
      by simp
  qed
qed

theorem alloc_exclusive_witness:
  "\<exists>a out a'. pa_run (\<lambda>g n. (0, g)) (build 10 12 False) () [Alloc None, Reserve 11] = (a, (), out) \<and>
     alloc (\<lambda>g n. (0, g)) a (Some 11) () = (a', (), Some 12) \<and> 12 \<notin> out"
proof -
  have d: "draw_in_range (\<lambda>(g :: unit) n. (0 :: nat, g))" by (simp add: draw_in_range_def)
  let ?r = "pa_run (\<lambda>g n. (0, g)) (build 10 12 False) () [Alloc None, Reserve 11]"
  let ?al = "alloc (\<lambda>g n. (0, g)) (fst ?r) (Some 11) ()"
  have e: "snd (snd ?al) = Some 12" by (simp add: eval_simps)
  have al: "alloc (\<lambda>g n. (0, g)) (fst ?r) (Some 11) () = (fst ?al, (), Some 12)"
    using e by (cases ?al) simp
  have r: "?r = (fst ?r, (), snd (snd ?r))" by (cases ?r) simp
  have "12 \<notin> snd (snd ?r)" using alloc_exclusive [OF d r al] by simp
  with r al show ?thesis by blast
qed

text \<open>
  C22.  Pinning a port succeeds exactly when it lies in the space and is free; a refusal leaves the
  allocator as it was and names the reason.  Undoing a pin that succeeded restores the free ports
  and the pins, and so does releasing a port that was allocated: nothing leaks.
\<close>

theorem reserve_release_round_trips:
  assumes run: "pa_run draw (build lo hi keeps) g calls = (a, g1, out)" and draw: "draw_in_range draw"
  shows "(case reserve a p of
        Ok a' \<Rightarrow> contains a p \<and> \<not> is_reserved a p \<and> p \<notin> out \<and> is_reserved a' p \<and>
          (\<exists>a2. unreserve a' p = (a2, True) \<and> set (pa_free a2) = set (pa_free a) \<and>
             (\<forall>q. is_reserved a2 q \<longleftrightarrow> is_reserved a q))
      | Err (e, a') \<Rightarrow> a' = a \<and>
          (case e of PortOutsidePool \<Rightarrow> \<not> contains a p
           | PortAlreadyReserved \<Rightarrow> is_reserved a p
           | PortInUse \<Rightarrow> p \<in> out
           | TargetNotOwned \<Rightarrow> False)
      | Panic \<Rightarrow> False) \<and>
     (\<forall>pref a' g' q. alloc draw a pref g1 = (a', g', Some q) \<longrightarrow>
        set (pa_free (release a' q)) = set (pa_free a) \<and> (\<forall>x. is_reserved (release a' q) x \<longleftrightarrow> is_reserved a x))"
    (is "?R \<and> ?A")
proof
  have acc: "pa_inv a" "out = pa.held a"
    using pa_run_accounted [OF draw, of lo hi keeps g calls] run by (auto simp: pa_accounted_def pa.held_def)
  have sets: "\<And>a q. is_reserved a q \<longleftrightarrow> q \<in> pa_pinned a" "\<And>a q. contains a q \<longleftrightarrow> q \<in> pa_space a"
    "\<And>a. set (pa_free a) = pa_free_set a"
    by (simp_all add: pa_pinned_def pa_space_def pa_free_set_def)
  show ?A unfolding sets using pa.give_then_back [OF acc(1) draw] by blast
  consider "p \<in> pa_free_set a" | "p \<notin> pa_space a" | "p \<in> pa_pinned a"
    | "p \<in> pa_space a" "p \<notin> pa_pinned a" "p \<notin> pa_free_set a" by blast
  then show ?R
  proof cases
    case 1
    obtain a' where a': "reserve a p = Ok a'" "pa_inv a'" "pa_free_set a' = pa_free_set a - {p}"
        "pa_pinned a' = insert p (pa_pinned a)"
      using pa.pin_free [OF acc(1) 1] by blast
    obtain a2 where "unreserve a' p = (a2, True)" "pa_free_set a2 = insert p (pa_free_set a')"
        "pa_pinned a2 = pa_pinned a' - {p}"
      using pa.unpin_pinned [OF a'(2), of p] a'(4) by blast
    then show ?thesis
      using a' 1 pa.part [OF acc(1)] acc(2) unfolding sets by (auto simp: pa.held_def)
  qed (use pa.pin_outside [OF acc(1)] pa.pin_again [OF acc(1)] pa.pin_held [OF acc(1)] acc in
      \<open>auto simp: sets pa.held_def\<close>)
qed

theorem reserve_release_round_trips_witness:
  "\<exists>a. fst (pa_run (\<lambda>g n. (0, g)) (build 10 12 False) () [Alloc None]) = a \<and>
     reserve a 10 = Err (PortInUse, a) \<and> (\<exists>a'. reserve a 11 = Ok a' \<and> snd (unreserve a' 11))"
proof -
  have d: "draw_in_range (\<lambda>(g :: unit) n. (0 :: nat, g))" by (simp add: draw_in_range_def)
  let ?r = "pa_run (\<lambda>g n. (0, g)) (build 10 12 False) () [Alloc None]"
  have r: "?r = (fst ?r, (), snd (snd ?r))" by (cases ?r) simp
  have e: "reserve (fst ?r) 10 = Err (PortInUse, fst ?r)" "\<exists>a'. reserve (fst ?r) 11 = Ok a'"
    by (simp_all add: eval_simps)
  then obtain a' where a': "reserve (fst ?r) 11 = Ok a'" by blast
  show ?thesis using reserve_release_round_trips [OF r d, of 11] e(1) a' by auto
qed

end
