(* ===== verification/Ip.thy ===== *)
theory Ip
  imports Prelude
begin

text \<open>
  \<open>warren-bolthole-core/src/ip.rs\<close> and the packet errors of \<open>error.rs\<close>: the bounds-checked views
  and the endpoint rewrite of the IP and transport headers the gateway translates.  A buffer is a
  byte list; every index and slice of the source that could panic panics in the model, so that
  panic freedom is a theorem.  The RFC 1624 update itself is engine code outside the repository
  and is the argument \<open>inc\<close>; what the theorems need of it is \<open>incremental_update\<close>.
\<close>

section \<open>Errors and constants\<close>

datatype packet_error =
    Truncated
  | BadVersion
  | Fragment
  | ExtensionHeader
  | UnsupportedProtocol
  | FamilyMismatch
  | NotAnEcho
  | NotAnIcmpError

definition PROTO_ICMPV4 :: u8 where "PROTO_ICMPV4 = 1"
definition PROTO_TCP :: u8 where "PROTO_TCP = 6"
definition PROTO_UDP :: u8 where "PROTO_UDP = 17"
definition PROTO_ICMPV6 :: u8 where "PROTO_ICMPV6 = 58"

definition IPV4_MIN_HEADER :: nat where "IPV4_MIN_HEADER = 20"
definition IPV6_HEADER :: nat where "IPV6_HEADER = 40"

definition TCP_FIN :: u8 where "TCP_FIN = 1"
definition TCP_SYN :: u8 where "TCP_SYN = 2"
definition TCP_RST :: u8 where "TCP_RST = 4"
definition TCP_ACK :: u8 where "TCP_ACK = 16"

definition ICMPV4_ECHO_REPLY :: u8 where "ICMPV4_ECHO_REPLY = 0"
definition ICMPV4_ECHO_REQUEST :: u8 where "ICMPV4_ECHO_REQUEST = 8"
definition ICMPV6_ECHO_REQUEST :: u8 where "ICMPV6_ECHO_REQUEST = 128"
definition ICMPV6_ECHO_REPLY :: u8 where "ICMPV6_ECHO_REPLY = 129"

lemmas proto_defs = PROTO_ICMPV4_def PROTO_TCP_def PROTO_UDP_def PROTO_ICMPV6_def
lemmas ip_consts = proto_defs IPV4_MIN_HEADER_def IPV6_HEADER_def
lemmas echo_defs = ICMPV4_ECHO_REPLY_def ICMPV4_ECHO_REQUEST_def ICMPV6_ECHO_REQUEST_def
  ICMPV6_ECHO_REPLY_def
lemmas tcp_defs = TCP_FIN_def TCP_SYN_def TCP_RST_def TCP_ACK_def

section \<open>Addresses\<close>

datatype ip_addr = V4 u32 | V6 u128

fun is_ipv6 :: "ip_addr \<Rightarrow> bool" where
  "is_ipv6 (V4 _) = False"
| "is_ipv6 (V6 _) = True"

fun octets :: "ip_addr \<Rightarrow> bytes" where
  "octets (V4 a) = be_bytes 4 (unat a)"
| "octets (V6 a) = be_bytes 16 (unat a)"

definition v4_from :: "bytes \<Rightarrow> ip_addr" where
  "v4_from bs = V4 (word_of_nat (be_val bs))"

definition v6_from :: "bytes \<Rightarrow> ip_addr" where
  "v6_from bs = V6 (word_of_nat (be_val bs))"

definition addr_len :: "bool \<Rightarrow> nat" where
  "addr_len v6 = (if v6 then 16 else 4)"

definition addr_from :: "bool \<Rightarrow> bytes \<Rightarrow> ip_addr" where
  "addr_from v6 bs = (if v6 then v6_from bs else v4_from bs)"

section \<open>Headers\<close>

datatype side = Source | Destination

record ip_header =
  ip_src :: ip_addr
  ip_dst :: ip_addr
  ip_protocol :: u8
  ip_l4_offset :: nat
  ip_total_len :: nat

definition is_v6 :: "ip_header \<Rightarrow> bool" where
  "is_v6 h = is_ipv6 (ip_src h)"

record icmp_header =
  icmp_kind :: u8
  icmp_code :: u8
  icmp_echo_id :: "u16 option"

definition is_echo :: "u8 \<Rightarrow> u8 \<Rightarrow> bool" where
  "is_echo protocol kind =
     (if protocol = PROTO_ICMPV4 then kind = ICMPV4_ECHO_REQUEST \<or> kind = ICMPV4_ECHO_REPLY
      else if protocol = PROTO_ICMPV6 then kind = ICMPV6_ECHO_REQUEST \<or> kind = ICMPV6_ECHO_REPLY
      else False)"

definition is_icmp_error :: "u8 \<Rightarrow> u8 \<Rightarrow> bool" where
  "is_icmp_error protocol kind =
     (if protocol = PROTO_ICMPV4 then kind \<in> {3, 4, 5, 11, 12}
      else if protocol = PROTO_ICMPV6 then 1 \<le> kind \<and> kind \<le> 4
      else False)"

definition is_extension_header :: "u8 \<Rightarrow> bool" where
  "is_extension_header nxt \<longleftrightarrow> nxt \<in> {0, 43, 44, 50, 51, 59, 60, 135, 139, 140}"

section \<open>Parsing\<close>

text \<open>
  The two branches of \<open>parse\<close> on the version nibble.  With \<open>quoted\<close> the buffer may stop short of
  the declared length, which is then cut to what is there.
\<close>

definition parse_v4 :: "bytes \<Rightarrow> bool \<Rightarrow> (packet_error, ip_header) res" where
  "parse_v4 pkt quoted =
     (if length pkt < IPV4_MIN_HEADER then Err Truncated
      else with_nth pkt 0 (\<lambda>first.
        let ihl = unat (first AND 0x0f) * 4 in
        with_u16 pkt 2 (\<lambda>d.
        let declared = unat d in
        if ihl < IPV4_MIN_HEADER \<or> declared < ihl \<or> length pkt < ihl then Err Truncated
        else if \<not> quoted \<and> length pkt < declared then Err Truncated
        else
          let total_len = (if quoted then min declared (length pkt) else declared) in
          with_u16 pkt 6 (\<lambda>frag.
          if frag AND 0x2000 \<noteq> 0 \<or> frag AND 0x1fff \<noteq> 0 then Err Fragment
          else with_sub pkt 12 4 (\<lambda>src. with_sub pkt 16 4 (\<lambda>dst. with_nth pkt 9 (\<lambda>proto.
            Ok \<lparr>ip_src = v4_from src, ip_dst = v4_from dst, ip_protocol = proto,
                ip_l4_offset = ihl, ip_total_len = total_len\<rparr>)))))))"

definition parse_v6 :: "bytes \<Rightarrow> bool \<Rightarrow> (packet_error, ip_header) res" where
  "parse_v6 pkt quoted =
     (if length pkt < IPV6_HEADER then Err Truncated
      else with_u16 pkt 4 (\<lambda>d.
        let declared = IPV6_HEADER + unat d in
        if \<not> quoted \<and> length pkt < declared then Err Truncated
        else
          let total_len = (if quoted then min declared (length pkt) else declared) in
          with_nth pkt 6 (\<lambda>nxt.
          if is_extension_header nxt then Err ExtensionHeader
          else with_sub pkt 8 16 (\<lambda>src. with_sub pkt 24 16 (\<lambda>dst.
            Ok \<lparr>ip_src = v6_from src, ip_dst = v6_from dst, ip_protocol = nxt,
                ip_l4_offset = IPV6_HEADER, ip_total_len = total_len\<rparr>)))))"

definition parse :: "bytes \<Rightarrow> bool \<Rightarrow> (packet_error, ip_header) res" where
  "parse pkt quoted =
     (case pkt of
        [] \<Rightarrow> Err Truncated
      | first # _ \<Rightarrow>
          let version = drop_bit 4 first in
          if version = 4 then parse_v4 pkt quoted
          else if version = 6 then parse_v6 pkt quoted
          else Err BadVersion)"

definition parse_ip :: "bytes \<Rightarrow> (packet_error, ip_header) res" where
  "parse_ip pkt = parse pkt False"

definition parse_ip_quote :: "bytes \<Rightarrow> (packet_error, ip_header) res" where
  "parse_ip_quote pkt = parse pkt True"

definition read_ports :: "bytes \<Rightarrow> nat \<Rightarrow> (packet_error, u16 \<times> u16) res" where
  "read_ports pkt l4_offset =
     attempt (ok_or (slice_get pkt l4_offset (l4_offset + 4)) Truncated) id
       (\<lambda>head. with_u16 head 0 (\<lambda>s. with_u16 head 2 (\<lambda>d. Ok (s, d))))"

definition tcp_flags :: "bytes \<Rightarrow> nat \<Rightarrow> (packet_error, u8) res" where
  "tcp_flags pkt l4_offset = ok_or (nth_get pkt (l4_offset + 13)) Truncated"

definition read_icmp :: "bytes \<Rightarrow> nat \<Rightarrow> (packet_error, icmp_header) res" where
  "read_icmp pkt l4_offset =
     attempt (ok_or (slice_get pkt l4_offset (l4_offset + 4)) Truncated) id
       (\<lambda>head. with_nth head 0 (\<lambda>kind. with_nth head 1 (\<lambda>code.
          Ok \<lparr>icmp_kind = kind, icmp_code = code,
              icmp_echo_id =
                (if kind \<in> {ICMPV4_ECHO_REPLY, ICMPV4_ECHO_REQUEST, ICMPV6_ECHO_REQUEST,
                            ICMPV6_ECHO_REPLY}
                 then map_option (\<lambda>b. rd16 b 0) (slice_get pkt (l4_offset + 4) (l4_offset + 6))
                 else None)\<rparr>)))"

section \<open>Checksums and the endpoint rewrite\<close>

type_synonym incr = "u16 \<Rightarrow> u16 \<Rightarrow> u16 \<Rightarrow> u16"

fun checksum_update :: "incr \<Rightarrow> u16 \<Rightarrow> bytes \<Rightarrow> bytes \<Rightarrow> u16" where
  "checksum_update inc ck (o1 # o2 # old) (n1 # n2 # new) =
     checksum_update inc (inc ck (u16_be o1 o2) (u16_be n1 n2)) old new"
| "checksum_update inc ck old new = ck"

definition l4_checksum :: "u8 \<Rightarrow> (nat \<times> bool \<times> nat) option" where
  "l4_checksum protocol =
     (if protocol = PROTO_TCP then Some (16, True, 20)
      else if protocol = PROTO_UDP then Some (6, True, 8)
      else if protocol = PROTO_ICMPV4 then Some (2, False, 4)
      else if protocol = PROTO_ICMPV6 then Some (2, True, 4)
      else None)"

definition is_icmp :: "u8 \<Rightarrow> bool" where
  "is_icmp protocol \<longleftrightarrow> protocol = PROTO_ICMPV4 \<or> protocol = PROTO_ICMPV6"

text \<open>Where the port or echo identifier to rewrite sits, if one was given.\<close>

definition port_at :: "bytes \<Rightarrow> ip_header \<Rightarrow> side \<Rightarrow> u16 option \<Rightarrow> (packet_error, nat option) res" where
  "port_at pkt hdr side port =
     (let l4 = ip_l4_offset hdr in
      if port = None then Ok None
      else if is_icmp (ip_protocol hdr) then
        attempt (ok_or (nth_get pkt l4) Truncated) id (\<lambda>kind.
          if \<not> is_echo (ip_protocol hdr) kind then Err NotAnEcho
          else if ip_total_len hdr < l4 + 8 then Err Truncated
          else Ok (Some (l4 + 4)))
      else Ok (Some (case side of Source \<Rightarrow> l4 | Destination \<Rightarrow> l4 + 2)))"

definition addr_at :: "bool \<Rightarrow> side \<Rightarrow> nat" where
  "addr_at v6 side =
     (case (v6, side) of
        (False, Source) \<Rightarrow> 12
      | (False, Destination) \<Rightarrow> 16
      | (True, Source) \<Rightarrow> 8
      | (True, Destination) \<Rightarrow> 24)"

text \<open>
  The address write: the address of either family, then for IPv4 the header checksum at \<open>hck_at\<close>.
  The continuation receives the buffer and the transport checksum.
\<close>

definition write_addr ::
  "incr \<Rightarrow> bytes \<Rightarrow> nat \<Rightarrow> nat \<Rightarrow> ip_addr \<Rightarrow> bool \<Rightarrow> u16 \<Rightarrow>
     (bytes \<Rightarrow> u16 \<Rightarrow> ('e, 'b) res) \<Rightarrow> ('e, 'b) res" where
  "write_addr inc pkt hck_at at addr patch ck k =
     (let new = octets addr in
      with_sub pkt at (addr_len (is_ipv6 addr)) (\<lambda>old.
      write_sub pkt at new (\<lambda>pkt.
      let ck' = (if patch then checksum_update inc ck old new else ck) in
      if is_ipv6 addr then k pkt ck'
      else with_u16 pkt hck_at (\<lambda>hck.
        write_sub pkt hck_at (to_be16 (checksum_update inc hck old new)) (\<lambda>pkt. k pkt ck')))))"

definition write_port ::
  "incr \<Rightarrow> bytes \<Rightarrow> nat option \<Rightarrow> u16 option \<Rightarrow> bool \<Rightarrow> u16 \<Rightarrow>
     (bytes \<Rightarrow> u16 \<Rightarrow> ('e, 'b) res) \<Rightarrow> ('e, 'b) res" where
  "write_port inc pkt at port patch ck k =
     (case (at, port) of
        (Some at, Some new) \<Rightarrow>
          with_sub pkt at 2 (\<lambda>old. write_sub pkt at (to_be16 new) (\<lambda>pkt.
            k pkt (if patch then checksum_update inc ck old (to_be16 new) else ck)))
      | _ \<Rightarrow> k pkt ck)"

definition rewrite_endpoint ::
  "incr \<Rightarrow> bytes \<Rightarrow> ip_header \<Rightarrow> side \<Rightarrow> ip_addr \<Rightarrow> u16 option \<Rightarrow>
     (packet_error \<times> bytes, bytes) res" where
  "rewrite_endpoint inc pkt hdr side addr port =
     (if is_ipv6 addr \<noteq> is_v6 hdr then Err (FamilyMismatch, pkt)
      else if length pkt < ip_total_len hdr then Err (Truncated, pkt)
      else attempt (ok_or (l4_checksum (ip_protocol hdr)) UnsupportedProtocol) (\<lambda>e. (e, pkt))
        (\<lambda>(ck_at, pseudo, need).
          let l4 = ip_l4_offset hdr in
          if ip_total_len hdr < l4 + need then Err (Truncated, pkt)
          else attempt (port_at pkt hdr side port) (\<lambda>e. (e, pkt)) (\<lambda>pat.
            with_u16 pkt (l4 + ck_at) (\<lambda>ck.
            let keep = (ip_protocol hdr = PROTO_UDP \<and> ck = 0 \<and> \<not> is_v6 hdr) in
            write_addr inc pkt 10 (addr_at (is_v6 hdr) side) addr (pseudo \<and> \<not> keep) ck (\<lambda>pkt ck.
            write_port inc pkt pat port (\<not> keep) ck (\<lambda>pkt ck.
            if keep then Ok pkt
            else write_sub pkt (l4 + ck_at) (to_be16 ck) Ok))))))"

section \<open>Addresses and their octets\<close>

lemma length_octets [simp]: "length (octets a) = addr_len (is_ipv6 a)"
  by (cases a) (simp_all add: addr_len_def del: be_bytes.simps)

lemma v4_from_octets: "v4_from (be_bytes 4 (unat a)) = V4 a"
proof -
  have "be_val (be_bytes 4 (unat a)) = unat a"
    using unat_u32_less [of a] by (simp add: be_val_be_bytes del: be_bytes.simps)
  then show ?thesis by (simp add: v4_from_def)
qed

lemma v6_from_octets: "v6_from (be_bytes 16 (unat a)) = V6 a"
proof -
  have "be_val (be_bytes 16 (unat a)) = unat a"
    using unat_u128_less [of a] by (simp add: be_val_be_bytes del: be_bytes.simps)
  then show ?thesis by (simp add: v6_from_def)
qed

lemma addr_from_octets [simp]: "addr_from (is_ipv6 a) (octets a) = a"
  by (cases a) (simp_all add: addr_from_def v4_from_octets v6_from_octets del: be_bytes.simps)

lemma is_ipv6_addr_from [simp]: "is_ipv6 (addr_from v6 bs) = v6"
  by (simp add: addr_from_def v4_from_def v6_from_def)

lemma octets_addr_from [simp]: "length bs = addr_len v6 \<Longrightarrow> octets (addr_from v6 bs) = bs"
proof (cases v6)
  case True
  moreover assume "length bs = addr_len v6"
  ultimately have l: "length bs = 16" by (simp add: addr_len_def)
  then have "be_val bs < 2 ^ 128" using be_val_less [of bs] by simp
  then show ?thesis using True l
    by (simp add: addr_from_def v6_from_def unat_of_nat be_bytes_be_val del: be_bytes.simps)
next
  case False
  moreover assume "length bs = addr_len v6"
  ultimately have l: "length bs = 4" by (simp add: addr_len_def)
  then have "be_val bs < 2 ^ 32" using be_val_less [of bs] by simp
  then show ?thesis using False l
    by (simp add: addr_from_def v4_from_def unat_of_nat be_bytes_be_val del: be_bytes.simps)
qed

declare octets.simps [simp del]

section \<open>What a parsed header says of its buffer\<close>

text \<open>
  The contract between the parser and everything that indexes a buffer on the strength of a
  parsed header: the transport offset lies inside the declared length, which lies inside the
  buffer, and both addresses are of the header's family.
\<close>

definition hdr_wf :: "ip_header \<Rightarrow> nat \<Rightarrow> bool" where
  "hdr_wf h n \<longleftrightarrow>
     (if is_v6 h then ip_l4_offset h = 40 else 20 \<le> ip_l4_offset h \<and> ip_l4_offset h \<le> 60) \<and>
     even (ip_l4_offset h) \<and> ip_l4_offset h \<le> ip_total_len h \<and> ip_total_len h \<le> n \<and>
     is_ipv6 (ip_dst h) = is_v6 h"

definition hdr_reads :: "ip_header \<Rightarrow> bytes \<Rightarrow> bool" where
  "hdr_reads h pkt \<longleftrightarrow>
     ip_src h = addr_from (is_v6 h) (sub (addr_at (is_v6 h) Source) (addr_len (is_v6 h)) pkt) \<and>
     ip_dst h = addr_from (is_v6 h) (sub (addr_at (is_v6 h) Destination) (addr_len (is_v6 h)) pkt) \<and>
     ip_protocol h = (if is_v6 h then pkt ! 6 else pkt ! 9)"

lemma unat_nibble: "unat (b AND 15 :: u8) \<le> 15"
  using word_and_le1 [of b 15] by (simp add: word_le_nat_alt)

lemma parse_v4_short: "length pkt < 20 \<Longrightarrow> parse_v4 pkt q = Err Truncated"
  by (simp add: parse_v4_def IPV4_MIN_HEADER_def)

lemma parse_v4_long:
  assumes "20 \<le> length pkt"
  shows "parse_v4 pkt q =
    (let ihl = unat (pkt ! 0 AND 15) * 4; declared = unat (rd16 pkt 2) in
     if ihl < 20 \<or> declared < ihl \<or> length pkt < ihl \<or> \<not> q \<and> length pkt < declared
     then Err Truncated
     else if rd16 pkt 6 AND 0x2000 \<noteq> 0 \<or> rd16 pkt 6 AND 0x1fff \<noteq> 0 then Err Fragment
     else Ok \<lparr>ip_src = v4_from (sub 12 4 pkt), ip_dst = v4_from (sub 16 4 pkt),
              ip_protocol = pkt ! 9, ip_l4_offset = ihl,
              ip_total_len = (if q then min declared (length pkt) else declared)\<rparr>)"
proof -
  have "0 < length pkt" "Suc 2 < length pkt" "Suc 6 < length pkt" "12 + 4 \<le> length pkt"
    "16 + 4 \<le> length pkt" "9 < length pkt" using assms by linarith+
  then show ?thesis using assms
    by (simp only: parse_v4_def Let_def IPV4_MIN_HEADER_def with_nth_in with_u16_in with_sub_in
        not_less [symmetric] if_False if_cancel) simp
qed

lemma parse_v4_no_panic: "parse_v4 pkt q \<noteq> Panic"
  by (cases "length pkt < 20") (simp_all add: parse_v4_short parse_v4_long Let_def)

lemma parse_v6_no_panic: "parse_v6 pkt q \<noteq> Panic"
  by (simp add: parse_v6_def Let_def IPV6_HEADER_def)

lemma parse_no_panic [simp]: "parse pkt q \<noteq> Panic"
  by (simp add: parse_def Let_def parse_v4_no_panic parse_v6_no_panic split: list.split)

lemma parse_v4_Ok:
  assumes "parse_v4 pkt q = Ok h"
  shows "hdr_wf h (length pkt) \<and> hdr_reads h pkt \<and> \<not> is_v6 h"
proof -
  have "20 \<le> length pkt" using assms by (rule_tac ccontr) (simp add: parse_v4_short)
  with assms unat_nibble [of "pkt ! 0"] show ?thesis
    by (auto simp: parse_v4_long Let_def hdr_wf_def hdr_reads_def is_v6_def
      v4_from_def addr_from_def addr_at_def addr_len_def split: if_splits)
qed

lemma parse_v6_Ok:
  assumes "parse_v6 pkt q = Ok h"
  shows "hdr_wf h (length pkt) \<and> hdr_reads h pkt \<and> is_v6 h"
  using assms
  by (auto simp: parse_v6_def Let_def IPV6_HEADER_def hdr_wf_def hdr_reads_def is_v6_def
      v6_from_def addr_from_def addr_at_def addr_len_def split: if_splits)

lemma parse_Ok:
  assumes "parse pkt q = Ok h"
  shows "hdr_wf h (length pkt)" and "hdr_reads h pkt"
  using assms parse_v4_Ok [of pkt q h] parse_v6_Ok [of pkt q h]
  by (auto simp: parse_def Let_def split: list.splits if_splits)

text \<open>The parser looks at nothing but the version byte, the fixed fields and the addresses.\<close>

lemma parse_v4_cong:
  assumes "parse_v4 pkt q = Ok h" and "length p = length pkt"
    and "\<And>i. i < 10 \<Longrightarrow> p ! i = pkt ! i"
  shows "parse_v4 p q =
    Ok (h\<lparr>ip_src := v4_from (sub 12 4 p), ip_dst := v4_from (sub 16 4 p)\<rparr>)"
proof -
  have "rd16 p 2 = rd16 pkt 2" "rd16 p 6 = rd16 pkt 6" "p ! 0 = pkt ! 0" "p ! 9 = pkt ! 9"
    using assms(3) by (simp_all add: rd16_def)
  moreover have "20 \<le> length pkt" using assms(1) by (rule_tac ccontr) (simp add: parse_v4_short)
  ultimately show ?thesis using assms(1,2)
    by (auto simp: parse_v4_long Let_def split: if_splits)
qed

lemma parse_v6_cong:
  assumes "parse_v6 pkt q = Ok h" and "length p = length pkt"
    and "\<And>i. i < 8 \<Longrightarrow> p ! i = pkt ! i"
  shows "parse_v6 p q =
    Ok (h\<lparr>ip_src := v6_from (sub 8 16 p), ip_dst := v6_from (sub 24 16 p)\<rparr>)"
proof -
  have "rd16 p 4 = rd16 pkt 4" "p ! 6 = pkt ! 6"
    using assms(3) by (simp_all add: rd16_def)
  then show ?thesis using assms(1,2)
    by (auto simp: parse_v6_def Let_def IPV6_HEADER_def split: if_splits)
qed

lemma parse_cong:
  assumes "parse pkt q = Ok h" and "length p = length pkt"
    and "\<And>i. i < (if is_v6 h then 8 else 10) \<Longrightarrow> p ! i = pkt ! i"
  shows "parse p q = Ok (h\<lparr>
     ip_src := addr_from (is_v6 h) (sub (addr_at (is_v6 h) Source) (addr_len (is_v6 h)) p),
     ip_dst := addr_from (is_v6 h) (sub (addr_at (is_v6 h) Destination) (addr_len (is_v6 h)) p)\<rparr>)"
proof -
  from assms(1) obtain f r where pkt: "pkt = f # r" by (cases pkt) (simp_all add: parse_def)
  with assms(2) obtain f' r' where p: "p = f' # r'" by (cases p) simp_all
  have "p ! 0 = pkt ! 0" using assms(3) by simp
  then have [simp]: "f' = f" by (simp add: pkt p)
  consider "drop_bit 4 f = 4" "parse_v4 pkt q = Ok h" | "drop_bit 4 f = 6" "parse_v6 pkt q = Ok h"
    using assms(1) by (auto simp: parse_def pkt Let_def split: if_splits)
  then show ?thesis
  proof cases
    case 1
    then have "\<not> is_v6 h" using parse_v4_Ok by blast
    with parse_v4_cong [OF 1(2) assms(2)] assms(3) 1(1) show ?thesis
      by (simp add: parse_def p addr_from_def addr_at_def addr_len_def)
  next
    case 2
    then have "is_v6 h" using parse_v6_Ok by blast
    with parse_v6_cong [OF 2(2) assms(2)] assms(3) 2(1) show ?thesis
      by (simp add: parse_def p addr_from_def addr_at_def addr_len_def)
  qed
qed

lemma read_ports_no_panic [simp]: "read_ports pkt l4 \<noteq> Panic"
  by (auto simp: read_ports_def attempt_eq_Panic slice_get_Some)

lemma read_ports_Ok:
  "read_ports pkt l4 = Ok sd \<longleftrightarrow> l4 + 4 \<le> length pkt \<and> sd = (rd16 pkt l4, rd16 pkt (l4 + 2))"
  by (auto simp: read_ports_def attempt_eq_Ok slice_get_Some rd16_def numeral_3_eq_3)

lemma read_icmp_no_panic [simp]: "read_icmp pkt l4 \<noteq> Panic"
  by (auto simp: read_icmp_def attempt_eq_Panic slice_get_Some)

lemma tcp_flags_no_panic [simp]: "tcp_flags pkt l4 \<noteq> Panic"
  by (simp add: tcp_flags_def)

section \<open>The rewrite as a sequence of field writes\<close>

text \<open>
  On a well-formed header whose guards pass, no write is out of range and the rewrite is a plain
  sequence of overwrites: the address, the IPv4 header checksum, the port, the transport checksum.
\<close>

definition after_addr :: "incr \<Rightarrow> bytes \<Rightarrow> nat \<Rightarrow> nat \<Rightarrow> ip_addr \<Rightarrow> bytes" where
  "after_addr inc pkt hck_at at addr =
     (let new = octets addr; old = sub at (addr_len (is_ipv6 addr)) pkt; p = overwrite pkt at new in
      if is_ipv6 addr then p
      else overwrite p hck_at (to_be16 (checksum_update inc (rd16 p hck_at) old new)))"

definition after_port :: "bytes \<Rightarrow> nat option \<Rightarrow> u16 option \<Rightarrow> bytes" where
  "after_port pkt pat port =
     (case (pat, port) of (Some at, Some new) \<Rightarrow> overwrite pkt at (to_be16 new) | _ \<Rightarrow> pkt)"

definition new_ck ::
  "incr \<Rightarrow> bytes \<Rightarrow> nat \<Rightarrow> ip_addr \<Rightarrow> nat option \<Rightarrow> u16 option \<Rightarrow> bool \<Rightarrow> u16 \<Rightarrow> u16" where
  "new_ck inc pkt at addr pat port pseudo ck =
     (let ck' = (if pseudo then checksum_update inc ck (sub at (addr_len (is_ipv6 addr)) pkt) (octets addr)
                 else ck)
      in case (pat, port) of
           (Some i, Some new) \<Rightarrow> checksum_update inc ck' (sub i 2 pkt) (to_be16 new)
         | _ \<Rightarrow> ck')"

lemma length_after_addr [simp]:
  assumes "at + addr_len (is_ipv6 addr) \<le> length pkt" and "is_ipv6 addr \<or> hck_at + 2 \<le> length pkt"
  shows "length (after_addr inc pkt hck_at at addr) = length pkt"
  using assms by (auto simp: after_addr_def Let_def)

lemma write_addr_eq:
  assumes "at + addr_len (is_ipv6 addr) \<le> length pkt" and "is_ipv6 addr \<or> hck_at + 2 \<le> length pkt"
  shows "write_addr inc pkt hck_at at addr patch ck k =
    k (after_addr inc pkt hck_at at addr)
      (if patch then checksum_update inc ck (sub at (addr_len (is_ipv6 addr)) pkt) (octets addr) else ck)"
  using assms by (auto simp: write_addr_def after_addr_def Let_def)

lemma write_port_eq:
  assumes "\<And>at. pat = Some at \<Longrightarrow> at + 2 \<le> length pkt"
  shows "write_port inc pkt pat port patch ck k =
    k (after_port pkt pat port)
      (case (pat, port) of
         (Some i, Some new) \<Rightarrow> if patch then checksum_update inc ck (sub i 2 pkt) (to_be16 new) else ck
       | _ \<Rightarrow> ck)"
  using assms by (auto simp: write_port_def after_port_def split: option.splits)

lemma l4_checksum_Some:
  assumes "l4_checksum proto = Some (ck_at, pseudo, need)"
  shows "ck_at + 2 \<le> need" "even ck_at" "is_icmp proto \<Longrightarrow> ck_at = 2"
    "\<not> is_icmp proto \<Longrightarrow> 6 \<le> ck_at" "\<not> is_icmp proto \<Longrightarrow> 8 \<le> need" "2 \<le> ck_at"
  using assms by (auto simp: l4_checksum_def is_icmp_def proto_defs split: if_splits)

lemma port_at_no_panic [simp]: "port_at pkt hdr side port \<noteq> Panic"
  by (auto simp: port_at_def Let_def attempt_eq_Panic)

lemma port_at_Ok:
  assumes "port_at pkt hdr side port = Ok (Some at)"
  shows "port \<noteq> None" and "even (ip_l4_offset hdr) \<Longrightarrow> even at" and "ip_l4_offset hdr \<le> at"
    and "is_icmp (ip_protocol hdr) \<Longrightarrow> at = ip_l4_offset hdr + 4 \<and> at + 4 \<le> ip_total_len hdr"
    and "\<not> is_icmp (ip_protocol hdr) \<Longrightarrow> at \<le> ip_l4_offset hdr + 2"
  using assms
  by (auto simp: port_at_def Let_def attempt_eq_Ok split: if_splits side.splits)

lemma port_at_None_iff: "port_at pkt hdr side port = Ok None \<longleftrightarrow> port = None"
  by (auto simp: port_at_def Let_def attempt_eq_Ok split: if_splits)

lemma addr_at_le:
  "addr_at v6 side + addr_len v6 \<le> (if v6 then 40 else 20)" "even (addr_at v6 side)"
  "(if v6 then 8 else 12) \<le> addr_at v6 side"
  by (cases side; cases v6; simp add: addr_at_def addr_len_def)+

lemma even_addr_len [simp]: "even (addr_len v6)"
  by (simp add: addr_len_def)

text \<open>The guards of \<open>rewrite_endpoint\<close>, gathered.\<close>

definition rewrite_ready ::
  "bytes \<Rightarrow> ip_header \<Rightarrow> side \<Rightarrow> ip_addr \<Rightarrow> u16 option \<Rightarrow> nat \<Rightarrow> bool \<Rightarrow> nat option \<Rightarrow> bool" where
  "rewrite_ready pkt hdr side addr port ck_at pseudo pat \<longleftrightarrow>
     is_ipv6 addr = is_v6 hdr \<and>
     (\<exists>need. l4_checksum (ip_protocol hdr) = Some (ck_at, pseudo, need) \<and>
             ip_l4_offset hdr + need \<le> ip_total_len hdr) \<and>
     port_at pkt hdr side port = Ok pat"

definition unchecksummed :: "bytes \<Rightarrow> ip_header \<Rightarrow> nat \<Rightarrow> bool" where
  "unchecksummed pkt hdr ck_at \<longleftrightarrow>
     ip_protocol hdr = PROTO_UDP \<and> rd16 pkt (ip_l4_offset hdr + ck_at) = 0 \<and> \<not> is_v6 hdr"

definition rewritten ::
  "incr \<Rightarrow> bytes \<Rightarrow> ip_header \<Rightarrow> side \<Rightarrow> ip_addr \<Rightarrow> u16 option \<Rightarrow> nat \<Rightarrow> bool \<Rightarrow> nat option \<Rightarrow> bytes" where
  "rewritten inc pkt hdr side addr port ck_at pseudo pat =
     (let at = addr_at (is_v6 hdr) side;
          p = after_port (after_addr inc pkt 10 at addr) pat port
      in if unchecksummed pkt hdr ck_at then p
         else overwrite p (ip_l4_offset hdr + ck_at)
           (to_be16 (new_ck inc pkt at addr pat port pseudo (rd16 pkt (ip_l4_offset hdr + ck_at)))))"

lemma rewrite_ready_bounds:
  assumes "hdr_wf hdr (length pkt)" and "rewrite_ready pkt hdr side addr port ck_at pseudo pat"
  shows "ip_l4_offset hdr + ck_at + 2 \<le> ip_total_len hdr"
    and "\<And>at. pat = Some at \<Longrightarrow> at + 2 \<le> ip_total_len hdr \<and> ip_l4_offset hdr \<le> at \<and> even at \<and>
           (at + 2 \<le> ip_l4_offset hdr + ck_at \<or> ip_l4_offset hdr + ck_at + 2 \<le> at)"
    and "addr_at (is_v6 hdr) side + addr_len (is_ipv6 addr) \<le> ip_l4_offset hdr"
    and "\<not> is_ipv6 addr \<Longrightarrow> 20 \<le> ip_l4_offset hdr"
proof -
  from assms(2) obtain need where n: "l4_checksum (ip_protocol hdr) = Some (ck_at, pseudo, need)"
      "ip_l4_offset hdr + need \<le> ip_total_len hdr" and fam: "is_ipv6 addr = is_v6 hdr"
      and pa: "port_at pkt hdr side port = Ok pat"
    by (auto simp: rewrite_ready_def)
  note l4 = l4_checksum_Some [OF n(1)]
  show "ip_l4_offset hdr + ck_at + 2 \<le> ip_total_len hdr" using l4(1) n(2) by simp
  show "at + 2 \<le> ip_total_len hdr \<and> ip_l4_offset hdr \<le> at \<and> even at \<and>
      (at + 2 \<le> ip_l4_offset hdr + ck_at \<or> ip_l4_offset hdr + ck_at + 2 \<le> at)"
    if "pat = Some at" for at
  proof -
    have *: "port_at pkt hdr side port = Ok (Some at)" using pa that by simp
    show ?thesis
    proof (cases "is_icmp (ip_protocol hdr)")
      case True
      then show ?thesis using port_at_Ok [OF *] l4 n(2) assms(1) by (auto simp: hdr_wf_def)
    next
      case False
      then show ?thesis using port_at_Ok [OF *] l4(4,5) n(2) assms(1) by (auto simp: hdr_wf_def)
    qed
  qed
  show "addr_at (is_v6 hdr) side + addr_len (is_ipv6 addr) \<le> ip_l4_offset hdr"
    using addr_at_le(1) [of "is_v6 hdr" side] assms(1) fam by (auto simp: hdr_wf_def split: if_splits)
  show "20 \<le> ip_l4_offset hdr" if "\<not> is_ipv6 addr" using that fam assms(1) by (auto simp: hdr_wf_def)
qed

lemma rewrite_endpoint_ready:
  assumes wf: "hdr_wf hdr (length pkt)"
    and ready: "rewrite_ready pkt hdr side addr port ck_at pseudo pat"
  shows "rewrite_endpoint inc pkt hdr side addr port =
    Ok (rewritten inc pkt hdr side addr port ck_at pseudo pat)"
proof -
  note b = rewrite_ready_bounds [OF wf ready]
  from ready obtain need where n: "l4_checksum (ip_protocol hdr) = Some (ck_at, pseudo, need)"
      "ip_l4_offset hdr + need \<le> ip_total_len hdr" and fam: "is_ipv6 addr = is_v6 hdr"
      and pa: "port_at pkt hdr side port = Ok pat"
    by (auto simp: rewrite_ready_def)
  let ?at = "addr_at (is_v6 hdr) side"
  have tl: "ip_total_len hdr \<le> length pkt" "ip_l4_offset hdr \<le> ip_total_len hdr"
    using wf by (auto simp: hdr_wf_def)
  have A: "?at + addr_len (is_ipv6 addr) \<le> length pkt" "is_ipv6 addr \<or> 10 + 2 \<le> length pkt"
    using b(3,4) tl by (simp, cases "is_ipv6 addr") simp_all
  have P: "\<And>i. pat = Some i \<Longrightarrow> i + 2 \<le> length (after_addr inc pkt 10 ?at addr)"
    using b(2) tl A by fastforce
  have S: "sub i 2 (after_addr inc pkt 10 ?at addr) = sub i 2 pkt" if "pat = Some i" for i
  proof -
    have "ip_l4_offset hdr \<le> i" using b(2) that by blast
    then show ?thesis using b(3,4) A by (auto simp: after_addr_def Let_def slice_simps)
  qed
  have C: "Suc (ip_l4_offset hdr + ck_at) < length pkt" using b(1) tl by simp
  have L: "length (after_port (after_addr inc pkt 10 ?at addr) pat port) = length pkt"
    using P A by (auto simp: after_port_def split: option.split)
  show ?thesis
    using n(2) tl fam C L
    by (auto simp: rewrite_endpoint_def n(1) pa Let_def write_addr_eq [OF A] write_port_eq [OF P]
        rewritten_def unchecksummed_def new_ck_def S split: option.split)
qed

text \<open>
  Without the guards the rewrite refuses and hands the buffer back as it was; with them it
  succeeds.  There is no third outcome.
\<close>

lemma rewrite_endpoint_cases:
  assumes "hdr_wf hdr (length pkt)"
  obtains (refused) e where "rewrite_endpoint inc pkt hdr side addr port = Err (e, pkt)"
  | (done_) ck_at pseudo pat where
      "rewrite_ready pkt hdr side addr port ck_at pseudo pat"
      "rewrite_endpoint inc pkt hdr side addr port =
         Ok (rewritten inc pkt hdr side addr port ck_at pseudo pat)"
proof (cases "\<exists>ck_at pseudo pat. rewrite_ready pkt hdr side addr port ck_at pseudo pat")
  case True
  then show thesis using rewrite_endpoint_ready [OF assms] done_ by blast
next
  case False
  have "\<exists>e. rewrite_endpoint inc pkt hdr side addr port = Err (e, pkt)"
  proof (cases "l4_checksum (ip_protocol hdr)")
    case None
    then show ?thesis by (simp add: rewrite_endpoint_def)
  next
    case (Some t)
    obtain ck_at pseudo need where t: "t = (ck_at, pseudo, need)" by (cases t)
    show ?thesis
      using False Some t port_at_no_panic [of pkt hdr side port]
      by (cases "port_at pkt hdr side port")
        (auto simp: rewrite_endpoint_def rewrite_ready_def Let_def)
  qed
  then show thesis using refused by blast
qed

section \<open>What the rewrite changes\<close>

lemma rewrite_endpoint_OkE:
  assumes "rewrite_endpoint inc pkt hdr side addr port = Ok p" and "hdr_wf hdr (length pkt)"
  obtains ck_at pseudo pat where
    "rewrite_ready pkt hdr side addr port ck_at pseudo pat"
    "p = rewritten inc pkt hdr side addr port ck_at pseudo pat"
proof (rule rewrite_endpoint_cases [OF assms(2), of inc side addr port])
  fix e assume "rewrite_endpoint inc pkt hdr side addr port = Err (e, pkt)"
  with assms(1) show thesis by simp
next
  fix ck_at pseudo pat
  assume "rewrite_ready pkt hdr side addr port ck_at pseudo pat"
    and "rewrite_endpoint inc pkt hdr side addr port =
      Ok (rewritten inc pkt hdr side addr port ck_at pseudo pat)"
  with assms(1) show thesis by (intro that) auto
qed

definition in_field :: "nat \<Rightarrow> nat \<Rightarrow> nat \<Rightarrow> bool" where
  "in_field at n i \<longleftrightarrow> at \<le> i \<and> i < at + n"

lemma length_rewritten:
  assumes "hdr_wf hdr (length pkt)" and "rewrite_ready pkt hdr side addr port ck_at pseudo pat"
  shows "length (rewritten inc pkt hdr side addr port ck_at pseudo pat) = length pkt"
proof -
  note b = rewrite_ready_bounds [OF assms]
  have tl: "ip_total_len hdr \<le> length pkt" "ip_l4_offset hdr \<le> ip_total_len hdr"
    using assms(1) by (auto simp: hdr_wf_def)
  have A: "addr_at (is_v6 hdr) side + addr_len (is_ipv6 addr) \<le> length pkt"
    "is_ipv6 addr \<or> 10 + 2 \<le> length pkt"
    using b(3,4) tl by (simp, cases "is_ipv6 addr") simp_all
  have "\<And>i. pat = Some i \<Longrightarrow> i + 2 \<le> length pkt" using b(2) tl by fastforce
  then show ?thesis using A b(1) tl
    by (auto simp: rewritten_def after_port_def Let_def split: option.split)
qed

text \<open>
  Every byte outside the address, the IPv4 header checksum, the port or identifier and the
  transport checksum is the byte that was there.
\<close>

lemma rewritten_frame:
  assumes wf: "hdr_wf hdr (length pkt)"
    and ready: "rewrite_ready pkt hdr side addr port ck_at pseudo pat"
    and i: "i < length pkt" "\<not> in_field (addr_at (is_v6 hdr) side) (addr_len (is_v6 hdr)) i"
      "is_v6 hdr \<or> \<not> in_field 10 2 i" "\<not> in_field (ip_l4_offset hdr + ck_at) 2 i"
      "\<And>at. pat = Some at \<Longrightarrow> \<not> in_field at 2 i"
  shows "rewritten inc pkt hdr side addr port ck_at pseudo pat ! i = pkt ! i"
proof -
  note b = rewrite_ready_bounds [OF wf ready]
  have fam: "is_ipv6 addr = is_v6 hdr" using ready by (simp add: rewrite_ready_def)
  have tl: "ip_total_len hdr \<le> length pkt" "ip_l4_offset hdr \<le> ip_total_len hdr"
    using wf by (auto simp: hdr_wf_def)
  have A: "addr_at (is_v6 hdr) side + addr_len (is_ipv6 addr) \<le> length pkt"
    "is_ipv6 addr \<or> 10 + 2 \<le> length pkt"
    using b(3,4) tl by (simp, cases "is_ipv6 addr") simp_all
  have P: "\<And>j. pat = Some j \<Longrightarrow> j + 2 \<le> length pkt" using b(2) tl by fastforce
  let ?a = "after_addr inc pkt 10 (addr_at (is_v6 hdr) side) addr"
  have a: "?a ! i = pkt ! i"
    using A i fam by (auto simp: after_addr_def Let_def in_field_def nth_overwrite)
  have "after_port ?a pat port ! i = pkt ! i" "length (after_port ?a pat port) = length pkt"
    using a A P i(1,5) by (auto simp: after_port_def nth_overwrite in_field_def split: option.split)
  then show ?thesis using i(1,4) b(1) tl
    by (auto simp: rewritten_def Let_def nth_overwrite in_field_def)
qed

lemma rewritten_addr:
  assumes wf: "hdr_wf hdr (length pkt)"
    and ready: "rewrite_ready pkt hdr side addr port ck_at pseudo pat"
  shows "sub (addr_at (is_v6 hdr) side) (addr_len (is_v6 hdr))
      (rewritten inc pkt hdr side addr port ck_at pseudo pat) = octets addr"
proof -
  note b = rewrite_ready_bounds [OF wf ready]
  let ?at = "addr_at (is_v6 hdr) side"
  have fam: "is_ipv6 addr = is_v6 hdr" using ready by (simp add: rewrite_ready_def)
  have tl: "ip_total_len hdr \<le> length pkt" "ip_l4_offset hdr \<le> ip_total_len hdr"
    using wf by (auto simp: hdr_wf_def)
  have A: "?at + addr_len (is_ipv6 addr) \<le> length pkt" "is_ipv6 addr \<or> 10 + 2 \<le> length pkt"
    using b(3,4) tl by (simp, cases "is_ipv6 addr") simp_all
  have P: "\<And>j. pat = Some j \<Longrightarrow> ip_l4_offset hdr \<le> j \<and> j + 2 \<le> length pkt" using b(2) tl by fastforce
  let ?a = "after_addr inc pkt 10 ?at addr"
  have a: "sub ?at (addr_len (is_v6 hdr)) ?a = octets addr"
    using A fam addr_at_le(3) [of "is_v6 hdr" side]
    by (auto simp: after_addr_def Let_def slice_simps)
  have "sub ?at (addr_len (is_v6 hdr)) (after_port ?a pat port) = octets addr"
    "length (after_port ?a pat port) = length pkt"
    using a A P b(3) fam by (auto simp: after_port_def slice_simps split: option.split)
  then show ?thesis using b(1,3) tl fam
    by (auto simp: rewritten_def Let_def slice_simps)
qed

lemma rewritten_port:
  assumes wf: "hdr_wf hdr (length pkt)"
    and ready: "rewrite_ready pkt hdr side addr (Some w) ck_at pseudo (Some at)"
  shows "rd16 (rewritten inc pkt hdr side addr (Some w) ck_at pseudo (Some at)) at = w"
proof -
  note b = rewrite_ready_bounds [OF wf ready]
  have tl: "ip_total_len hdr \<le> length pkt" "ip_l4_offset hdr \<le> ip_total_len hdr"
    using wf by (auto simp: hdr_wf_def)
  have A: "addr_at (is_v6 hdr) side + addr_len (is_ipv6 addr) \<le> length pkt"
    "is_ipv6 addr \<or> 10 + 2 \<le> length pkt"
    using b(3,4) tl by (simp, cases "is_ipv6 addr") simp_all
  have P: "at + 2 \<le> length pkt" "at + 2 \<le> ip_l4_offset hdr + ck_at \<or> ip_l4_offset hdr + ck_at + 2 \<le> at"
    using b(2) [of at] tl by auto
  let ?a = "after_addr inc pkt 10 (addr_at (is_v6 hdr) side) addr"
  have "length ?a = length pkt" using A by simp
  then have "rd16 (overwrite ?a at (to_be16 w)) at = w" "length (overwrite ?a at (to_be16 w)) = length pkt"
    using P by (simp_all add: slice_simps)
  then show ?thesis using P b(1) tl
    by (auto simp: rewritten_def Let_def after_port_def slice_simps)
qed

lemma rewritten_unchecksummed:
  assumes wf: "hdr_wf hdr (length pkt)"
    and ready: "rewrite_ready pkt hdr side addr port ck_at pseudo pat"
    and un: "unchecksummed pkt hdr ck_at"
  shows "rd16 (rewritten inc pkt hdr side addr port ck_at pseudo pat) (ip_l4_offset hdr + ck_at) = 0"
proof -
  note b = rewrite_ready_bounds [OF wf ready]
  let ?c = "ip_l4_offset hdr + ck_at"
  have tl: "ip_total_len hdr \<le> length pkt" "ip_l4_offset hdr \<le> ip_total_len hdr"
    using wf by (auto simp: hdr_wf_def)
  have A: "addr_at (is_v6 hdr) side + addr_len (is_ipv6 addr) \<le> length pkt"
    "is_ipv6 addr \<or> 10 + 2 \<le> length pkt" "is_ipv6 addr \<or> 20 \<le> ip_l4_offset hdr"
    using b(3,4) tl by (simp, cases "is_ipv6 addr", simp_all)+
  let ?a = "after_addr inc pkt 10 (addr_at (is_v6 hdr) side) addr"
  have "rd16 ?a ?c = rd16 pkt ?c"
    using A b(1,3) tl by (auto simp: after_addr_def Let_def slice_simps)
  moreover have "length ?a = length pkt" using A by simp
  ultimately have "rd16 (after_port ?a pat port) ?c = rd16 pkt ?c"
    using b(1,2) tl by (fastforce simp: after_port_def slice_simps split: option.split)
  then show ?thesis using un by (simp add: rewritten_def Let_def unchecksummed_def)
qed

text \<open>The header a rewritten packet carries: the one it had, with one endpoint replaced.\<close>

definition set_endpoint :: "side \<Rightarrow> ip_addr \<Rightarrow> ip_header \<Rightarrow> ip_header" where
  "set_endpoint side addr h =
     (case side of Source \<Rightarrow> h\<lparr>ip_src := addr\<rparr> | Destination \<Rightarrow> h\<lparr>ip_dst := addr\<rparr>)"

lemma sub_frame:
  assumes "length p = length xs" and "\<And>i. i < length xs \<Longrightarrow> a \<le> i \<Longrightarrow> i < a + n \<Longrightarrow> p ! i = xs ! i"
  shows "sub a n p = sub a n xs"
  using assms by (intro nth_equalityI) auto

lemma parse_set_endpoint:
  assumes parsed: "parse pkt q = Ok hdr" and fam: "is_ipv6 addr = is_v6 hdr" and len: "length p = length pkt"
    and frame: "\<And>i. i < ip_l4_offset hdr \<Longrightarrow>
      \<not> in_field (addr_at (is_v6 hdr) side) (addr_len (is_v6 hdr)) i \<Longrightarrow>
      is_v6 hdr \<or> \<not> in_field 10 2 i \<Longrightarrow> p ! i = pkt ! i"
    and new: "sub (addr_at (is_v6 hdr) side) (addr_len (is_v6 hdr)) p = octets addr"
  shows "parse p q = Ok (set_endpoint side addr hdr)"
proof -
  let ?other = "case side of Source \<Rightarrow> Destination | Destination \<Rightarrow> Source"
  note wf = parse_Ok(1) [OF parsed] and rd = parse_Ok(2) [OF parsed]
  have tl: "(if is_v6 hdr then 40 else 20) \<le> ip_l4_offset hdr"
    using wf by (auto simp: hdr_wf_def split: if_splits)
  have fixed: "p ! i = pkt ! i" if "i < (if is_v6 hdr then 8 else 10)" for i
    using that tl addr_at_le(3) [of "is_v6 hdr" side]
    by (intro frame) (auto simp: in_field_def split: if_splits)
  have other: "sub (addr_at (is_v6 hdr) ?other) (addr_len (is_v6 hdr)) p =
      sub (addr_at (is_v6 hdr) ?other) (addr_len (is_v6 hdr)) pkt"
  proof (rule sub_frame [OF len])
    fix i assume "addr_at (is_v6 hdr) ?other \<le> i" "i < addr_at (is_v6 hdr) ?other + addr_len (is_v6 hdr)"
    then show "p ! i = pkt ! i" using tl
      by (intro frame) (auto simp: in_field_def addr_at_def addr_len_def split: side.splits bool.splits if_splits)
  qed
  have this_: "addr_from (is_v6 hdr) (sub (addr_at (is_v6 hdr) side) (addr_len (is_v6 hdr)) p) = addr"
    using new fam addr_from_octets [of addr] by simp
  show ?thesis
    using parse_cong [OF parsed len fixed] other this_ rd
    by (cases side) (simp_all add: set_endpoint_def hdr_reads_def)
qed

lemma parse_rewritten:
  assumes parsed: "parse pkt q = Ok hdr"
    and ready: "rewrite_ready pkt hdr side addr port ck_at pseudo pat"
  shows "parse (rewritten inc pkt hdr side addr port ck_at pseudo pat) q = Ok (set_endpoint side addr hdr)"
proof (rule parse_set_endpoint [OF parsed])
  note wf = parse_Ok(1) [OF parsed]
  note b = rewrite_ready_bounds [OF wf ready]
  show "is_ipv6 addr = is_v6 hdr" using ready by (simp add: rewrite_ready_def)
  show "length (rewritten inc pkt hdr side addr port ck_at pseudo pat) = length pkt"
    by (rule length_rewritten [OF wf ready])
  have tl: "ip_total_len hdr \<le> length pkt" "ip_l4_offset hdr \<le> ip_total_len hdr"
    using wf by (auto simp: hdr_wf_def split: if_splits)
  have P: "\<And>j. pat = Some j \<Longrightarrow> ip_l4_offset hdr \<le> j" using b(2) by blast
  show "rewritten inc pkt hdr side addr port ck_at pseudo pat ! i = pkt ! i"
    if "i < ip_l4_offset hdr" "\<not> in_field (addr_at (is_v6 hdr) side) (addr_len (is_v6 hdr)) i"
      "is_v6 hdr \<or> \<not> in_field 10 2 i" for i
    using that tl P by (intro rewritten_frame [OF wf ready]) (fastforce simp: in_field_def)+
qed (rule rewritten_addr [OF parse_Ok(1) [OF parsed] ready])

lemma parse_payload: "parse pkt q = Ok h \<Longrightarrow> ip_total_len h \<le> ip_l4_offset h + 65535"
proof -
  have [simp]: "unat w \<le> n + 65535" "unat w \<le> 65535" for w :: u16 and n :: nat
    using unat_u16_less [of w] by linarith+
  assume "parse pkt q = Ok h"
  then consider "parse_v4 pkt q = Ok h" | "parse_v6 pkt q = Ok h"
    by (auto simp: parse_def Let_def split: list.splits if_splits)
  then show ?thesis
  proof cases
    case 1
    then have "20 \<le> length pkt" by (rule_tac ccontr) (simp add: parse_v4_short)
    with 1 show ?thesis by (auto simp: parse_v4_long Let_def min_le_iff_disj split: if_splits)
  next
    case 2
    then show ?thesis
      by (auto simp: parse_v6_def Let_def IPV6_HEADER_def min_le_iff_disj
          with_u16_def with_nth_def with_sub_def split: if_splits)
  qed
qed

lemma parse_frame:
  assumes parsed: "parse pkt q = Ok h" and len: "length p = length pkt"
    and frame: "\<And>i. i < ip_l4_offset h \<Longrightarrow> p ! i = pkt ! i"
  shows "parse p q = Ok h"
proof -
  have tl: "(if is_v6 h then 40 else 20) \<le> ip_l4_offset h"
    using parse_Ok(1) [OF parsed] by (auto simp: hdr_wf_def split: if_splits)
  have "sub (addr_at (is_v6 h) s) (addr_len (is_v6 h)) p = sub (addr_at (is_v6 h) s) (addr_len (is_v6 h)) pkt" for s
    using tl addr_at_le(1) [of "is_v6 h" s] by (intro sub_frame [OF len] frame) (auto split: if_splits)
  moreover have "p ! i = pkt ! i" if "i < (if is_v6 h then 8 else 10)" for i
    using that tl by (intro frame) (auto split: if_splits)
  ultimately show ?thesis
    using parse_cong [OF parsed len] parse_Ok(2) [OF parsed] by (simp add: hdr_reads_def)
qed

lemma set_endpoint_simps [simp]:
  "ip_protocol (set_endpoint side addr h) = ip_protocol h"
  "ip_l4_offset (set_endpoint side addr h) = ip_l4_offset h"
  "ip_total_len (set_endpoint side addr h) = ip_total_len h"
  by (cases side; simp add: set_endpoint_def)+

section \<open>Checksums survive the rewrite\<close>

text \<open>
  The documented behaviour of the RFC 1624 update: the new checksum accounts for the new word where
  the old one accounted for the old word, in ones'-complement arithmetic.
\<close>

definition incremental_update :: "incr \<Rightarrow> bool" where
  "incremental_update inc \<longleftrightarrow>
     (\<forall>ck m m'. (unat (inc ck m m') + unat m') mod 65535 = (unat ck + unat m) mod 65535)"

lemma mod_chain:
  fixes a b c d e f g :: nat
  assumes "(a + b) mod 65535 = (d + e) mod 65535" and "(d + c) mod 65535 = (f + g) mod 65535"
  shows "(a + (c + b)) mod 65535 = (f + (g + e)) mod 65535"
proof -
  from assms obtain p q r s where "a + b + 65535 * p = d + e + 65535 * q"
      "d + c + 65535 * r = f + g + 65535 * s"
    by (auto simp: nat_mod_eq_iff)
  then have "a + (c + b) + 65535 * (p + r) = f + (g + e) + 65535 * (q + s)"
    unfolding add_mult_distrib2 by linarith
  then show ?thesis by (subst nat_mod_eq_iff) blast
qed

lemma checksum_update_sum:
  assumes "incremental_update inc" and "length old = length new" and "even (length old)"
  shows "(unat (checksum_update inc ck old new) + word_sum new) mod 65535 =
    (unat ck + word_sum old) mod 65535"
  using assms
proof (induction inc ck old new rule: checksum_update.induct)
  case (1 inc ck o1 o2 old n1 n2 new)
  let ?o = "u16_be o1 o2" and ?n = "u16_be n1 n2"
  have "(unat (checksum_update inc (inc ck ?o ?n) old new) + word_sum new) mod 65535 =
      (unat (inc ck ?o ?n) + word_sum old) mod 65535"
    using 1 by simp
  moreover have "(unat (inc ck ?o ?n) + unat ?n) mod 65535 = (unat ck + unat ?o) mod 65535"
    using 1(2) by (auto simp: incremental_update_def)
  ultimately have "(unat (checksum_update inc (inc ck ?o ?n) old new) + (unat ?n + word_sum new)) mod 65535
      = (unat ck + (unat ?o + word_sum old)) mod 65535"
    by (rule mod_chain)
  then show ?case by (simp add: bytes_simps)
qed auto

lemma same_mod_sum:
  fixes s s' a b c d :: nat
  assumes "s' + (c + a) = s + (d + b)" and "(d + b) mod 65535 = (c + a) mod 65535"
  shows "s' mod 65535 = s mod 65535"
proof -
  from assms(2) obtain p q where "d + b + 65535 * p = c + a + 65535 * q"
    by (auto simp: nat_mod_eq_iff)
  with assms(1) have "s' + 65535 * p = s + 65535 * q" by linarith
  then show ?thesis by (auto simp: nat_mod_eq_iff)
qed

text \<open>The IPv4 header sums to the same value before and after.\<close>

lemma header_sum_rewritten:
  assumes inc: "incremental_update inc" and wf: "hdr_wf hdr (length pkt)"
    and ready: "rewrite_ready pkt hdr side addr port ck_at pseudo pat" and v4: "\<not> is_v6 hdr"
  shows "word_sum (take (ip_l4_offset hdr) (rewritten inc pkt hdr side addr port ck_at pseudo pat)) mod 65535
    = word_sum (take (ip_l4_offset hdr) pkt) mod 65535"
proof -
  note b = rewrite_ready_bounds [OF wf ready]
  let ?l4 = "ip_l4_offset hdr" and ?at = "addr_at (is_v6 hdr) side"
  have fam: "\<not> is_ipv6 addr" using ready v4 by (simp add: rewrite_ready_def)
  have tl: "?l4 \<le> length pkt" "20 \<le> ?l4" "ip_total_len hdr \<le> length pkt"
    using wf v4 by (auto simp: hdr_wf_def)
  have A: "?at + 4 \<le> ?l4" "even ?at" "12 \<le> ?at"
    using b(3) fam addr_at_le(2,3) [of "is_v6 hdr" side] v4 by (simp_all add: addr_len_def)
  let ?old = "sub ?at 4 pkt" and ?new = "octets addr"
  define p1 where "p1 = overwrite pkt ?at ?new"
  define p2 where "p2 = overwrite p1 10 (to_be16 (checksum_update inc (rd16 pkt 10) ?old ?new))"
  have l1: "length p1 = length pkt" using A tl fam by (simp add: p1_def addr_len_def)
  have ck: "rd16 p1 10 = rd16 pkt 10" using A tl fam
    by (simp add: p1_def addr_len_def slice_simps)
  have p2: "after_addr inc pkt 10 ?at addr = p2"
    using fam ck by (simp add: after_addr_def p1_def p2_def Let_def addr_len_def)
  have l2: "length p2 = length pkt" using l1 tl by (simp add: p2_def)
  have P: "\<And>j. pat = Some j \<Longrightarrow> ?l4 \<le> j \<and> j + 2 \<le> length pkt" using b(2) tl by fastforce
  have "take ?l4 (after_port p2 pat port) = take ?l4 p2" "length (after_port p2 pat port) = length pkt"
    using P l2 by (auto simp: after_port_def take_overwrite_out split: option.split)
  then have hd: "take ?l4 (rewritten inc pkt hdr side addr port ck_at pseudo pat) = take ?l4 p2"
    using b(1) tl by (auto simp: rewritten_def p2 Let_def take_overwrite_out)
  have s1: "word_sum (take ?l4 p1) + word_sum ?old = word_sum (take ?l4 pkt) + word_sum ?new"
    using word_sum_overwrite [of ?at ?new "take ?l4 pkt"] A tl fam
    by (simp add: p1_def take_overwrite addr_len_def sub_take)
  have s2: "word_sum (take ?l4 p2) + unat (rd16 pkt 10) =
      word_sum (take ?l4 p1) + unat (checksum_update inc (rd16 pkt 10) ?old ?new)"
    using word_sum_overwrite [of 10 "to_be16 (checksum_update inc (rd16 pkt 10) ?old ?new)" "take ?l4 p1"]
      word_sum_pair [of 10 "take ?l4 p1"] tl l1 ck
    by (simp add: p2_def take_overwrite)
  have "(unat (checksum_update inc (rd16 pkt 10) ?old ?new) + word_sum ?new) mod 65535 =
      (unat (rd16 pkt 10) + word_sum ?old) mod 65535"
    using A tl fam by (intro checksum_update_sum [OF inc]) (simp_all add: addr_len_def)
  moreover have "word_sum (take ?l4 p2) + (unat (rd16 pkt 10) + word_sum ?old) =
      word_sum (take ?l4 pkt) + (unat (checksum_update inc (rd16 pkt 10) ?old ?new) + word_sum ?new)"
    using s1 s2 by simp
  ultimately show ?thesis unfolding hd by (rule same_mod_sum [rotated])
qed

text \<open>
  The transport sum: the segment as the header delimits it, with the addresses when the protocol's
  checksum covers them through a pseudo-header (whose length and protocol words do not change).
\<close>

definition transport_sum :: "bool \<Rightarrow> ip_header \<Rightarrow> bytes \<Rightarrow> nat" where
  "transport_sum pseudo h p =
     (if pseudo then word_sum (octets (ip_src h)) + word_sum (octets (ip_dst h)) else 0) +
     word_sum (sub (ip_l4_offset h) (ip_total_len h - ip_l4_offset h) p)"

lemma segment_overwrite:
  assumes "l4 \<le> at" and "at + length ys \<le> en" and "en \<le> length xs" and "even l4" and "even at"
    and "even (length ys)"
  shows "word_sum (sub l4 (en - l4) (overwrite xs at ys)) + word_sum (sub at (length ys) xs) =
    word_sum (sub l4 (en - l4) xs) + word_sum ys"
proof -
  let ?seg = "take (en - l4) (drop l4 xs)"
  have eq: "sub l4 (en - l4) (overwrite xs at ys) = overwrite ?seg (at - l4) ys"
    using assms by (simp add: sub_def drop_overwrite take_overwrite)
  have "sub (at - l4) (length ys) ?seg = sub at (length ys) xs"
    using assms by (simp add: sub_take sub_drop)
  then show ?thesis
    using word_sum_overwrite [of "at - l4" ys ?seg] assms by (simp add: eq) (simp add: sub_def)
qed

lemma segment_after_addr:
  assumes "at + addr_len (is_ipv6 addr) \<le> l4" and "l4 \<le> length pkt" and "is_ipv6 addr \<or> 12 \<le> l4"
  shows "sub l4 n (after_addr inc pkt 10 at addr) = sub l4 n pkt"
  using assms by (auto simp: after_addr_def Let_def slice_simps)

lemma transport_sum_rewritten:
  assumes inc: "incremental_update inc" and wf: "hdr_wf hdr (length pkt)" and rd: "hdr_reads hdr pkt"
    and ready: "rewrite_ready pkt hdr side addr port ck_at pseudo pat"
    and ck: "\<not> unchecksummed pkt hdr ck_at"
  shows "transport_sum pseudo (set_endpoint side addr hdr)
      (rewritten inc pkt hdr side addr port ck_at pseudo pat) mod 65535 =
    transport_sum pseudo hdr pkt mod 65535"
proof -
  note b = rewrite_ready_bounds [OF wf ready]
  let ?l4 = "ip_l4_offset hdr" and ?tl = "ip_total_len hdr" and ?at = "addr_at (is_v6 hdr) side"
  let ?n = "addr_len (is_ipv6 addr)" and ?c = "ip_l4_offset hdr + ck_at"
  let ?old = "sub ?at ?n pkt" and ?new = "octets addr"
  have fam: "is_ipv6 addr = is_v6 hdr" using ready by (simp add: rewrite_ready_def)
  have wf': "?tl \<le> length pkt" "?l4 \<le> ?tl" "even ?l4" using wf by (auto simp: hdr_wf_def)
  have hd: "is_ipv6 addr \<or> 12 \<le> ?l4" using b(4) by (cases "is_ipv6 addr") simp_all
  have A: "?at + ?n \<le> length pkt" "is_ipv6 addr \<or> 10 + 2 \<le> length pkt" using b(3) hd wf' by auto
  have even_c: "even ?c" using ready wf' by (auto simp: rewrite_ready_def dest: l4_checksum_Some(2))
  define p2 where "p2 = after_addr inc pkt 10 ?at addr"
  define p3 where "p3 = after_port p2 pat port"
  define ck1 where "ck1 = (if pseudo then checksum_update inc (rd16 pkt ?c) ?old ?new else rd16 pkt ?c)"
  define ck2 where "ck2 = new_ck inc pkt ?at addr pat port pseudo (rd16 pkt ?c)"
  have l2: "length p2 = length pkt" using A by (simp add: p2_def)
  have seg2: "sub ?l4 (?tl - ?l4) p2 = sub ?l4 (?tl - ?l4) pkt"
    unfolding p2_def using b(3) wf' hd by (intro segment_after_addr) auto
  have same2: "sub i m p2 = sub i m pkt" if "?l4 \<le> i" "i \<le> length pkt" for i m
    unfolding p2_def using b(3) wf' hd that by (intro segment_after_addr) auto
  define po pn where "po = (case (pat, port) of (Some i, Some w) \<Rightarrow> unat (rd16 pkt i) | _ \<Rightarrow> 0)"
    and "pn = (case (pat, port) of (Some i, Some w) \<Rightarrow> unat w | _ \<Rightarrow> 0)"
  have l3: "length p3 = length pkt" using l2 b(2) wf'
    by (fastforce simp: p3_def after_port_def split: option.split)
  have s3: "word_sum (sub ?l4 (?tl - ?l4) p3) + po = word_sum (sub ?l4 (?tl - ?l4) pkt) + pn"
  proof (cases "\<exists>i w. pat = Some i \<and> port = Some w")
    case True
    then obtain i w where i: "pat = Some i" "port = Some w" by blast
    then have bi: "i + 2 \<le> ?tl" "?l4 \<le> i" "even i" using b(2) by auto
    show ?thesis
      using segment_overwrite [of ?l4 i "to_be16 w" ?tl p2] bi wf' l2 seg2 same2 [of i 2]
        word_sum_pair [of i pkt]
      by (simp add: p3_def after_port_def i po_def pn_def)
  next
    case False
    then have "p3 = p2" "po = 0" "pn = 0"
      by (auto simp: p3_def after_port_def po_def pn_def split: option.splits)
    then show ?thesis by (simp add: seg2)
  qed
  have c3: "rd16 p3 ?c = rd16 pkt ?c"
  proof -
    have "rd16 p2 ?c = rd16 pkt ?c"
      using same2 [of ?c 2] b(1) wf' l2 by (intro rd16_eq_sub) simp_all
    moreover have "rd16 p3 ?c = rd16 p2 ?c"
      using b(1,2) wf' l2 by (fastforce simp: p3_def after_port_def slice_simps split: option.split)
    ultimately show ?thesis by simp
  qed
  have s4: "word_sum (sub ?l4 (?tl - ?l4) (overwrite p3 ?c (to_be16 ck2))) + unat (rd16 pkt ?c) =
      word_sum (sub ?l4 (?tl - ?l4) p3) + unat ck2"
    using segment_overwrite [of ?l4 ?c "to_be16 ck2" ?tl p3] word_sum_pair [of ?c p3] b(1) wf' l3 even_c c3
    by simp
  have k1: "(unat ck1 + (if pseudo then word_sum ?new else 0)) mod 65535 =
      (unat (rd16 pkt ?c) + (if pseudo then word_sum ?old else 0)) mod 65535"
    using checksum_update_sum [OF inc, of ?old ?new "rd16 pkt ?c"] A by (simp add: ck1_def)
  have k2: "(unat ck2 + pn) mod 65535 = (unat ck1 + po) mod 65535"
  proof (cases "\<exists>i w. pat = Some i \<and> port = Some w")
    case True
    then obtain i w where i: "pat = Some i" "port = Some w" by blast
    then have bi: "i + 2 \<le> length pkt" using b(2) wf' by fastforce
    then show ?thesis
      using checksum_update_sum [OF inc, of "sub i 2 pkt" "to_be16 w" ck1] word_sum_pair [of i pkt]
      by (simp add: ck2_def new_ck_def ck1_def i po_def pn_def Let_def)
  next
    case False
    then show ?thesis
      by (auto simp: ck2_def new_ck_def ck1_def po_def pn_def Let_def split: option.splits)
  qed
  have old: "?old = octets (case side of Source \<Rightarrow> ip_src hdr | Destination \<Rightarrow> ip_dst hdr)"
    using rd fam A by (cases side) (simp_all add: hdr_reads_def)
  let ?ps = "\<lambda>h. if pseudo then word_sum (octets (ip_src h)) + word_sum (octets (ip_dst h)) else 0"
  have ps: "?ps (set_endpoint side addr hdr) + (if pseudo then word_sum ?old else 0) =
      ?ps hdr + (if pseudo then word_sum ?new else 0)"
    using old by (cases side) (simp_all add: set_endpoint_def)
  have rew: "rewritten inc pkt hdr side addr port ck_at pseudo pat = overwrite p3 ?c (to_be16 ck2)"
    using ck by (simp add: rewritten_def Let_def p2_def p3_def ck2_def)
  have "(unat ck2 + (pn + (if pseudo then word_sum ?new else 0))) mod 65535 =
      (unat (rd16 pkt ?c) + ((if pseudo then word_sum ?old else 0) + po)) mod 65535"
    using mod_chain [of "unat ck2" pn "unat ck1" po, OF k2 k1] by (simp only: add.commute)
  then show ?thesis
    unfolding rew transport_sum_def
    by (rule same_mod_sum [rotated]) (use s3 s4 ps in \<open>cases side; simp add: set_endpoint_def\<close>)
qed

section \<open>Reading the rewritten endpoint back\<close>

text \<open>The ports a translated packet shows, and the identifier a translated echo shows.\<close>

definition set_port :: "side \<Rightarrow> u16 \<Rightarrow> u16 \<times> u16 \<Rightarrow> u16 \<times> u16" where
  "set_port side w sd = (case side of Source \<Rightarrow> (w, snd sd) | Destination \<Rightarrow> (fst sd, w))"

lemma rewritten_read_ports:
  assumes wf: "hdr_wf hdr (length pkt)"
    and ready: "rewrite_ready pkt hdr side addr (Some w) ck_at pseudo pat"
    and l4p: "\<not> is_icmp (ip_protocol hdr)"
  shows "read_ports (rewritten inc pkt hdr side addr (Some w) ck_at pseudo pat) (ip_l4_offset hdr) =
    Ok (set_port side w (rd16 pkt (ip_l4_offset hdr), rd16 pkt (ip_l4_offset hdr + 2)))"
proof -
  let ?p = "rewritten inc pkt hdr side addr (Some w) ck_at pseudo pat" and ?l4 = "ip_l4_offset hdr"
  let ?i = "case side of Source \<Rightarrow> ?l4 | Destination \<Rightarrow> ?l4 + 2"
  let ?j = "case side of Source \<Rightarrow> ?l4 + 2 | Destination \<Rightarrow> ?l4"
  note b = rewrite_ready_bounds [OF wf ready]
  have pat: "pat = Some ?i" using ready l4p by (simp add: rewrite_ready_def port_at_def Let_def)
  have need: "?l4 + 8 \<le> ip_total_len hdr" "6 \<le> ck_at"
    using ready l4p by (fastforce simp: rewrite_ready_def dest: l4_checksum_Some(4,5))+
  have tl: "ip_total_len hdr \<le> length pkt" using wf by (simp add: hdr_wf_def)
  have len: "length ?p = length pkt" by (rule length_rewritten [OF wf ready])
  have new: "rd16 ?p ?i = w" using rewritten_port [OF wf] ready pat by simp
  have fr: "?p ! i = pkt ! i" if "?l4 \<le> i" "i < ?l4 + 4" "\<not> in_field ?i 2 i" for i
  proof (rule rewritten_frame [OF wf ready])
    show "is_v6 hdr \<or> \<not> in_field 10 2 i"
      using that wf by (auto simp: in_field_def hdr_wf_def split: if_splits)
    show "\<not> in_field (addr_at (is_v6 hdr) side) (addr_len (is_v6 hdr)) i"
      using that b(3) ready by (auto simp: in_field_def rewrite_ready_def)
  qed (use that need tl pat in \<open>auto simp: in_field_def\<close>)
  have "rd16 ?p ?j = rd16 pkt ?j"
    using fr [of ?l4] fr [of "Suc ?l4"] fr [of "?l4 + 2"] fr [of "Suc (?l4 + 2)"]
    by (cases side) (simp_all add: rd16_def in_field_def)
  then show ?thesis
    using new len need tl by (cases side) (simp_all add: read_ports_Ok set_port_def)
qed

section \<open>Properties\<close>

text \<open>
  The layouts of RFC 791 and RFC 8200, in the arithmetic of the fields: what a header must say of
  the buffer it was read from.  The last 14 bits of an IPv4 packet's flag word are the
  more-fragments flag and the fragment offset.
\<close>

definition layout_v4 :: "bytes \<Rightarrow> ip_header \<Rightarrow> bool" where
  "layout_v4 pkt h \<longleftrightarrow>
     20 \<le> length pkt \<and> unat (pkt ! 0) div 16 = 4 \<and>
     ip_l4_offset h = 4 * (unat (pkt ! 0) mod 16) \<and> ip_total_len h = unat (rd16 pkt 2) \<and>
     20 \<le> ip_l4_offset h \<and> ip_l4_offset h \<le> ip_total_len h \<and> ip_total_len h \<le> length pkt \<and>
     unat (rd16 pkt 6) mod 16384 = 0 \<and> ip_protocol h = pkt ! 9 \<and>
     octets (ip_src h) = sub 12 4 pkt \<and> octets (ip_dst h) = sub 16 4 pkt"

definition layout_v6 :: "bytes \<Rightarrow> ip_header \<Rightarrow> bool" where
  "layout_v6 pkt h \<longleftrightarrow>
     40 \<le> length pkt \<and> unat (pkt ! 0) div 16 = 6 \<and>
     ip_l4_offset h = 40 \<and> ip_total_len h = 40 + unat (rd16 pkt 4) \<and> ip_total_len h \<le> length pkt \<and>
     ip_protocol h = pkt ! 6 \<and> pkt ! 6 \<notin> {0, 43, 44, 50, 51, 59, 60, 135, 139, 140} \<and>
     octets (ip_src h) = sub 8 16 pkt \<and> octets (ip_dst h) = sub 24 16 pkt"

lemma version_nibble: "drop_bit 4 (b :: u8) = n \<longleftrightarrow> unat b div 16 = unat n"
proof -
  have "drop_bit 4 (unat b) = unat b div 16" by (simp add: drop_bit_eq_div)
  then show ?thesis by (simp only: word_unat_eq_iff [of "drop_bit 4 b" n] unat_drop_bit_eq)
qed

lemma length_nibble: "unat (b AND 15 :: u8) = unat b mod 16"
proof -
  have "b AND 15 = take_bit 4 b" by (simp add: take_bit_eq_mask mask_eq_exp_minus_1)
  then have "unat (b AND 15) = take_bit 4 (unat b)" by (simp only: unsigned_take_bit_eq)
  then show ?thesis by (simp add: take_bit_eq_mod)
qed

lemma fragment_bits:
  "(w AND 0x2000 = 0 \<and> w AND 0x1fff = 0) \<longleftrightarrow> unat (w :: u16) mod 16384 = 0"
proof -
  have "(w AND 0x2000 = 0 \<and> w AND 0x1fff = 0) \<longleftrightarrow> w AND (0x2000 OR 0x1fff) = 0"
    by (simp only: bit.conj_disj_distrib or_eq_0_iff)
  also have "\<dots> \<longleftrightarrow> take_bit 14 w = 0" by (simp add: take_bit_eq_mask mask_eq_exp_minus_1)
  also have "\<dots> \<longleftrightarrow> take_bit 14 (unat w) = 0"
    by (simp only: word_unat_eq_iff [of "take_bit 14 w" 0] unsigned_take_bit_eq unsigned_0)
  also have "\<dots> \<longleftrightarrow> unat w mod 16384 = 0" by (simp only: take_bit_eq_mod) simp
  finally show ?thesis .
qed

lemma octets_eq_iff:
  assumes "length bs = addr_len v6"
  shows "octets a = bs \<longleftrightarrow> a = addr_from v6 bs"
proof
  assume o: "octets a = bs"
  then have "addr_len (is_ipv6 a) = addr_len v6" using assms length_octets [of a] by simp
  then have "is_ipv6 a = v6" by (simp add: addr_len_def split: if_splits)
  then show "a = addr_from v6 bs" using addr_from_octets [of a] o by simp
qed (use assms in simp)

lemma parse_v4_layout:
  assumes "20 \<le> length pkt" and "drop_bit 4 (pkt ! 0) = 4"
  shows "parse_v4 pkt False = Ok h \<longleftrightarrow> layout_v4 pkt h"
proof -
  have "octets a = sub i 4 pkt \<longleftrightarrow> a = v4_from (sub i 4 pkt)" if "i + 4 \<le> length pkt" for a i
    using octets_eq_iff [of "sub i 4 pkt" False a] that by (simp add: addr_len_def addr_from_def)
  from this [of 12 "ip_src h"] this [of 16 "ip_dst h"] assms fragment_bits [of "rd16 pkt 6"] show ?thesis
    by (cases h) (auto simp: parse_v4_long layout_v4_def Let_def length_nibble version_nibble)
qed

lemma parse_v6_layout:
  assumes "drop_bit 4 (pkt ! 0) = 6"
  shows "parse_v6 pkt False = Ok h \<longleftrightarrow> layout_v6 pkt h"
proof (cases "40 \<le> length pkt")
  case True
  have "octets a = sub i 16 pkt \<longleftrightarrow> a = v6_from (sub i 16 pkt)" if "i + 16 \<le> length pkt" for a i
    using octets_eq_iff [of "sub i 16 pkt" True a] that by (simp add: addr_len_def addr_from_def)
  from this [of 8 "ip_src h"] this [of 24 "ip_dst h"] True assms show ?thesis
    by (cases h) (auto simp: parse_v6_def layout_v6_def Let_def IPV6_HEADER_def version_nibble
      is_extension_header_def)
qed (simp add: parse_v6_def layout_v6_def IPV6_HEADER_def)

text \<open>
  C17.  Parsing is panic-free and exact: a packet is accepted with a header just when the bytes lay
  that header out.  The version nibble, the header length, the declared length (inside the buffer),
  the protocol, both addresses, and that an IPv4 packet is no fragment and an IPv6 packet has no
  extension header are all read off the buffer.  A first byte of another version is the error for it.
\<close>

theorem parse_ip_sound:
  "parse_ip pkt \<noteq> Panic \<and>
   (parse_ip pkt = Ok h \<longleftrightarrow> layout_v4 pkt h \<or> layout_v6 pkt h) \<and>
   (parse_ip pkt = Err BadVersion \<longleftrightarrow> pkt \<noteq> [] \<and> unat (pkt ! 0) div 16 \<notin> {4, 6})"
proof (cases pkt)
  case Nil
  then show ?thesis by (simp add: parse_ip_def parse_def layout_v4_def layout_v6_def)
next
  case (Cons b bs)
  have long: "20 \<le> length pkt" if "parse_v4 pkt False = Ok h"
    using that by (rule_tac ccontr) (simp add: parse_v4_short)
  have v4: "parse_v4 pkt False = Ok h \<longleftrightarrow> layout_v4 pkt h" if "drop_bit 4 (pkt ! 0) = 4"
    using parse_v4_layout [OF _ that] long by (auto simp: layout_v4_def)
  have "parse_v4 pkt False \<noteq> Err BadVersion"
    by (cases "length pkt < 20") (simp_all add: parse_v4_short parse_v4_long Let_def)
  moreover have "parse_v6 pkt False \<noteq> Err BadVersion"
    by (simp add: parse_v6_def Let_def IPV6_HEADER_def)
  moreover have "layout_v4 pkt h \<Longrightarrow> drop_bit 4 (pkt ! 0) = 4" "layout_v6 pkt h \<Longrightarrow> drop_bit 4 (pkt ! 0) = 6"
    by (simp_all add: version_nibble layout_v4_def layout_v6_def)
  ultimately show ?thesis
    using Cons v4 parse_v6_layout [of pkt h] parse_v4_no_panic [of pkt False] parse_v6_no_panic [of pkt False]
    by (auto simp: parse_ip_def parse_def Let_def version_nibble [symmetric, of _ 4, simplified]
      version_nibble [symmetric, of _ 6, simplified])
qed

text \<open>A UDP datagram from 10.67.0.2 port 40000 to 1.1.1.1 port 53, for the closed instances.\<close>

definition sample_udp :: bytes where
  "sample_udp = [0x45, 0, 0, 28, 0, 0, 0, 0, 64, 17, 0x6e, 0x8b, 10, 67, 0, 2, 1, 1, 1, 1,
     0x9c, 0x40, 0, 53, 0, 8, 0x57, 0x22]"

definition sample_udp_hdr :: ip_header where
  "sample_udp_hdr = \<lparr>ip_src = V4 172163074, ip_dst = V4 16843009, ip_protocol = 17,
     ip_l4_offset = 20, ip_total_len = 28\<rparr>"

lemmas [eval_simps] = parse_ip_def parse_ip_quote_def parse_def parse_v4_def parse_v6_def ip_consts
  v4_from_def v6_from_def is_v6_def addr_at_def addr_len_def l4_checksum_def port_at_def is_icmp_def
  is_echo_def is_icmp_error_def is_extension_header_def echo_defs tcp_defs read_ports_def tcp_flags_def read_icmp_def
  octets.simps rewrite_endpoint_def write_addr_def write_port_def

lemma parse_sample_udp: "parse_ip sample_udp = Ok sample_udp_hdr"
  by (simp add: eval_simps sample_udp_def sample_udp_hdr_def)

theorem parse_ip_sound_witness:
  "parse_ip sample_udp = Ok sample_udp_hdr \<and> layout_v4 sample_udp sample_udp_hdr"
  using parse_ip_sound [of sample_udp sample_udp_hdr] parse_sample_udp
  by (auto simp: layout_v6_def sample_udp_def)

text \<open>
  The bytes a rewrite may touch: the address of the endpoint, the IPv4 header checksum, the transport
  checksum and, when a port is given, the port of that side or the identifier of an echo.
\<close>

definition endpoint_bytes :: "ip_header \<Rightarrow> side \<Rightarrow> u16 option \<Rightarrow> nat set" where
  "endpoint_bytes hdr side port =
     (let l4 = ip_l4_offset hdr; proto = ip_protocol hdr;
          ck = l4 + (if proto = 6 then 16 else if proto = 17 then 6 else 2) in
      (if is_v6 hdr then (case side of Source \<Rightarrow> {8..<24} | Destination \<Rightarrow> {24..<40})
       else (case side of Source \<Rightarrow> {12..<16} | Destination \<Rightarrow> {16..<20}) \<union> {10, 11}) \<union>
      {ck, ck + 1} \<union>
      (if port = None then {}
       else if proto \<in> {6, 17} then (case side of Source \<Rightarrow> {l4, l4 + 1} | Destination \<Rightarrow> {l4 + 2, l4 + 3})
       else {l4 + 4, l4 + 5}))"

lemma rewritten_outside:
  assumes wf: "hdr_wf hdr (length pkt)"
    and ready: "rewrite_ready pkt hdr side addr port ck_at pseudo pat"
    and i: "i < length pkt" "i \<notin> endpoint_bytes hdr side port"
  shows "rewritten inc pkt hdr side addr port ck_at pseudo pat ! i = pkt ! i"
proof (rule rewritten_frame [OF wf ready i(1)])
  have ck: "ck_at = (if ip_protocol hdr = 6 then 16 else if ip_protocol hdr = 17 then 6 else 2)"
    and known: "ip_protocol hdr \<in> {1, 6, 17, 58}"
    using ready by (auto simp: rewrite_ready_def l4_checksum_def proto_defs split: if_splits)
  show "\<not> in_field (addr_at (is_v6 hdr) side) (addr_len (is_v6 hdr)) i"
    using i(2) by (cases side; cases "is_v6 hdr")
      (auto simp: endpoint_bytes_def Let_def in_field_def addr_at_def addr_len_def)
  show "is_v6 hdr \<or> \<not> in_field 10 2 i"
    using i(2) by (auto simp: endpoint_bytes_def Let_def in_field_def)
  show "\<not> in_field (ip_l4_offset hdr + ck_at) 2 i"
    using i(2) unfolding ck by (auto simp: endpoint_bytes_def Let_def in_field_def)
  show "\<not> in_field at 2 i" if "pat = Some at" for at
    using i(2) ready known unfolding that
    by (auto simp: endpoint_bytes_def Let_def in_field_def rewrite_ready_def port_at_def is_icmp_def
        proto_defs attempt_eq_Ok split: if_splits side.splits)
qed

text \<open>
  C18.  Rewriting an endpoint of a parsed packet never panics, and it is all or nothing: it either
  refuses and leaves every byte as it was, or succeeds on a buffer of the same length in which no
  byte outside the endpoint's address, its port or echo identifier and the two checksums has changed.
\<close>

theorem rewrite_endpoint_atomic:
  assumes "parse_ip pkt = Ok hdr"
  shows "(\<exists>p. rewrite_endpoint inc pkt hdr side addr port = Ok p \<and> length p = length pkt \<and>
           {i. i < length pkt \<and> p ! i \<noteq> pkt ! i} \<subseteq> endpoint_bytes hdr side port) \<or>
    (\<exists>e. rewrite_endpoint inc pkt hdr side addr port = Err (e, pkt))"
proof -
  have wf: "hdr_wf hdr (length pkt)" using assms by (auto simp: parse_ip_def dest: parse_Ok)
  show ?thesis
  proof (rule rewrite_endpoint_cases [OF wf, of inc side addr port])
    fix ck_at pseudo pat assume ready: "rewrite_ready pkt hdr side addr port ck_at pseudo pat"
      and ok: "rewrite_endpoint inc pkt hdr side addr port =
        Ok (rewritten inc pkt hdr side addr port ck_at pseudo pat)"
    show ?thesis
      using ok length_rewritten [OF wf ready, of inc] rewritten_outside [OF wf ready, of _ inc] by auto
  qed blast
qed

text \<open>
  The update of RFC 1624, equation 3: the complement of the ones'-complement sum of the complemented
  checksum, the complemented old word and the new word.  A sum that is not zero folds into 1 to 65535.
\<close>

definition ones_fold :: "nat \<Rightarrow> nat" where
  "ones_fold t = (if t = 0 then 0 else (t - 1) mod 65535 + 1)"

definition rfc1624 :: incr where
  "rfc1624 ck m m' = word_of_nat (65535 - ones_fold ((65535 - unat ck) + (65535 - unat m) + unat m'))"

lemma ones_fold_le: "ones_fold t \<le> 65535"
proof (cases "t = 0")
  case False
  then have "ones_fold t = (t - 1) mod 65535 + 1" by (simp add: ones_fold_def)
  moreover have "(t - 1) mod 65535 < 65535" by simp
  ultimately show ?thesis by linarith
qed (simp add: ones_fold_def)

lemma ones_fold_split: "ones_fold t + 65535 * ((t - 1) div 65535) = t"
  using mod_mult_div_eq [of "t - 1" 65535] by (auto simp: ones_fold_def)

lemma rfc1624_vector: "rfc1624 0xdd2f 0x5555 0x3285 = 0"
  by (simp add: rfc1624_def ones_fold_def)

lemma rfc1624_incremental: "incremental_update rfc1624"
  unfolding incremental_update_def
proof (intro allI)
  fix ck m m' :: u16
  let ?t = "(65535 - unat ck) + (65535 - unat m) + unat m'"
  have le: "unat ck \<le> 65535" "unat m \<le> 65535" using unat_u16_less [of ck] unat_u16_less [of m] by linarith+
  have "unat (rfc1624 ck m m') = 65535 - ones_fold ?t"
    unfolding rfc1624_def by (rule unat_word_of_nat_u16) simp
  then have "unat (rfc1624 ck m m') + ones_fold ?t = 65535" using ones_fold_le [of ?t] by linarith
  moreover have "?t + unat ck + unat m = unat m' + 65535 * 2" using le by simp
  ultimately have "unat (rfc1624 ck m m') + unat m' + 65535 * 1 =
      unat ck + unat m + 65535 * ((?t - 1) div 65535)"
    using ones_fold_split [of ?t] by linarith
  then show "(unat (rfc1624 ck m m') + unat m') mod 65535 = (unat ck + unat m) mod 65535"
    by (subst nat_mod_eq_iff) blast
qed

theorem rewrite_endpoint_atomic_witness:
  "\<exists>p. rewrite_endpoint rfc1624 sample_udp sample_udp_hdr Source (V4 172097538) (Some 33000) = Ok p \<and>
     length p = 28"
proof -
  have "\<nexists>e. rewrite_endpoint rfc1624 sample_udp sample_udp_hdr Source (V4 172097538) (Some 33000) =
      Err (e, sample_udp)"
    by (simp add: eval_simps sample_udp_def sample_udp_hdr_def rfc1624_def ones_fold_def)
  with rewrite_endpoint_atomic [OF parse_sample_udp, of rfc1624 Source "V4 172097538" "Some 33000"]
  show ?thesis by (auto simp: sample_udp_def)
qed

text \<open>
  C19.  A successful rewrite does what it says: the packet parses again to the same header with
  exactly that endpoint's address replaced, and for TCP and UDP the ports read back with exactly
  that side's port replaced.
\<close>

theorem rewrite_endpoint_reparse:
  assumes parsed: "parse_ip pkt = Ok hdr"
    and rew: "rewrite_endpoint inc pkt hdr side addr port = Ok p"
  shows "parse_ip p = Ok (set_endpoint side addr hdr) \<and>
    (\<forall>w. port = Some w \<and> ip_protocol hdr \<in> {PROTO_TCP, PROTO_UDP} \<longrightarrow>
       (\<exists>sd. read_ports pkt (ip_l4_offset hdr) = Ok sd \<and>
             read_ports p (ip_l4_offset hdr) = Ok (set_port side w sd)))"
proof -
  have pp: "parse pkt False = Ok hdr" using parsed by (simp add: parse_ip_def)
  note wf = parse_Ok(1) [OF pp]
  obtain ck_at pseudo pat where
    ready: "rewrite_ready pkt hdr side addr port ck_at pseudo pat" and
    p: "p = rewritten inc pkt hdr side addr port ck_at pseudo pat"
    using rewrite_endpoint_OkE [OF rew wf] .
  have "\<exists>sd. read_ports pkt (ip_l4_offset hdr) = Ok sd \<and>
      read_ports p (ip_l4_offset hdr) = Ok (set_port side w sd)"
    if "port = Some w" "ip_protocol hdr \<in> {PROTO_TCP, PROTO_UDP}" for w
  proof -
    have ni: "\<not> is_icmp (ip_protocol hdr)" using that(2) by (auto simp: is_icmp_def proto_defs)
    have "ip_l4_offset hdr + 4 \<le> length pkt"
      using ready ni wf by (fastforce simp: rewrite_ready_def hdr_wf_def dest: l4_checksum_Some(5))
    then show ?thesis
      using rewritten_read_ports [OF wf ready [unfolded that(1)] ni] by (simp add: p that(1) read_ports_Ok)
  qed
  moreover have "parse_ip p = Ok (set_endpoint side addr hdr)"
    using parse_rewritten [OF pp ready] by (simp add: p parse_ip_def)
  ultimately show ?thesis by blast
qed

theorem rewrite_endpoint_reparse_witness:
  "\<exists>p. parse_ip p = Ok (sample_udp_hdr\<lparr>ip_src := V4 172097538\<rparr>) \<and> read_ports p 20 = Ok (33000, 53)"
proof -
  obtain p where p: "rewrite_endpoint rfc1624 sample_udp sample_udp_hdr Source (V4 172097538) (Some 33000) = Ok p"
    by (simp add: eval_simps sample_udp_def sample_udp_hdr_def rfc1624_def ones_fold_def)
  have "read_ports sample_udp 20 = Ok (40000, 53)" by (simp add: eval_simps sample_udp_def)
  then show ?thesis using rewrite_endpoint_reparse [OF parse_sample_udp p]
    by (auto simp: sample_udp_hdr_def proto_defs set_endpoint_def set_port_def)
qed

text \<open>
  What a receiver checks: the IPv4 header and the transport segment with its pseudo-header (the
  addresses, the protocol and the length) each sum to zero in ones'-complement arithmetic.  A zero
  UDP checksum is not a sum: it means none was computed, which IPv4 allows and IPv6 forbids.
\<close>

definition receiver_accepts :: "ip_header \<Rightarrow> bytes \<Rightarrow> bool" where
  "receiver_accepts h p \<longleftrightarrow>
     (is_v6 h \<or> word_sum (take (ip_l4_offset h) p) mod 65535 = 0) \<and>
     (case l4_checksum (ip_protocol h) of
        None \<Rightarrow> True
      | Some (ck_at, pseudo, need) \<Rightarrow>
          if ip_protocol h = PROTO_UDP \<and> rd16 p (ip_l4_offset h + ck_at) = 0 then \<not> is_v6 h
          else (transport_sum pseudo h p +
                (if pseudo then unat (ip_protocol h) + (ip_total_len h - ip_l4_offset h) else 0))
               mod 65535 = 0)"

lemma receiver_accepts_known:
  assumes "l4_checksum (ip_protocol h) = Some (ck_at, pseudo, need)"
  shows "receiver_accepts h p \<longleftrightarrow>
    (is_v6 h \<or> word_sum (take (ip_l4_offset h) p) mod 65535 = 0) \<and>
    (if ip_protocol h = PROTO_UDP \<and> rd16 p (ip_l4_offset h + ck_at) = 0 then \<not> is_v6 h
     else (transport_sum pseudo h p +
           (if pseudo then unat (ip_protocol h) + (ip_total_len h - ip_l4_offset h) else 0))
          mod 65535 = 0)"
  using assms by (simp add: receiver_accepts_def)

lemma mod_shift: "(a :: nat) mod 65535 = b mod 65535 \<Longrightarrow> (a + c) mod 65535 = (b + c) mod 65535"
  by (metis mod_add_left_eq)


lemma be_bytes_numeral:
  "be_bytes (numeral k) v = be_bytes (pred_numeral k) (v div 256) @ [word_of_nat (v mod 256)]"
  by (simp only: numeral_eq_Suc [of k] be_bytes.simps)

lemmas receiver_eval = eval_simps receiver_accepts_def transport_sum_def be_bytes_numeral
  rfc1624_def ones_fold_def


text \<open>
  The exception happens: this IPv6 datagram from fd00::2 port 40000 has a correct checksum, and
  carries none after its source becomes fd00::3 port 58019.
\<close>

definition sample_udp6 :: bytes where
  "sample_udp6 = [0x60, 0, 0, 0, 0, 8, 17, 64, 0xfd, 0, 0, 0, 0, 0, 0, 0, 0, 0, 0, 0, 0, 0, 0, 2,
     0x20, 1, 0, 0, 0, 0, 0, 0, 0, 0, 0, 0, 0, 0, 0, 1, 0x9c, 0x40, 0, 53, 0, 8, 0x46, 0x64]"

definition sample_udp6_hdr :: ip_header where
  "sample_udp6_hdr = \<lparr>ip_src = v6_from [0xfd, 0, 0, 0, 0, 0, 0, 0, 0, 0, 0, 0, 0, 0, 0, 2],
     ip_dst = v6_from [0x20, 1, 0, 0, 0, 0, 0, 0, 0, 0, 0, 0, 0, 0, 0, 1],
     ip_protocol = 17, ip_l4_offset = 40, ip_total_len = 48\<rparr>"

lemma octets_v6_from: "length bs = 16 \<Longrightarrow> octets (v6_from bs) = bs"
  using octets_addr_from [of bs True] by (simp add: addr_from_def addr_len_def)

lemma is_ipv6_v6_from: "is_ipv6 (v6_from bs)"
  by (simp add: v6_from_def)

lemma udp6_checksum_lost:
  "parse_ip sample_udp6 = Ok sample_udp6_hdr \<and> receiver_accepts sample_udp6_hdr sample_udp6 \<and>
   (\<exists>p. rewrite_endpoint rfc1624 sample_udp6 sample_udp6_hdr Source
        (v6_from [0xfd, 0, 0, 0, 0, 0, 0, 0, 0, 0, 0, 0, 0, 0, 0, 3]) (Some 58019) = Ok p \<and>
      rd16 p 46 = 0)"
proof (intro conjI)
  show "parse_ip sample_udp6 = Ok sample_udp6_hdr"
    by (simp add: eval_simps sample_udp6_def sample_udp6_hdr_def del: v6_from_def)
  show "receiver_accepts sample_udp6_hdr sample_udp6"
    by (simp add: receiver_eval octets_v6_from is_ipv6_v6_from sample_udp6_def sample_udp6_hdr_def
        del: v6_from_def be_bytes_numeral)
  show "\<exists>p. rewrite_endpoint rfc1624 sample_udp6 sample_udp6_hdr Source
        (v6_from [0xfd, 0, 0, 0, 0, 0, 0, 0, 0, 0, 0, 0, 0, 0, 0, 3]) (Some 58019) = Ok p \<and>
      rd16 p 46 = 0"
    by (simp add: receiver_eval octets_v6_from is_ipv6_v6_from sample_udp6_def sample_udp6_hdr_def
        del: v6_from_def be_bytes_numeral)
qed

end
