(* ===== verification/Rate_Limit.thy ===== *)
theory Rate_Limit
  imports Ip "HOL-Library.AList"
begin

text \<open>
  \<open>warren-bolthole-core/src/ratelimit.rs\<close>: the token bucket of the gateway's own answers and the
  two generations of per-source handshake buckets.  Counts are \<open>u64\<close> values written as \<open>nat\<close> with
  the saturation of the code; an instant is a number of nanoseconds on the monotonic clock.  A hash
  map is an association list with distinct keys, of which only lookups and its size are used.
\<close>

section \<open>State and operations\<close>

definition HANDSHAKE_RATE_PER_IP :: u32 where "HANDSHAKE_RATE_PER_IP = 5"
definition HANDSHAKE_BURST_PER_IP :: u32 where "HANDSHAKE_BURST_PER_IP = 10"
definition HANDSHAKE_SOURCES_TRACKED :: nat where "HANDSHAKE_SOURCES_TRACKED = 4096"
definition ANSWER_RATE_PER_SECOND :: u32 where "ANSWER_RATE_PER_SECOND = 1000"
definition ANSWER_BURST :: u32 where "ANSWER_BURST = 1000"
definition SCALE :: nat where "SCALE = 1000"

definition U64_MAX :: nat where "U64_MAX = 18446744073709551615"

text \<open>\<open>u64::try_from(d.as_millis()).unwrap_or(u64::MAX)\<close>, \<open>saturating_mul\<close> and \<open>saturating_add\<close>.\<close>

definition as_millis :: "duration \<Rightarrow> nat" where
  "as_millis d = min (d div 1000000) U64_MAX"

definition saturating_mul :: "nat \<Rightarrow> nat \<Rightarrow> nat" where
  "saturating_mul a b = min (a * b) U64_MAX"

definition saturating_add :: "nat \<Rightarrow> nat \<Rightarrow> nat" where
  "saturating_add a b = min (a + b) U64_MAX"

record bucket =
  bk_tokens :: nat
  bk_last :: instant

record token_bucket =
  tb_rate :: nat
  tb_burst :: nat
  tb_tokens :: nat
  tb_last :: "instant option"

definition tb_new :: "u32 \<Rightarrow> u32 \<Rightarrow> token_bucket" where
  "tb_new rate burst =
     \<lparr>tb_rate = unat rate, tb_burst = unat burst * SCALE, tb_tokens = unat burst * SCALE, tb_last = None\<rparr>"

definition tb_admit :: "token_bucket \<Rightarrow> instant \<Rightarrow> token_bucket \<times> bool" where
  "tb_admit b now =
     (let last = (case tb_last b of None \<Rightarrow> now | Some t \<Rightarrow> t);
          b = b\<lparr>tb_last := Some last\<rparr>;
          millis = as_millis (now - last);
          refill = saturating_mul millis (tb_rate b);
          b = (if refill > 0
               then b\<lparr>tb_tokens := min (saturating_add (tb_tokens b) refill) (tb_burst b), tb_last := Some now\<rparr>
               else b)
      in if tb_tokens b < SCALE then (b, False)
         else (b\<lparr>tb_tokens := tb_tokens b - SCALE\<rparr>, True))"

type_synonym buckets = "(ip_addr \<times> bucket) list"

record handshake_buckets =
  hb_rate :: nat
  hb_burst :: nat
  hb_cap :: nat
  hb_current :: buckets
  hb_previous :: buckets

definition hb_with_limits :: "u32 \<Rightarrow> u32 \<Rightarrow> nat \<Rightarrow> handshake_buckets" where
  "hb_with_limits rate burst cap =
     \<lparr>hb_rate = unat rate, hb_burst = unat burst * SCALE, hb_cap = max cap 1, hb_current = [], hb_previous = []\<rparr>"

definition hb_new :: handshake_buckets where
  "hb_new = hb_with_limits HANDSHAKE_RATE_PER_IP HANDSHAKE_BURST_PER_IP HANDSHAKE_SOURCES_TRACKED"

text \<open>The bucket of a source, removed from the generation that held it.\<close>

definition hb_take :: "handshake_buckets \<Rightarrow> ip_addr \<Rightarrow> instant \<Rightarrow> bucket \<times> handshake_buckets" where
  "hb_take h source now =
     (case map_of (hb_current h) source of
        Some b \<Rightarrow> (b, h\<lparr>hb_current := AList.delete source (hb_current h)\<rparr>)
      | None \<Rightarrow>
          (case map_of (hb_previous h) source of
             Some b \<Rightarrow> (b, h\<lparr>hb_previous := AList.delete source (hb_previous h)\<rparr>)
           | None \<Rightarrow> (\<lparr>bk_tokens = hb_burst h, bk_last = now\<rparr>, h)))"

definition hb_refill :: "nat \<Rightarrow> nat \<Rightarrow> bucket \<Rightarrow> instant \<Rightarrow> bucket" where
  "hb_refill rate burst b now =
     (let millis = as_millis (now - bk_last b);
          refill = saturating_mul millis rate
      in if refill > 0
         then b\<lparr>bk_tokens := min (saturating_add (bk_tokens b) refill) burst, bk_last := now\<rparr>
         else b)"

definition hb_admit :: "handshake_buckets \<Rightarrow> ip_addr \<Rightarrow> instant \<Rightarrow> handshake_buckets \<times> bool" where
  "hb_admit h source now =
     (let (b, h) = hb_take h source now;
          b = hb_refill (hb_rate h) (hb_burst h) b now;
          admitted = (SCALE \<le> bk_tokens b);
          b = (if admitted then b\<lparr>bk_tokens := bk_tokens b - SCALE\<rparr> else b);
          h = (if hb_cap h \<le> length (hb_current h)
               then h\<lparr>hb_previous := hb_current h, hb_current := []\<rparr> else h)
      in (h\<lparr>hb_current := AList.update source b (hb_current h)\<rparr>, admitted))"

definition hb_clear :: "handshake_buckets \<Rightarrow> handshake_buckets" where
  "hb_clear h = h\<lparr>hb_current := [], hb_previous := []\<rparr>"

definition hb_tracked :: "handshake_buckets \<Rightarrow> nat" where
  "hb_tracked h = length (hb_current h) + length (hb_previous h)"

text \<open>Running a bucket over the instants at which it is asked: the admissions, in order.\<close>

fun tb_run :: "token_bucket \<Rightarrow> instant list \<Rightarrow> token_bucket \<times> bool list" where
  "tb_run b [] = (b, [])"
| "tb_run b (t # ts) =
     (let (b1, r) = tb_admit b t; (b2, rs) = tb_run b1 ts in (b2, r # rs))"

fun hb_run :: "handshake_buckets \<Rightarrow> (ip_addr \<times> instant) list \<Rightarrow> handshake_buckets \<times> bool list" where
  "hb_run h [] = (h, [])"
| "hb_run h ((s, t) # es) =
     (let (h1, r) = hb_admit h s t; (h2, rs) = hb_run h1 es in (h2, r # rs))"

section \<open>One bucket\<close>

text \<open>What an asked bucket did: how much it was refilled, and whether it paid.\<close>

lemma tb_admit_cases:
  assumes "tb_admit b now = (b', r)"
  defines "since \<equiv> (case tb_last b of None \<Rightarrow> now | Some t \<Rightarrow> t)"
  defines "gain \<equiv> saturating_mul (as_millis (now - since)) (tb_rate b)"
  defines "level \<equiv> (if 0 < gain then min (saturating_add (tb_tokens b) gain) (tb_burst b) else tb_tokens b)"
  shows "tb_rate b' = tb_rate b" and "tb_burst b' = tb_burst b"
    and "tb_last b' = Some (if 0 < gain then now else since)"
    and "r \<longleftrightarrow> SCALE \<le> level" and "tb_tokens b' = (if r then level - SCALE else level)"
  using assms by (auto simp: tb_admit_def Let_def split: if_splits)

lemma gain_le: "1000000 * saturating_mul (as_millis d) rate \<le> rate * d"
proof -
  have "1000000 * (as_millis d * rate) \<le> 1000000 * ((d div 1000000) * rate)"
    by (simp add: as_millis_def)
  also have "\<dots> = (1000000 * (d div 1000000)) * rate" by simp
  also have "\<dots> \<le> d * rate" by (rule mult_right_mono) simp_all
  finally have *: "1000000 * (as_millis d * rate) \<le> rate * d" by (simp only: mult.commute)
  have "saturating_mul (as_millis d) rate \<le> as_millis d * rate" by (simp add: saturating_mul_def)
  then have "1000000 * saturating_mul (as_millis d) rate \<le> 1000000 * (as_millis d * rate)"
    by (rule mult_left_mono) simp
  with * show ?thesis by linarith
qed

text \<open>
  The account of a run: what was spent and what is left never exceeds what was there and what the
  elapsed time bought.  Times are nanoseconds, so the account is kept in millionths of a token unit.
\<close>

lemma tb_step_account:
  assumes "tb_admit b now = (b', r)" and "tb_last b = Some t" and "t \<le> now"
  shows "\<exists>t'. tb_last b' = Some t' \<and> t \<le> t' \<and> t' \<le> now \<and>
    1000000 * (tb_tokens b' + (if r then SCALE else 0)) \<le> 1000000 * tb_tokens b + tb_rate b * (t' - t)"
proof -
  let ?g = "saturating_mul (as_millis (now - t)) (tb_rate b)"
  have last: "tb_last b' = Some (if 0 < ?g then now else t)"
    using tb_admit_cases(3) [OF assms(1)] by (simp add: assms(2))
  have "tb_tokens b' + (if r then SCALE else 0) \<le> tb_tokens b + ?g"
    using tb_admit_cases(4,5) [OF assms(1)] by (auto simp: assms(2) saturating_add_def)
  moreover have "1000000 * ?g \<le> tb_rate b * (now - t)" by (rule gain_le)
  moreover have "?g = 0 \<Longrightarrow> tb_tokens b' + (if r then SCALE else 0) \<le> tb_tokens b"
    using tb_admit_cases(4,5) [OF assms(1)] by (auto simp: assms(2))
  ultimately show ?thesis using last assms(3) by (cases "0 < ?g") auto
qed

definition admitted :: "bool list \<Rightarrow> nat" where
  "admitted rs = length (filter id rs)"

lemma admitted_simps [simp]: "admitted [] = 0" "admitted (r # rs) = (if r then 1 else 0) + admitted rs"
  by (simp_all add: admitted_def)

lemma account_chain:
  fixes a :: nat
  assumes "a \<le> b1 + x" and "x \<le> y" and "z + y = w" and "s = i + a" and "b1 + i \<le> b0 + z"
  shows "s \<le> b0 + w"
  using assms by linarith

lemma tb_run_account:
  assumes "tb_run b ts = (b', rs)" and "tb_last b = Some t" and "sorted (t # ts)"
  shows "1000000 * (SCALE * admitted rs) \<le> 1000000 * tb_tokens b + tb_rate b * (last (t # ts) - t)"
  using assms
proof (induction ts arbitrary: b t rs)
  case Nil
  then show ?case by simp
next
  case (Cons now ts)
  obtain b1 r where s: "tb_admit b now = (b1, r)" by (cases "tb_admit b now")
  obtain rs' where run: "tb_run b1 ts = (b', rs')" and rs: "rs = r # rs'"
    using Cons.prems(1) s by (auto split: prod.splits)
  obtain t' where t': "tb_last b1 = Some t'" "t \<le> t'" "t' \<le> now"
      "1000000 * (tb_tokens b1 + (if r then SCALE else 0)) \<le> 1000000 * tb_tokens b + tb_rate b * (t' - t)"
    using tb_step_account [OF s Cons.prems(2)] Cons.prems(3) by auto
  let ?e = "last (t' # now # ts)"
  have "sorted (t' # ts)" using Cons.prems(3) t'(3) by (cases ts) auto
  from Cons.IH [OF run t'(1) this] have
    "1000000 * (SCALE * admitted rs') \<le> 1000000 * tb_tokens b1 + tb_rate b1 * (last (t' # ts) - t')" .
  moreover have "last (t' # ts) \<le> ?e" using t'(3) by (cases ts) auto
  then have "tb_rate b1 * (last (t' # ts) - t') \<le> tb_rate b * (?e - t')"
    using tb_admit_cases(1) [OF s] by (simp add: diff_le_mono)
  moreover have "t' \<le> ?e"
    using Cons.prems(3) t'(3) by (cases ts) (auto intro: order_trans [OF _ sorted_simps(2) [THEN iffD1, THEN conjunct1, rule_format]])
  then have "tb_rate b * (t' - t) + tb_rate b * (?e - t') = tb_rate b * (?e - t)"
    using t'(2) by (simp flip: distrib_left)
  moreover have "1000000 * (SCALE * admitted rs) = 1000000 * (if r then SCALE else 0) + 1000000 * (SCALE * admitted rs')"
    by (simp add: rs)
  ultimately have "1000000 * (SCALE * admitted rs) \<le> 1000000 * tb_tokens b + tb_rate b * (?e - t)"
    by (rule account_chain [OF _ _ _ _ t'(4) [unfolded distrib_left]])
  then show ?case by simp
qed

lemma tb_first: "tb_last b = None \<Longrightarrow> tb_admit b now = tb_admit (b\<lparr>tb_last := Some now\<rparr>) now"
  by (simp add: tb_admit_def Let_def)

lemma tb_run_first: "tb_last b = None \<Longrightarrow> tb_run b (t # ts) = tb_run (b\<lparr>tb_last := Some t\<rparr>) (t # ts)"
  by (simp add: tb_first)

section \<open>The per-source buckets\<close>

lemma hb_admit_shape:
  assumes "hb_admit h s now = (h', r)"
  shows "hb_rate h' = hb_rate h" "hb_burst h' = hb_burst h" "hb_cap h' = hb_cap h"
  using assms by (auto simp: hb_admit_def hb_take_def Let_def split: option.splits if_splits prod.splits)

lemma length_delete_le: "length (AList.delete k xs) \<le> length xs"
  by (simp add: AList.delete_eq)

lemma length_update_le: "length (AList.update k v xs) \<le> Suc (length xs)"
  by (induction xs) auto

text \<open>No generation outgrows the cap.\<close>

definition hb_bounded :: "handshake_buckets \<Rightarrow> bool" where
  "hb_bounded h \<longleftrightarrow> 1 \<le> hb_cap h \<and> length (hb_current h) \<le> hb_cap h \<and> length (hb_previous h) \<le> hb_cap h"

lemma hb_take_bounded:
  assumes "hb_take h s now = (b, h')" and "hb_bounded h"
  shows "hb_bounded h'"
  using assms length_delete_le [of s "hb_current h"] length_delete_le [of s "hb_previous h"]
  by (auto simp: hb_take_def hb_bounded_def split: option.splits)

lemma hb_admit_bounded:
  assumes "hb_bounded h" shows "hb_bounded (fst (hb_admit h s now))"
proof -
  obtain b h1 where t: "hb_take h s now = (b, h1)" by (cases "hb_take h s now")
  have "hb_bounded h1" by (rule hb_take_bounded [OF t assms])
  moreover have "length (AList.update s x (hb_current h1)) \<le> hb_cap h1" if "length (hb_current h1) < hb_cap h1" for x
    using length_update_le [of s x "hb_current h1"] that by simp
  ultimately show ?thesis
    by (auto simp: hb_admit_def t Let_def hb_bounded_def)
qed

lemma hb_run_bounded: "hb_bounded h \<Longrightarrow> hb_bounded (fst (hb_run h es))"
proof (induction es arbitrary: h)
  case (Cons e es)
  obtain s t where e: "e = (s, t)" by (cases e)
  then show ?case using Cons.IH [of "fst (hb_admit h s t)"] hb_admit_bounded [OF Cons.prems, of s t]
    by (cases "hb_admit h s t") (simp add: case_prod_beta)
qed simp

text \<open>
  The contract: one \<open>TokenBucket\<close> per source, created full at its first handshake.  As long as no
  more sources than the cap are seen no generation is dropped, and the two generations answer as
  this map does.
\<close>

fun spec_run :: "(ip_addr \<Rightarrow> token_bucket) \<Rightarrow> (ip_addr \<times> instant) list \<Rightarrow> bool list" where
  "spec_run m [] = []"
| "spec_run m ((s, t) # es) = (let (b, r) = tb_admit (m s) t in r # spec_run (m(s := b)) es)"

definition hb_abs :: "handshake_buckets \<Rightarrow> ip_addr \<Rightarrow> token_bucket" where
  "hb_abs h s =
     (case map_of (hb_current h) s of
        None \<Rightarrow> \<lparr>tb_rate = hb_rate h, tb_burst = hb_burst h, tb_tokens = hb_burst h, tb_last = None\<rparr>
      | Some b \<Rightarrow> \<lparr>tb_rate = hb_rate h, tb_burst = hb_burst h, tb_tokens = bk_tokens b, tb_last = Some (bk_last b)\<rparr>)"

definition hb_within :: "ip_addr set \<Rightarrow> handshake_buckets \<Rightarrow> bool" where
  "hb_within S h \<longleftrightarrow> finite S \<and> card S \<le> hb_cap h \<and> hb_previous h = [] \<and>
     distinct (map fst (hb_current h)) \<and> fst ` set (hb_current h) \<subseteq> S"

lemma hb_room:
  assumes "hb_within S h" and "s \<in> S"
  shows "length (AList.delete s (hb_current h)) < hb_cap h"
proof -
  let ?d = "AList.delete s (hb_current h)"
  have "distinct (map fst ?d)" using assms(1) by (simp add: hb_within_def distinct_delete)
  then have "length ?d = card (fst ` set ?d)" by (metis distinct_card length_map set_map)
  moreover have "fst ` set ?d \<subseteq> S - {s}" using assms(1) by (auto simp: hb_within_def AList.delete_eq)
  moreover have "finite S" using assms(1) by (simp add: hb_within_def)
  moreover have "0 < card S" using assms(2) \<open>finite S\<close> card_gt_0_iff by blast
  ultimately have "length ?d \<le> card S - 1"
    using assms(2) by (metis card_Diff_singleton card_mono finite_Diff)
  moreover have "card S \<le> hb_cap h" using assms(1) by (simp add: hb_within_def)
  ultimately show ?thesis using \<open>0 < card S\<close> by linarith
qed

definition as_tb :: "nat \<Rightarrow> nat \<Rightarrow> bucket \<Rightarrow> token_bucket" where
  "as_tb rate burst b = \<lparr>tb_rate = rate, tb_burst = burst, tb_tokens = bk_tokens b, tb_last = Some (bk_last b)\<rparr>"

lemma tb_admit_as_tb:
  fixes rate burst now :: nat and b :: bucket
  defines "f \<equiv> hb_refill rate burst b now"
  shows "tb_admit (as_tb rate burst b) now =
    (as_tb rate burst (if SCALE \<le> bk_tokens f then f\<lparr>bk_tokens := bk_tokens f - SCALE\<rparr> else f), SCALE \<le> bk_tokens f)"
  unfolding f_def tb_admit_def as_tb_def hb_refill_def Let_def
  by (cases "0 < saturating_mul (as_millis (now - bk_last b)) rate") (simp_all add: not_le del: min_less_iff_disj min.bounded_iff)

lemma hb_abs_alt: "hb_abs h s =
   (case map_of (hb_current h) s of
      None \<Rightarrow> (as_tb (hb_rate h) (hb_burst h) \<lparr>bk_tokens = hb_burst h, bk_last = 0\<rparr>)\<lparr>tb_last := None\<rparr>
    | Some b \<Rightarrow> as_tb (hb_rate h) (hb_burst h) b)"
  by (simp add: hb_abs_def as_tb_def split: option.splits)

lemma tb_admit_hb_abs:
  assumes "hb_previous h = []"
  shows "tb_admit (hb_abs h s) now = tb_admit (as_tb (hb_rate h) (hb_burst h) (fst (hb_take h s now))) now"
    and "snd (hb_take h s now) = h\<lparr>hb_current := AList.delete s (hb_current h)\<rparr>"
proof -
  have del: "AList.delete s (hb_current h) = hb_current h" if "map_of (hb_current h) s = None"
    using that by (simp add: delete_idem map_of_eq_None_iff)
  show "tb_admit (hb_abs h s) now = tb_admit (as_tb (hb_rate h) (hb_burst h) (fst (hb_take h s now))) now"
  proof (cases "map_of (hb_current h) s")
    case None
    then show ?thesis
      using assms by (subst tb_first) (simp_all add: hb_abs_alt hb_take_def as_tb_def)
  next
    case (Some b)
    then show ?thesis by (simp add: hb_abs_alt hb_take_def)
  qed
  show "snd (hb_take h s now) = h\<lparr>hb_current := AList.delete s (hb_current h)\<rparr>"
    using assms del by (auto simp: hb_take_def split: option.splits)
qed

lemma hb_admit_within:
  assumes w: "hb_within S h" and s: "s \<in> S"
  shows "\<exists>b'. hb_admit h s now =
      (h\<lparr>hb_current := AList.update s b' (AList.delete s (hb_current h))\<rparr>, snd (tb_admit (hb_abs h s) now)) \<and>
    fst (tb_admit (hb_abs h s) now) = as_tb (hb_rate h) (hb_burst h) b'"
proof -
  have room: "\<not> hb_cap h \<le> length (AList.delete s (hb_current h))" using hb_room [OF w s] by simp
  have prev: "hb_previous h = []" using w by (simp add: hb_within_def)
  note t = tb_admit_hb_abs [OF prev, of s now]
  obtain b where take: "hb_take h s now = (b, h\<lparr>hb_current := AList.delete s (hb_current h)\<rparr>)"
    using t(2) by (cases "hb_take h s now") simp
  show ?thesis
    unfolding t(1) using room
    by (simp add: take hb_admit_def tb_admit_as_tb Let_def)
      (rule exI conjI refl impI)+
qed

lemma hb_admit_refines:
  assumes w: "hb_within S h" and s: "s \<in> S" and a: "hb_admit h s now = (h', r)"
  shows "hb_within S h'" and "tb_admit (hb_abs h s) now = (hb_abs h' s, r)"
    and "hb_abs h' = (hb_abs h)(s := hb_abs h' s)"
proof -
  obtain b' where b': "h' = h\<lparr>hb_current := AList.update s b' (AList.delete s (hb_current h))\<rparr>"
      "r = snd (tb_admit (hb_abs h s) now)" "fst (tb_admit (hb_abs h s) now) = as_tb (hb_rate h) (hb_burst h) b'"
    using hb_admit_within [OF w s, of now] a by auto
  have "fst ` set (AList.delete s (hb_current h)) \<subseteq> fst ` set (hb_current h)" by (auto simp: AList.delete_eq)
  then show "hb_within S h'"
    using w s distinct_update [OF distinct_delete [of "hb_current h" s], of s b']
      dom_update [of s b' "AList.delete s (hb_current h)"]
    by (simp add: hb_within_def b'(1)) blast
  show "tb_admit (hb_abs h s) now = (hb_abs h' s, r)"
    using b' by (simp add: hb_abs_alt update_conv' prod_eq_iff)
  show "hb_abs h' = (hb_abs h)(s := hb_abs h' s)"
    by (rule ext) (simp add: hb_abs_def b'(1) update_conv' delete_conv' split: option.split)
qed

lemma hb_run_refines:
  assumes "hb_within S h" and "fst ` set es \<subseteq> S"
  shows "snd (hb_run h es) = spec_run (hb_abs h) es"
  using assms
proof (induction es arbitrary: h)
  case (Cons e es)
  obtain s t where e: "e = (s, t)" by (cases e)
  obtain h' r where a: "hb_admit h s t = (h', r)" by (cases "hb_admit h s t")
  have s: "s \<in> S" using Cons.prems(2) e by simp
  note ref = hb_admit_refines [OF Cons.prems(1) s a]
  have "snd (hb_run h' es) = spec_run (hb_abs h') es"
    by (rule Cons.IH [OF ref(1)]) (use Cons.prems(2) in simp)
  then show ?case using e a ref(2,3) by (simp add: case_prod_beta)
qed simp

lemma hb_with_limits_facts:
  "hb_abs (hb_with_limits rate burst cap) = (\<lambda>_. tb_new rate burst)"
  "hb_bounded (hb_with_limits rate burst cap)"
  "finite S \<Longrightarrow> card S \<le> cap \<Longrightarrow> hb_within S (hb_with_limits rate burst cap)"
  by (auto simp: fun_eq_iff hb_abs_def hb_with_limits_def tb_new_def hb_bounded_def hb_within_def)

lemma tb_run_tokens:
  assumes "tb_tokens b \<le> tb_burst b" and "tb_run b ts = (b', rs)"
  shows "tb_tokens b' \<le> tb_burst b'" and "tb_rate b' = tb_rate b" and "tb_burst b' = tb_burst b"
proof -
  have "tb_tokens b' \<le> tb_burst b' \<and> tb_rate b' = tb_rate b \<and> tb_burst b' = tb_burst b"
    using assms
  proof (induction ts arbitrary: b rs)
    case (Cons t ts)
    obtain b1 r where a: "tb_admit b t = (b1, r)" by (cases "tb_admit b t")
    note c = tb_admit_cases [OF a]
    have "tb_tokens b1 \<le> tb_burst b1" using c(2,5) Cons.prems(1) by (auto split: if_splits)
    then show ?case using Cons.IH [of b1] Cons.prems(2) a c(1,2) by (auto split: prod.splits)
  qed simp
  then show "tb_tokens b' \<le> tb_burst b'" "tb_rate b' = tb_rate b" "tb_burst b' = tb_burst b" by simp_all
qed

lemma tb_run_last:
  assumes "tb_run b ts = (b', rs)" and "ts \<noteq> []" and "sorted ts" and "\<forall>t. tb_last b = Some t \<longrightarrow> t \<le> hd ts"
  shows "\<exists>t. tb_last b' = Some t \<and> t \<le> last ts"
  using assms
proof (induction ts arbitrary: b rs)
  case (Cons now ts)
  obtain b1 r where a: "tb_admit b now = (b1, r)" by (cases "tb_admit b now")
  obtain rs' where run: "tb_run b1 ts = (b', rs')" using Cons.prems(1) a by (auto split: prod.splits)
  have l: "\<exists>t. tb_last b1 = Some t \<and> t \<le> now"
    using tb_admit_cases(3) [OF a] Cons.prems(4) by (auto split: option.splits)
  show ?case
  proof (cases "ts = []")
    case True
    then show ?thesis using run l by simp
  next
    case False
    then have "now \<le> hd ts" using Cons.prems(3) by (cases ts) auto
    moreover obtain t where t: "tb_last b1 = Some t" "t \<le> now" using l by blast
    ultimately have "t \<le> hd ts" by linarith
    then show ?thesis using Cons.IH [OF run False] Cons.prems(3) t(1) False by simp
  qed
qed simp

lemmas [eval_simps] = tb_admit_def tb_new_def hb_admit_def hb_take_def hb_refill_def hb_with_limits_def
  as_millis_def saturating_mul_def saturating_add_def SCALE_def U64_MAX_def

section \<open>Properties\<close>

text \<open>
  C23.  A token bucket of \<open>rate\<close> a second and \<open>burst\<close> at once, asked at any instants in order,
  admits at most \<open>burst\<close> plus what \<open>rate\<close> a second buys over the elapsed time.
\<close>

theorem token_bucket_rate:
  assumes "sorted ts" and "ts \<noteq> []"
  shows "10 ^ 9 * admitted (snd (tb_run (tb_new rate burst) ts)) \<le> 10 ^ 9 * unat burst + unat rate * (last ts - hd ts)"
proof -
  obtain t ts' where ts: "ts = t # ts'" using assms(2) by (cases ts) auto
  let ?b = "(tb_new rate burst)\<lparr>tb_last := Some t\<rparr>"
  obtain b' rs where run: "tb_run ?b ts = (b', rs)" by (cases "tb_run ?b ts")
  have "tb_run (tb_new rate burst) ts = (b', rs)"
    using run tb_run_first [of "tb_new rate burst" t ts'] by (simp add: ts tb_new_def)
  then have "1000000 * (SCALE * admitted (snd (tb_run (tb_new rate burst) ts))) \<le>
      1000000 * tb_tokens ?b + tb_rate ?b * (last (t # ts) - t)"
    using tb_run_account [OF run, of t] assms(1) by (simp add: ts)
  moreover have "last (t # ts) = last ts" "hd ts = t" by (simp_all add: ts)
  ultimately show ?thesis by (simp add: tb_new_def SCALE_def)
qed

theorem token_bucket_rate_witness:
  "snd (tb_run (tb_new 5 2) [0, 0, 0, 200000000]) = [True, True, False, True] \<and>
   (10 :: nat) ^ 9 * 3 \<le> 10 ^ 9 * 2 + 5 * 200000000"
proof
  show r: "snd (tb_run (tb_new 5 2) [0, 0, 0, 200000000]) = [True, True, False, True]" by (simp add: eval_simps)
  show "(10 :: nat) ^ 9 * 3 \<le> 10 ^ 9 * 2 + 5 * 200000000"
    using token_bucket_rate [of "[0, 0, 0, 200000000]" 5 2] unfolding r by simp
qed

text \<open>
  C24.  No source is shut out for good: however a bucket was used before, a call that comes once the
  elapsed time buys a token since the last call is admitted.
\<close>

theorem token_bucket_recovers:
  assumes "sorted (ts @ [now])" and "ts \<noteq> []" and "1 \<le> burst" and "1000 \<le> unat rate * ((now - last ts) div 1000000)"
  shows "snd (tb_admit (fst (tb_run (tb_new rate burst) ts)) now)"
proof -
  obtain b rs where run: "tb_run (tb_new rate burst) ts = (b, rs)" by (cases "tb_run (tb_new rate burst) ts")
  have "tb_tokens (tb_new rate burst) \<le> tb_burst (tb_new rate burst)" by (simp add: tb_new_def)
  note shape = tb_run_tokens [OF this run]
  have "sorted ts" using assms(1) by (simp add: sorted_append)
  then obtain t where t: "tb_last b = Some t" "t \<le> last ts"
    using tb_run_last [OF run assms(2)] by (auto simp: tb_new_def)
  have "(now - last ts) div 1000000 \<le> (now - t) div 1000000" using t(2) by (intro div_le_mono) simp
  then have "1000 \<le> unat rate * ((now - t) div 1000000)"
    using assms(4) mult_le_mono2 le_trans by blast
  then have g: "1000 \<le> saturating_mul (as_millis (now - t)) (unat rate)"
    by (cases "unat rate = 0")
      (auto simp: saturating_mul_def as_millis_def U64_MAX_def min_def mult.commute not_le split: if_splits)
  have "1 \<le> unat burst" using assms(3) by (simp add: word_le_nat_alt)
  then have "1000 \<le> tb_burst b" using shape by (simp add: tb_new_def SCALE_def)
  moreover obtain b' r where a: "tb_admit b now = (b', r)" by (cases "tb_admit b now")
  moreover have "tb_rate b = unat rate" using shape by (simp add: tb_new_def)
  ultimately have r using tb_admit_cases(4) [OF a] t g
    by (simp add: SCALE_def saturating_add_def U64_MAX_def)
  with a run show ?thesis by simp
qed

theorem token_bucket_recovers_witness:
  "snd (tb_admit (fst (tb_run (tb_new 5 1) [0, 0, 7])) 200000007)"
  by (rule token_bucket_recovers) simp_all

text \<open>
  C25.  The memory of the handshake limiter is bounded: whatever source addresses are forged, it
  never holds more than twice its cap of buckets.
\<close>

theorem handshake_memory_bounded:
  "hb_tracked (fst (hb_run (hb_with_limits rate burst cap) es)) \<le> 2 * max cap 1"
proof -
  have cap: "hb_cap (fst (hb_run h es)) = hb_cap h" for h
  proof (induction es arbitrary: h)
    case (Cons e es)
    then show ?case by (cases e) (auto simp: case_prod_beta hb_admit_shape(3) [OF prod.collapse [symmetric]])
  qed simp
  have "hb_bounded (fst (hb_run (hb_with_limits rate burst cap) es))"
    by (rule hb_run_bounded [OF hb_with_limits_facts(2)])
  then show ?thesis by (simp add: hb_bounded_def hb_tracked_def cap) (simp add: hb_with_limits_def)
qed

text \<open>
  C26.  As long as no more sources than the cap are seen, the two generations behave as one token
  bucket per source: no source spends another's budget, and none is forgotten.
\<close>

theorem handshake_per_source:
  assumes "card (fst ` set es) \<le> cap"
  shows "snd (hb_run (hb_with_limits rate burst cap) es) = spec_run (\<lambda>_. tb_new rate burst) es"
  using hb_run_refines [OF hb_with_limits_facts(3) [OF _ assms], of es] by (simp add: hb_with_limits_facts(1))

theorem handshake_per_source_witness:
  "snd (hb_run (hb_with_limits 5 1 2) [(V4 1, 0), (V4 2, 0), (V4 1, 1)]) = [True, True, False]"
  using handshake_per_source [of "[(V4 1, 0), (V4 2, 0), (V4 1, 1)]" 2 5 1] by (simp add: eval_simps)

end
