(* ===== verification/Session_Index.thy ===== *)
theory Session_Index
  imports Prelude
begin

text \<open>
  \<open>warren-bolthole-core/src/index.rs\<close>: the 24-bit linear-feedback register that numbers the
  peers.  The loop of \<open>next\<close> is a \<open>partial_function\<close>, so not returning would be the value
  \<open>None\<close>; the two seeds come from the operating system and are arguments.
\<close>

section \<open>State and operations\<close>

unbundle bit_operations_syntax

definition MAX_INDEX :: u32 where "MAX_INDEX = 0x00ffffff"
definition LFSR_POLY :: u32 where "LFSR_POLY = 0x00d80000"

record index_gen =
  ig_initial :: u32
  ig_lfsr :: u32
  ig_mask :: u32
  ig_exhausted :: bool

definition from_seed :: "u32 \<Rightarrow> u32 \<Rightarrow> index_gen" where
  "from_seed seed msk =
     (let seed = (if seed AND MAX_INDEX = 0 then 1 else seed AND MAX_INDEX)
      in \<lparr>ig_initial = seed, ig_lfsr = seed, ig_mask = msk AND MAX_INDEX, ig_exhausted = False\<rparr>)"

text \<open>\<open>(lfsr >> 1) ^ ((0u32.wrapping_sub(lfsr & 1)) & LFSR_POLY)\<close>.\<close>

definition lfsr_step :: "u32 \<Rightarrow> u32" where
  "lfsr_step x = drop_bit 1 x XOR ((0 - (x AND 1)) AND LFSR_POLY)"

text \<open>One turn of the loop: the advanced generator and the value before the mask is applied.\<close>

definition index_turn :: "index_gen \<Rightarrow> index_gen \<times> u32" where
  "index_turn g =
     (let v = ig_lfsr g - 1;
          g = g\<lparr>ig_lfsr := lfsr_step (ig_lfsr g)\<rparr>;
          g = (if ig_lfsr g = ig_initial g then g\<lparr>ig_exhausted := True\<rparr> else g)
      in (g, v XOR ig_mask g))"

partial_function (option) next_index :: "index_gen \<Rightarrow> (index_gen \<times> u32 option) option" where
  "next_index g =
     (if ig_exhausted g then Some (g, None)
      else let (g', index) = index_turn g in
        if index \<noteq> 0 then Some (g', Some index) else next_index g')"

section \<open>The register\<close>

lemma lfsr_step_alt: "lfsr_step x = (if odd x then drop_bit 1 x XOR LFSR_POLY else drop_bit 1 x)"
proof (cases "odd x")
  case True
  then have "x AND 1 = 1" by (simp add: and_one_eq odd_iff_mod_2_eq_one)
  then show ?thesis using True by (simp add: lfsr_step_def)
next
  case False
  then have "x AND 1 = 0" by (simp add: and_one_eq even_iff_mod_2_eq_zero)
  then show ?thesis using False by (simp add: lfsr_step_def)
qed

lemma bit_lfsr_poly: "bit LFSR_POLY n \<longleftrightarrow> n = 19 \<or> n = 20 \<or> n = 22 \<or> n = 23"
proof (cases "n < 32")
  case True
  then show ?thesis
    unfolding LFSR_POLY_def by (auto simp: less_Suc_eq numeral_eq_Suc)
qed (auto dest: bit_imp_le_length)

text \<open>The register's states: 24-bit words other than zero.\<close>

definition is24 :: "u32 \<Rightarrow> bool" where
  "is24 x \<longleftrightarrow> (\<forall>n\<ge>24. \<not> bit x n)"

lemma bit_lfsr_step: "bit (lfsr_step x) n \<longleftrightarrow> bit x (Suc n) \<noteq> (odd x \<and> bit LFSR_POLY n)"
  by (auto simp: lfsr_step_alt bit_xor_iff bit_drop_bit_eq)

lemma lfsr_step_is24: "is24 x \<Longrightarrow> is24 (lfsr_step x)"
  by (auto simp: is24_def bit_lfsr_step bit_lfsr_poly)

lemma lfsr_step_top: "is24 x \<Longrightarrow> bit (lfsr_step x) 23 \<longleftrightarrow> odd x"
  by (auto simp: is24_def bit_lfsr_step bit_lfsr_poly)

lemma bit_Suc_eqI:
  fixes x y :: u32
  assumes "odd x = odd y" and "\<And>n. bit x (Suc n) = bit y (Suc n)"
  shows "x = y"
proof (rule bit_word_eqI)
  fix n show "bit x n = bit y n" using assms by (cases n) (simp_all add: bit_0)
qed

lemma lfsr_step_inj:
  assumes "is24 x" and "is24 y" and "lfsr_step x = lfsr_step y"
  shows "x = y"
proof (rule bit_Suc_eqI)
  show o: "odd x = odd y" using assms lfsr_step_top by metis
  fix n
  have "bit (lfsr_step x) n = bit (lfsr_step y) n" using assms(3) by simp
  then show "bit x (Suc n) = bit y (Suc n)" using o by (auto simp: bit_lfsr_step)
qed

lemma lfsr_step_zero [simp]: "lfsr_step 0 = 0"
  by (simp add: lfsr_step_alt)

lemma lfsr_step_nonzero: "is24 x \<Longrightarrow> x \<noteq> 0 \<Longrightarrow> lfsr_step x \<noteq> 0"
  using lfsr_step_inj [of x 0] by (auto simp: is24_def)

lemma lfsr_step_moves:
  assumes "is24 x" and "x \<noteq> 0"
  shows "lfsr_step x \<noteq> x"
proof
  assume eq: "lfsr_step x = x"
  have b: "bit x n \<longleftrightarrow> bit x (Suc n) \<noteq> (odd x \<and> bit LFSR_POLY n)" for n
    using bit_lfsr_step [of x n] unfolding eq .
  show False
  proof (cases "odd x")
    case True
    have "\<not> bit x 24" using assms(1) by (simp add: is24_def)
    then have "bit x 23" "\<not> bit x 22" "\<not> bit x 21" "bit x 20" "\<not> bit x 19"
      using b [of 23] b [of 22] b [of 21] b [of 20] b [of 19] True by (auto simp: bit_lfsr_poly)
    moreover have "n \<le> 19 \<Longrightarrow> \<not> bit x (19 - n)" for n
    proof (induction n)
      case (Suc n)
      then have "Suc (19 - Suc n) = 19 - n" by simp
      then show ?case using Suc b [of "19 - Suc n"] by (auto simp: bit_lfsr_poly)
    qed (use calculation in simp)
    from this [of 19] True show False by (simp add: bit_0)
  next
    case False
    have "n \<le> 24 \<Longrightarrow> \<not> bit x (24 - n)" for n
    proof (induction n)
      case (Suc n)
      then have "Suc (24 - Suc n) = 24 - n" by simp
      then show ?case using Suc b [of "24 - Suc n"] False by auto
    qed (use assms(1) in \<open>simp add: is24_def\<close>)
    then have "\<not> bit x n" for n
      using assms(1) is24_def by (cases "n \<le> 24") (metis diff_diff_cancel diff_le_self, simp)
    then show False using assms(2) by (simp add: bit_eq_iff)
  qed
qed

section \<open>The loop ends\<close>

definition ig_inv :: "index_gen \<Rightarrow> bool" where
  "ig_inv g \<longleftrightarrow> is24 (ig_lfsr g) \<and> ig_lfsr g \<noteq> 0 \<and> is24 (ig_initial g) \<and> ig_initial g \<noteq> 0 \<and> is24 (ig_mask g)"

lemma is24_and: "is24 (x AND MAX_INDEX)"
proof -
  have "\<not> bit MAX_INDEX n" if "24 \<le> n" for n
  proof -
    have "MAX_INDEX = mask 24" by (simp add: MAX_INDEX_def mask_eq_exp_minus_1)
    then have "bit MAX_INDEX n = bit (mask 24 :: u32) n" by (simp only:)
    then show ?thesis unfolding bit_mask_iff using that by simp
  qed
  then show ?thesis by (simp add: is24_def bit_and_iff)
qed

lemma from_seed_inv: "ig_inv (from_seed seed m)"
  using is24_and by (auto simp: ig_inv_def from_seed_def Let_def is24_def bit_1_iff)

lemma index_turn_inv: "ig_inv g \<Longrightarrow> ig_inv (fst (index_turn g))"
  using lfsr_step_is24 lfsr_step_nonzero by (auto simp: ig_inv_def index_turn_def Let_def)

lemma index_turn_lfsr:
  "ig_lfsr (fst (index_turn g)) = lfsr_step (ig_lfsr g)" "ig_mask (fst (index_turn g)) = ig_mask g"
  "ig_initial (fst (index_turn g)) = ig_initial g" "snd (index_turn g) = (ig_lfsr g - 1) XOR ig_mask g"
  "ig_exhausted (fst (index_turn g)) \<longleftrightarrow> ig_exhausted g \<or> lfsr_step (ig_lfsr g) = ig_initial g"
  by (auto simp: index_turn_def Let_def)

lemma xor_zero_iff: "(x :: u32) XOR y = 0 \<longleftrightarrow> x = y"
  by (auto simp: bit_eq_iff bit_xor_iff)

text \<open>The value zero is skipped at most once: the register moves on every turn.\<close>

lemma next_index_cases:
  assumes "ig_inv g"
  shows "next_index g =
    (if ig_exhausted g then Some (g, None)
     else let (g1, i) = index_turn g in
       if i \<noteq> 0 then Some (g1, Some i)
       else if ig_exhausted g1 then Some (g1, None)
       else let (g2, j) = index_turn g1 in Some (g2, Some j))"
proof -
  let ?g1 = "fst (index_turn g)"
  have "snd (index_turn ?g1) \<noteq> 0" if "snd (index_turn g) = 0"
  proof
    assume "snd (index_turn ?g1) = 0"
    with that have "lfsr_step (ig_lfsr g) - 1 = ig_lfsr g - 1" by (simp add: index_turn_lfsr xor_zero_iff)
    then have "lfsr_step (ig_lfsr g) = ig_lfsr g" by (metis diff_add_cancel)
    then show False using assms lfsr_step_moves [of "ig_lfsr g"] by (simp add: ig_inv_def)
  qed
  then show ?thesis
    by (subst next_index.simps) (auto simp: Let_def case_prod_beta next_index.simps [of ?g1])
qed

section \<open>The sequence\<close>

text \<open>
  The states a seed walks through, the number of turns until it comes back (the period), and the
  index a state gives.
\<close>

definition walk :: "u32 \<Rightarrow> nat \<Rightarrow> u32" where
  "walk s n = (lfsr_step ^^ n) s"

definition period :: "u32 \<Rightarrow> nat" where
  "period s = (LEAST n. 0 < n \<and> walk s n = s)"

definition index_of :: "u32 \<Rightarrow> u32 \<Rightarrow> u32" where
  "index_of m x = (x - 1) XOR m"

lemma walk_Suc: "walk s (Suc n) = lfsr_step (walk s n)"
  by (simp add: walk_def)

lemma walk_add: "walk s (m + n) = walk (walk s m) n"
  by (simp add: walk_def funpow_add add.commute [of m])

lemma walk_state: "is24 s \<Longrightarrow> s \<noteq> 0 \<Longrightarrow> is24 (walk s n) \<and> walk s n \<noteq> 0"
  by (induction n) (simp_all add: walk_Suc lfsr_step_is24 lfsr_step_nonzero, simp_all add: walk_def)

lemma walk_cancel:
  assumes "is24 s" "s \<noteq> 0" "is24 t" "t \<noteq> 0"
  shows "walk s n = walk t n \<Longrightarrow> s = t"
proof (induction n)
  case (Suc n)
  then show ?case using lfsr_step_inj [of "walk s n" "walk t n"] walk_state assms by (auto simp: walk_Suc)
qed (simp add: walk_def)

lemma walk_returns:
  assumes "is24 s" "s \<noteq> 0"
  shows "\<exists>n>0. walk s n = s"
proof -
  have "finite (range (walk s))" by (rule finite_subset [OF subset_UNIV]) simp
  then have "\<not> inj (walk s)" using finite_imageD infinite_UNIV_nat by blast
  then obtain i j where ij: "i < j" "walk s i = walk s j"
    by (metis injI linorder_neqE_nat)
  then have "walk s i = walk (walk s (j - i)) i" by (simp flip: walk_add)
  then have "s = walk s (j - i)"
    using walk_cancel [of s "walk s (j - i)" i] walk_state assms by blast
  then show ?thesis using ij(1) by (metis zero_less_diff)
qed

lemma period_facts:
  assumes "is24 s" "s \<noteq> 0"
  shows "0 < period s" "walk s (period s) = s" "0 < n \<Longrightarrow> n < period s \<Longrightarrow> walk s n \<noteq> s"
proof -
  have "0 < period s \<and> walk s (period s) = s"
    unfolding period_def by (rule LeastI_ex) (use walk_returns [OF assms] in blast)
  then show "0 < period s" "walk s (period s) = s" by simp_all
  show "0 < n \<Longrightarrow> n < period s \<Longrightarrow> walk s n \<noteq> s"
    using not_less_Least [of n "\<lambda>n. 0 < n \<and> walk s n = s"] by (auto simp: period_def)
qed

lemma walk_inj_on:
  assumes "is24 s" "s \<noteq> 0"
  shows "inj_on (walk s) {..<period s}"
proof (rule linorder_inj_onI)
  fix i j assume ij: "i < j" "i \<in> {..<period s}" "j \<in> {..<period s}"
  show "walk s i \<noteq> walk s j"
  proof
    assume "walk s i = walk s j"
    then have "walk s i = walk (walk s (j - i)) i" using ij(1) by (simp flip: walk_add)
    then have "s = walk s (j - i)"
      using walk_cancel [of s "walk s (j - i)" i] walk_state assms by blast
    moreover have "0 < j - i" "j - i < period s" using ij by auto
    ultimately show False using period_facts(3) [OF assms, of "j - i"] by metis
  qed
qed (simp add: linorder_linear)

text \<open>The generator after \<open>n\<close> turns, and the indexes those turns give.\<close>

definition ig_at :: "u32 \<Rightarrow> u32 \<Rightarrow> nat \<Rightarrow> index_gen \<Rightarrow> bool" where
  "ig_at s m n g \<longleftrightarrow> n \<le> period s \<and> ig_initial g = s \<and> ig_mask g = m \<and> ig_lfsr g = walk s n \<and>
     (ig_exhausted g \<longleftrightarrow> n = period s)"

definition outputs :: "u32 \<Rightarrow> u32 \<Rightarrow> nat \<Rightarrow> u32 list" where
  "outputs s m n = filter (\<lambda>i. i \<noteq> 0) (map (\<lambda>k. index_of m (walk s k)) [0..<n])"

lemma outputs_Suc:
  "outputs s m (Suc n) = outputs s m n @ (if index_of m (walk s n) = 0 then [] else [index_of m (walk s n)])"
  by (simp add: outputs_def)

lemma index_turn_at:
  assumes "is24 s" "s \<noteq> 0" "ig_at s m n g" "\<not> ig_exhausted g"
  shows "ig_at s m (Suc n) (fst (index_turn g)) \<and> snd (index_turn g) = index_of m (walk s n)"
proof -
  have n: "n < period s" using assms(3,4) by (auto simp: ig_at_def)
  then have "walk s (Suc n) = s \<longleftrightarrow> Suc n = period s"
    using period_facts(2,3) [OF assms(1,2)] by (metis Suc_lessI zero_less_Suc)
  then show ?thesis using assms(3,4) n by (simp add: ig_at_def index_turn_lfsr walk_Suc index_of_def)
qed

lemma next_index_at:
  assumes s: "is24 s" "s \<noteq> 0" and m: "is24 m" and g: "ig_at s m n g"
  shows "\<exists>g' n' r. next_index g = Some (g', r) \<and> ig_at s m n' g' \<and>
    (case r of None \<Rightarrow> n' = period s \<and> outputs s m n' = outputs s m n
     | Some i \<Rightarrow> n < n' \<and> outputs s m n' = outputs s m n @ [i])"
proof -
  have inv: "ig_inv g" using g s m walk_state [OF s, of n] by (simp add: ig_inv_def ig_at_def)
  note nx = next_index_cases [OF inv]
  have none: ?thesis if "next_index g = Some (g', None)" "ig_at s m n' g'" "n' = period s"
      "outputs s m n' = outputs s m n" for g' n'
    using that by (intro exI [of _ g'] exI [of _ n'] exI [of _ None]) simp
  have some: ?thesis if "next_index g = Some (g', Some i)" "ig_at s m n' g'" "n < n'"
      "outputs s m n' = outputs s m n @ [i]" for g' n' i
    using that by (intro exI [of _ g'] exI [of _ n'] exI [of _ "Some i"]) simp
  show ?thesis
  proof (cases "ig_exhausted g")
    case True
    then have "next_index g = Some (g, None)" "n = period s" using g by (simp_all add: nx ig_at_def)
    then show ?thesis by (intro none [OF _ g]) simp_all
  next
    case False
    let ?g1 = "fst (index_turn g)"
    note t1 = index_turn_at [OF s g False]
    show ?thesis
    proof (cases "snd (index_turn g) = 0")
      case True
      then have o1: "outputs s m (Suc n) = outputs s m n" using t1 by (simp add: outputs_Suc)
      show ?thesis
      proof (cases "ig_exhausted ?g1")
        case ex: True
        then have "next_index g = Some (?g1, None)" using False True by (simp add: nx case_prod_beta Let_def)
        moreover have "Suc n = period s" using t1 ex by (simp add: ig_at_def)
        ultimately show ?thesis using o1 by (intro none [OF _ conjunct1 [OF t1]]) simp_all
      next
        case nex: False
        note t2 = index_turn_at [OF s conjunct1 [OF t1] nex]
        have "index_of m (walk s (Suc n)) \<noteq> 0"
        proof
          assume "index_of m (walk s (Suc n)) = 0"
          then have "walk s (Suc n) - 1 = walk s n - 1" using t1 True by (simp add: index_of_def xor_zero_iff)
          then have "walk s (Suc n) = walk s n" by (metis diff_add_cancel)
          then show False using lfsr_step_moves [of "walk s n"] walk_state [OF s] by (simp add: walk_Suc)
        qed
        then have "outputs s m (Suc (Suc n)) = outputs s m n @ [snd (index_turn ?g1)]"
          using t2 o1 by (simp add: outputs_Suc)
        moreover have "next_index g = Some (fst (index_turn ?g1), Some (snd (index_turn ?g1)))"
          using False True nex by (simp add: nx case_prod_beta Let_def)
        ultimately show ?thesis by (intro some [OF _ conjunct1 [OF t2]]) simp_all
      qed
    next
      case nz: False
      then have "outputs s m (Suc n) = outputs s m n @ [snd (index_turn g)]"
        using t1 by (simp add: outputs_Suc)
      moreover have "next_index g = Some (?g1, Some (snd (index_turn g)))"
        using False nz by (simp add: nx case_prod_beta Let_def)
      ultimately show ?thesis by (intro some [OF _ conjunct1 [OF t1]]) simp_all
    qed
  qed
qed

text \<open>The answers of \<open>k\<close> calls in a row; a call that did not return would make this \<open>None\<close>.\<close>

fun next_n :: "nat \<Rightarrow> index_gen \<Rightarrow> u32 option list option" where
  "next_n 0 g = Some []"
| "next_n (Suc k) g =
     (case next_index g of
        None \<Rightarrow> None
      | Some (g', r) \<Rightarrow> map_option (\<lambda>rs. r # rs) (next_n k g'))"

definition got :: "'a option list \<Rightarrow> 'a list" where
  "got rs = map the (filter (\<lambda>r. r \<noteq> None) rs)"

lemma got_simps [simp]: "got [] = []" "got (None # rs) = got rs" "got (Some i # rs) = i # got rs"
  by (simp_all add: got_def)

lemma next_n_at:
  assumes s: "is24 s" "s \<noteq> 0" and m: "is24 m" and g: "ig_at s m n g"
  shows "\<exists>rs n' j. next_n k g = Some rs \<and> length rs = k \<and> n \<le> n' \<and> n' \<le> period s \<and>
    outputs s m n' = outputs s m n @ got rs \<and> rs = map Some (got rs) @ replicate j None \<and>
    (n' = period s \<or> n + k \<le> n')"
  using g
proof (induction k arbitrary: g n)
  case 0
  then show ?case by (auto simp: ig_at_def)
next
  case (Suc k)
  obtain g' n1 r where st: "next_index g = Some (g', r)" "ig_at s m n1 g'"
      "case r of None \<Rightarrow> n1 = period s \<and> outputs s m n1 = outputs s m n
       | Some i \<Rightarrow> n < n1 \<and> outputs s m n1 = outputs s m n @ [i]"
    using next_index_at [OF s m Suc.prems] by blast
  obtain rs n' j where ih: "next_n k g' = Some rs" "length rs = k" "n1 \<le> n'" "n' \<le> period s"
      "outputs s m n' = outputs s m n1 @ got rs" "rs = map Some (got rs) @ replicate j None"
      "n' = period s \<or> n1 + k \<le> n'"
    using Suc.IH [OF st(2)] by blast
  have run: "next_n (Suc k) g = Some (r # rs)" using st(1) ih(1) by simp
  show ?case
  proof (cases r)
    case None
    then have n1: "n1 = period s" "outputs s m n1 = outputs s m n" using st(3) by auto
    then have "n' = n1" using ih(3,4) by simp
    then have none: "got rs = []" using ih(5) by simp
    then have "r # rs = map Some (got (r # rs)) @ replicate (Suc j) None" using None ih(6) by simp
    then show ?thesis using run none n1 ih(2) \<open>n' = n1\<close> None Suc.prems
      by (intro exI [of _ "r # rs"] exI [of _ n1] exI [of _ "Suc j"]) (simp add: ig_at_def)
  next
    case (Some i)
    then have "n < n1" "outputs s m n1 = outputs s m n @ [i]" using st(3) by auto
    moreover have "r # rs = map Some (got (r # rs)) @ replicate j None" using Some ih(6) by simp
    ultimately show ?thesis using run ih(2-5,7) Some
      by (intro exI [of _ "r # rs"] exI [of _ n'] exI [of _ j]) auto
  qed
qed

lemma from_seed_at: "ig_at (ig_initial (from_seed seed m)) (m AND MAX_INDEX) 0 (from_seed seed m)"
  using period_facts(1) [of "ig_initial (from_seed seed m)"] from_seed_inv [of seed m]
  by (auto simp: ig_at_def from_seed_def Let_def walk_def ig_inv_def)

lemma index_walk_inj:
  assumes "is24 s" "s \<noteq> 0"
  shows "inj_on (\<lambda>k. index_of m (walk s k)) {..<period s}"
proof (rule inj_onI)
  fix i j assume ij: "i \<in> {..<period s}" "j \<in> {..<period s}" "index_of m (walk s i) = index_of m (walk s j)"
  have "index_of m (walk s i) XOR m = index_of m (walk s j) XOR m" by (simp only: ij(3))
  then have "walk s i - 1 = walk s j - 1"
    unfolding index_of_def xor.assoc xor_self_eq xor.right_neutral .
  then have "walk s i = walk s j" by (metis diff_add_cancel)
  then show "i = j" using walk_inj_on [OF assms] ij(1,2) by (auto dest: inj_onD)
qed

lemma walk_indices_distinct:
  assumes "is24 s" "s \<noteq> 0" "n \<le> period s"
  shows "distinct (map (\<lambda>k. index_of m (walk s k)) [0..<n])"
proof -
  have "inj_on (\<lambda>k. index_of m (walk s k)) {0..<n}"
    by (rule inj_on_subset [OF index_walk_inj [OF assms(1,2)]]) (use assms(3) in auto)
  then show ?thesis by (simp add: distinct_map)
qed

lemma outputs_distinct: "is24 s \<Longrightarrow> s \<noteq> 0 \<Longrightarrow> n \<le> period s \<Longrightarrow> distinct (outputs s m n)"
  unfolding outputs_def by (intro distinct_filter walk_indices_distinct)

text \<open>At most one index of the sequence is the zero that is skipped.\<close>

lemma outputs_many:
  assumes "is24 s" "s \<noteq> 0" "n \<le> period s"
  shows "n - 1 \<le> length (outputs s m n)"
proof -
  let ?l = "map (\<lambda>k. index_of m (walk s k)) [0..<n]"
  have "outputs s m n = remove1 0 ?l"
    unfolding outputs_def distinct_remove1_removeAll [OF walk_indices_distinct [OF assms]] removeAll_filter_not_eq
    by (rule filter_cong) auto
  then show ?thesis by (simp add: length_remove1)
qed

lemma next_n_prefix: "next_n (k + l) g = Some rs \<Longrightarrow> next_n k g = Some (take k rs)"
proof (induction k arbitrary: g rs)
  case (Suc k)
  then obtain g' r qs where "next_index g = Some (g', r)" "next_n (k + l) g' = Some qs" "rs = r # qs"
    by (auto split: option.splits)
  then show ?case using Suc.IH by simp
qed simp

lemma is24_less: "is24 x \<longleftrightarrow> unat x < 2 ^ 24"
proof -
  have "is24 x \<longleftrightarrow> take_bit 24 x = x"
  proof
    assume "is24 x"
    then show "take_bit 24 x = x"
      by (intro bit_word_eqI) (auto simp: is24_def bit_take_bit_iff not_le [symmetric])
  next
    assume "take_bit 24 x = x"
    then have "bit x n \<Longrightarrow> n < 24" for n by (metis bit_take_bit_iff)
    then show "is24 x" unfolding is24_def using not_le by blast
  qed
  also have "\<dots> \<longleftrightarrow> take_bit 24 (unat x) = unat x"
    by (simp add: word_unat_eq_iff unsigned_take_bit_eq)
  also have "\<dots> \<longleftrightarrow> unat x < 2 ^ 24" by (rule take_bit_nat_eq_self_iff)
  finally show ?thesis .
qed

lemma is24_xor: "is24 x \<Longrightarrow> is24 y \<Longrightarrow> is24 (x XOR y)"
  by (simp add: is24_def bit_xor_iff)

lemma index_of_is24:
  assumes "is24 x" "x \<noteq> 0" "is24 m" shows "is24 (index_of m x)"
proof -
  have "unat (x - 1) < 2 ^ 24"
    using assms(1,2) by (simp add: is24_less unat_minus_one)
  then show ?thesis using assms(3) is24_xor [of "x - 1" m] by (simp add: is24_less index_of_def)
qed

lemma outputs_range:
  assumes "is24 s" "s \<noteq> 0" "is24 m"
  shows "i \<in> set (outputs s m n) \<Longrightarrow> i \<noteq> 0 \<and> is24 i"
  using walk_state [OF assms(1,2)] index_of_is24 [OF _ _ assms(3)] by (auto simp: outputs_def)

end
