(* ===== verification/Lfsr_Period.thy ===== *)
theory Lfsr_Period
  imports Session_Index
begin

text \<open>
  The register of \<open>index.rs\<close> has the largest period a 24-bit register can have.  Its step is linear,
  so its powers are polynomials in the step; a state is the polynomial that takes the state \<open>2 ^ 23\<close>
  to it, and a power of the step is computed by squaring.  The period of every seed then divides
  \<open>2 ^ 24 - 1\<close> and none of its quotients by a prime factor.
\<close>

unbundle bit_operations_syntax

section \<open>Polynomials in the step\<close>

fun act :: "bool list \<Rightarrow> u32 \<Rightarrow> u32" where
  "act [] x = 0"
| "act (b # p) x = (if b then x else 0) XOR lfsr_step (act p x)"

lemma lfsr_step_xor: "lfsr_step (x XOR y) = lfsr_step x XOR lfsr_step y"
  by (rule bit_word_eqI) (auto simp: bit_lfsr_step bit_xor_iff even_xor_iff)

lemma xor_four: "((a :: u32) XOR b) XOR (c XOR d) = (a XOR c) XOR (b XOR d)"
  by (simp add: xor.assoc xor.left_commute)

lemma act_xor: "act p (x XOR y) = act p x XOR act p y"
  by (induction p) (auto simp: lfsr_step_xor xor_four)

lemma act_zero [simp]: "act p 0 = 0"
  by (induction p) auto

lemma act_step: "act p (lfsr_step x) = lfsr_step (act p x)"
  by (induction p) (auto simp: lfsr_step_xor)

lemma act_comm: "act p (act q x) = act q (act p x)"
  by (induction q) (auto simp: act_xor act_step)

lemma walk_act: "walk (act p x) n = act p (walk x n)"
  by (induction n) (simp_all add: walk_Suc act_step, simp add: walk_def)

lemma walk_xor: "walk (x XOR y) n = walk x n XOR walk y n"
  by (induction n) (simp_all add: walk_Suc lfsr_step_xor, simp add: walk_def)

definition unit24 :: u32 where "unit24 = 2 ^ 23"

definition revbits :: "u32 \<Rightarrow> bool list" where
  "revbits u = map (bit u) (rev [0..<24])"

lemma lfsr_step_exp: "Suc j < 32 \<Longrightarrow> lfsr_step (2 ^ Suc j) = 2 ^ j"
  by (rule bit_word_eqI) (auto simp: bit_lfsr_step bit_exp_iff even_mult_iff simp del: power_Suc)

lemma act_bits:
  "j < 32 \<Longrightarrow> act (map (bit u) (rev [0..<Suc j])) (2 ^ j) = take_bit (Suc j) u"
proof (induction j)
  case 0
  show ?case by (rule bit_word_eqI) (auto simp: bit_take_bit_iff bit_1_iff bit_0)
next
  case (Suc j)
  have "act (map (bit u) (rev [0..<Suc (Suc j)])) (2 ^ Suc j) =
      (if bit u (Suc j) then 2 ^ Suc j else 0) XOR lfsr_step (act (map (bit u) (rev [0..<Suc j])) (2 ^ Suc j))"
    by simp
  also have "lfsr_step (act (map (bit u) (rev [0..<Suc j])) (2 ^ Suc j)) =
      act (map (bit u) (rev [0..<Suc j])) (2 ^ j)"
    using Suc.prems by (simp only: act_step [symmetric] lfsr_step_exp)
  also have "\<dots> = take_bit (Suc j) u" using Suc by simp
  also have "(if bit u (Suc j) then 2 ^ Suc j else 0) XOR take_bit (Suc j) u = take_bit (Suc (Suc j)) u"
    using Suc.prems by (intro bit_word_eqI) (auto simp: bit_xor_iff bit_take_bit_iff bit_exp_iff less_Suc_eq simp del: power_Suc)
  finally show ?case .
qed

lemma act_revbits: "is24 u \<Longrightarrow> act (revbits u) unit24 = u"
proof -
  assume u: "is24 u"
  have "act (revbits u) unit24 = take_bit 24 u"
    using act_bits [of 23 u] by (simp add: revbits_def unit24_def)
  also have "\<dots> = u"
    using u by (intro bit_word_eqI) (auto simp: is24_def bit_take_bit_iff not_le [symmetric])
  finally show ?thesis .
qed

definition wmul :: "u32 \<Rightarrow> u32 \<Rightarrow> u32" where
  "wmul u v = act (revbits u) v"

text \<open>The power of the step, as a state.\<close>

lemma unit24_state [simp]: "is24 unit24" "unit24 \<noteq> 0"
  by (simp_all add: unit24_def is24_less)

lemma walk_unit24 [simp]: "is24 (walk unit24 n)"
  using walk_state by simp

lemma walk_wmul: "is24 x \<Longrightarrow> walk x n = wmul x (walk unit24 n)"
  by (metis act_revbits walk_act wmul_def)

lemma walk_double: "walk unit24 (2 * n) = wmul (walk unit24 n) (walk unit24 n)"
  by (simp add: mult_2 walk_add walk_wmul [OF walk_unit24])

lemma walk_double_Suc: "walk unit24 (2 * n + 1) = lfsr_step (wmul (walk unit24 n) (walk unit24 n))"
  by (simp add: walk_Suc flip: walk_double)

lemma no_return:
  assumes "is24 x" "x \<noteq> 0" and inv: "wmul u (walk unit24 n XOR unit24) = unit24"
  shows "walk x n \<noteq> x"
proof
  assume "walk x n = x"
  then have "act (revbits x) (walk unit24 n XOR unit24) = 0"
    using walk_wmul [OF assms(1), of n] act_revbits [OF assms(1)] by (simp add: act_xor wmul_def)
  then have "act (revbits x) (wmul u (walk unit24 n XOR unit24)) = 0"
    using act_comm [of "revbits x" "revbits u"] by (simp add: wmul_def)
  then show False using act_revbits [OF assms(1)] assms(2) by (simp add: inv)
qed

text \<open>The power of the step whose exponent has the given binary digits, the highest first.\<close>

fun step_power :: "u32 \<Rightarrow> bool list \<Rightarrow> u32" where
  "step_power acc [] = acc"
| "step_power acc (b # bs) = step_power (if b then lfsr_step (wmul acc acc) else wmul acc acc) bs"

lemma step_power_walk:
  "step_power (walk unit24 n) bs = walk unit24 (foldl (\<lambda>n b. 2 * n + (if b then 1 else 0)) n bs)"
proof (induction bs arbitrary: n)
  case (Cons b bs)
  show ?case
    using Cons [of "2 * n + 1"] Cons [of "2 * n"] walk_double [of n] walk_double_Suc [of n] by simp
qed simp

lemma walk_power: "walk unit24 (foldl (\<lambda>n b. 2 * n + (if b then 1 else 0)) 0 bs) = step_power unit24 bs"
  using step_power_walk [of 0 bs] by (simp add: walk_def)

lemma upt_24: "rev [0..<24] = [23, 22, 21, 20, 19, 18, 17, 16, 15, 14, 13, 12, 11, 10, 9, 8, 7, 6, 5, 4, 3, 2, 1, 0]"
  by (simp add: upt_rec)

lemma lfsr_step_numeral:
  "lfsr_step (numeral n) =
     (if odd (numeral n :: u32) then drop_bit 1 (numeral n) XOR LFSR_POLY else drop_bit 1 (numeral n))"
  "lfsr_step 1 = LFSR_POLY"
  by (simp_all add: lfsr_step_alt)

lemmas step_eval = wmul_def revbits_def upt_24 lfsr_step_numeral LFSR_POLY_def

lemma unit24_value: "unit24 = 0x800000"
  by (simp add: unit24_def)

lemma power_3: "walk unit24 5592405 = 0x720800"
  using walk_power [of "[True, False, True, False, True, False, True, False, True, False, True, False, True, False,
    True, False, True, False, True, False, True, False, True]"]
  by (simp add: step_eval unit24_value)

lemma inverse_3: "wmul 0x720800 (walk unit24 5592405 XOR unit24) = unit24"
  unfolding power_3 unfolding unit24_value by (simp add: step_eval)

lemma power_5: "walk unit24 3355443 = 0xd59b8f"
  using walk_power [of "[True, True, False, False, True, True, False, False, True, True, False, False, True, True,
    False, False, True, True, False, False, True, True]"]
  by (simp add: step_eval unit24_value)

lemma inverse_5: "wmul 0xd189ed (walk unit24 3355443 XOR unit24) = unit24"
  unfolding power_5 unfolding unit24_value by (simp add: step_eval)

lemma power_7: "walk unit24 2396745 = 0xb54700"
  using walk_power [of "[True, False, False, True, False, False, True, False, False, True, False, False, True, False,
    False, True, False, False, True, False, False, True]"]
  by (simp add: step_eval unit24_value)

lemma inverse_7: "wmul 0xb2c220 (walk unit24 2396745 XOR unit24) = unit24"
  unfolding power_7 unfolding unit24_value by (simp add: step_eval)

lemma power_13: "walk unit24 1290555 = 0x13f7c0"
  using walk_power [of "[True, False, False, True, True, True, False, True, True, False, False, False, True, False,
    False, True, True, True, False, True, True]"]
  by (simp add: step_eval unit24_value)

lemma inverse_13: "wmul 0xdda015 (walk unit24 1290555 XOR unit24) = unit24"
  unfolding power_13 unfolding unit24_value by (simp add: step_eval)

lemma power_17: "walk unit24 986895 = 0x5d1147"
  using walk_power [of "[True, True, True, True, False, False, False, False, True, True, True, True, False, False,
    False, False, True, True, True, True]"]
  by (simp add: step_eval unit24_value)

lemma inverse_17: "wmul 0x4d0fba (walk unit24 986895 XOR unit24) = unit24"
  unfolding power_17 unfolding unit24_value by (simp add: step_eval)

lemma power_241: "walk unit24 69615 = 0x5e700d"
  using walk_power [of "[True, False, False, False, False, True, True, True, True, True, True, True, False, True, True,
    True, True]"]
  by (simp add: step_eval unit24_value)

lemma inverse_241: "wmul 0x817fda (walk unit24 69615 XOR unit24) = unit24"
  unfolding power_241 unfolding unit24_value by (simp add: step_eval)

lemma power_all: "walk unit24 16777215 = unit24"
proof -
  have "walk unit24 (2 * 5592405 + 5592405) = wmul (walk unit24 (2 * 5592405)) (walk unit24 5592405)"
    by (simp only: walk_add [of unit24 "2 * 5592405"] walk_wmul [OF walk_unit24])
  then have "walk unit24 16777215 = wmul (wmul 0x720800 0x720800) 0x720800"
    unfolding walk_double power_3 by simp
  also have "\<dots> = unit24" unfolding unit24_value by (simp add: step_eval)
  finally show ?thesis .
qed

section \<open>The period\<close>

lemma walk_full: "is24 x \<Longrightarrow> walk x 16777215 = x"
  using walk_wmul [of x 16777215] act_revbits [of x] by (simp add: power_all wmul_def)

lemma walk_mult: "walk s n = s \<Longrightarrow> walk s (n * k) = s"
  by (induction k) (simp_all add: walk_add, simp add: walk_def)

lemma period_dvd:
  assumes "is24 s" "s \<noteq> 0" "walk s n = s"
  shows "period s dvd n"
proof -
  let ?p = "period s"
  note f = period_facts [OF assms(1,2)]
  have "walk s (?p * (n div ?p) + n mod ?p) = s" using assms(3) by simp
  then have "walk s (n mod ?p) = s" by (simp only: walk_add walk_mult [OF f(2)])
  then have "n mod ?p = 0" using f(3) [of "n mod ?p"] f(1) by (cases "n mod ?p = 0") auto
  then show ?thesis by auto
qed

lemma small_divisors:
  fixes d :: nat
  assumes "d dvd q" and "q \<in> {3, 5, 7, 13, 17, 241}"
  shows "d = 1 \<or> d = q"
proof -
  have "\<forall>q\<in>{3, 5, 7, 13, 17, 241 :: nat}. \<forall>d\<in>set [1..<q]. d dvd q \<longrightarrow> d = 1" by code_simp
  moreover have "q \<noteq> 0" using assms(2) by auto
  then have "0 < d" "d \<le> q" using assms(1) by (auto intro: dvd_imp_le dest: dvd_pos_nat)
  ultimately show ?thesis using assms by (cases "d = q") auto
qed

lemma divisor_of_full:
  fixes k :: nat
  assumes "k dvd 16777215" and "\<And>q. q \<in> {3, 5, 7, 13, 17, 241} \<Longrightarrow> \<not> q dvd k"
  shows "k = 1"
proof -
  have c: "coprime k q" if "q \<in> {3, 5, 7, 13, 17, 241}" for q
    using small_divisors [of "gcd k q" q] assms(2) [OF that] that
    by (metis coprime_iff_gcd_eq_1 gcd_dvd1 gcd_dvd2)
  have "coprime k (3 * 3 * 5 * 7 * 13 * 17 * 241)"
    using c [of 3] c [of 5] c [of 7] c [of 13] c [of 17] c [of 241]
    by (simp only: coprime_mult_right_iff insert_iff simp_thms)
  then have "coprime k 16777215" by simp
  then show ?thesis using assms(1) by (metis coprime_common_divisor_nat dvd_refl nat_dvd_1_iff_1)
qed

lemma period_maximal:
  assumes s: "is24 s" "s \<noteq> 0"
  shows "period s = 16777215"
proof -
  note dvd = period_dvd [OF s walk_full [OF s(1)]]
  obtain k where k: "16777215 = period s * k" using dvd by (elim dvdE)
  have no: "\<not> q dvd k" if q: "16777215 = q * r" and nr: "walk s r \<noteq> s" and "0 < q" for q r
  proof
    assume "q dvd k"
    then obtain j where "k = q * j" by (elim dvdE)
    then have "q * r = q * (period s * j)" using k q by (metis mult.left_commute)
    then have "r = period s * j" using \<open>0 < q\<close> by simp
    then show False using nr walk_mult [OF period_facts(2) [OF s]] by simp
  qed
  have "k = 1"
  proof (rule divisor_of_full)
    show "k dvd 16777215" unfolding k by simp
    fix q :: nat assume "q \<in> {3, 5, 7, 13, 17, 241}"
    then show "\<not> q dvd k"
      using no [of 3 5592405] no [of 5 3355443] no [of 7 2396745] no [of 13 1290555] no [of 17 986895]
        no [of 241 69615] no_return [OF s inverse_3] no_return [OF s inverse_5] no_return [OF s inverse_7]
        no_return [OF s inverse_13] no_return [OF s inverse_17] no_return [OF s inverse_241]
      by auto
  qed
  then show ?thesis using k by simp
qed

section \<open>Properties\<close>

lemma from_seed_start:
  "is24 (ig_initial (from_seed seed m))" "ig_initial (from_seed seed m) \<noteq> 0" "is24 (m AND MAX_INDEX)"
  using from_seed_inv [of seed m] is24_and by (auto simp: ig_inv_def)

lemma le_MAX_INDEX: "x \<le> MAX_INDEX \<longleftrightarrow> is24 x"
proof -
  have "x \<le> MAX_INDEX \<longleftrightarrow> unat x \<le> 16777215" by (simp add: word_le_nat_alt MAX_INDEX_def)
  also have "\<dots> \<longleftrightarrow> unat x < 2 ^ 24" by auto
  finally show ?thesis by (simp add: is24_less)
qed

text \<open>A full turn of the register visits every state.\<close>

lemma walk_onto:
  assumes "is24 s" "s \<noteq> 0"
  shows "walk s ` {..<period s} = {x. is24 x \<and> x \<noteq> 0}"
proof (rule card_seteq)
  let ?S = "{x. is24 x \<and> x \<noteq> 0}"
  show "finite ?S" by (rule finite_subset [OF subset_UNIV]) simp
  show "walk s ` {..<period s} \<subseteq> ?S" using walk_state [OF assms] by auto
  have "?S \<subseteq> word_of_nat ` {1..<16777216}"
  proof
    fix x assume "x \<in> ?S"
    then have "unat x \<in> {1..<16777216}" by (simp add: is24_less unat_gt_0 Suc_le_eq)
    then show "x \<in> word_of_nat ` {1..<16777216}" by (intro image_eqI [of _ _ "unat x"]) simp_all
  qed
  then have "card ?S \<le> card (word_of_nat ` {1..<16777216} :: u32 set)" by (intro card_mono) simp_all
  also have "\<dots> \<le> card {1..<16777216 :: nat}" by (rule card_image_le) simp
  finally have "card ?S \<le> 16777215" by simp
  then show "card ?S \<le> card (walk s ` {..<period s})"
    using card_image [OF walk_inj_on [OF assms]] period_maximal [OF assms] by simp
qed

lemma index_of_onto:
  assumes "is24 m"
  shows "index_of m ` {x. is24 x \<and> x \<noteq> 0} = {i. is24 i \<and> i \<noteq> MAX_INDEX XOR m}"
proof (intro set_eqI iffI)
  fix i assume "i \<in> index_of m ` {x. is24 x \<and> x \<noteq> 0}"
  then obtain x where x: "is24 x" "x \<noteq> 0" "i = index_of m x" by blast
  have "i \<noteq> MAX_INDEX XOR m"
  proof
    assume "i = MAX_INDEX XOR m"
    then have "((x - 1) XOR m) XOR m = (MAX_INDEX XOR m) XOR m" using x(3) by (simp only: index_of_def)
    then have "x - 1 = MAX_INDEX" unfolding xor.assoc xor_self_eq xor.right_neutral .
    then have "x = MAX_INDEX + 1" by (metis diff_add_cancel)
    then show False using x(1) by (simp add: is24_less MAX_INDEX_def)
  qed
  then show "i \<in> {i. is24 i \<and> i \<noteq> MAX_INDEX XOR m}" using index_of_is24 [OF x(1,2) assms] x(3) by simp
next
  fix i assume i: "i \<in> {i. is24 i \<and> i \<noteq> MAX_INDEX XOR m}"
  let ?y = "i XOR m"
  have y: "is24 ?y" using i assms by (simp add: is24_xor)
  have "?y \<noteq> MAX_INDEX"
  proof
    assume "?y = MAX_INDEX"
    then have "(i XOR m) XOR m = MAX_INDEX XOR m" by (simp only:)
    then show False using i unfolding xor.assoc xor_self_eq xor.right_neutral by simp
  qed
  then have "unat ?y \<noteq> unat MAX_INDEX" by (simp add: word_unat_eq_iff)
  then have "unat ?y \<noteq> 16777215" by (simp add: MAX_INDEX_def)
  then have "unat (?y + 1) = unat ?y + 1" "unat ?y + 1 < 2 ^ 24"
    using y by (simp_all add: is24_less unat_word_ariths)
  then have "is24 (?y + 1)" "?y + 1 \<noteq> 0" by (auto simp: is24_less)
  moreover have "index_of m (?y + 1) = i"
    unfolding index_of_def add_diff_cancel_right' xor.assoc xor_self_eq xor.right_neutral ..
  ultimately show "i \<in> index_of m ` {x. is24 x \<and> x \<noteq> 0}" by (intro image_eqI [of _ _ "?y + 1"]) auto
qed

text \<open>
  C27.  Every call of \<open>next\<close> returns, and however often it is called the indexes it gives are
  pairwise distinct, not zero and at most \<open>MAX_INDEX\<close>; the calls that give one come first, so once
  it has answered \<open>None\<close> it gives no index any more.
\<close>

theorem next_index_never_reuses:
  "\<exists>rs j. next_n k (from_seed seed m) = Some rs \<and> length rs = k \<and> rs = map Some (got rs) @ replicate j None \<and>
     distinct (got rs) \<and> set (got rs) \<subseteq> {i. i \<noteq> 0 \<and> i \<le> MAX_INDEX}"
proof -
  let ?s = "ig_initial (from_seed seed m)" and ?m = "m AND MAX_INDEX"
  note st = from_seed_start(1,2) [of seed m] from_seed_start(3) [of m]
  obtain rs n j where n: "next_n k (from_seed seed m) = Some rs" "length rs = k" "n \<le> period ?s"
      "outputs ?s ?m n = outputs ?s ?m 0 @ got rs" "rs = map Some (got rs) @ replicate j None"
    using next_n_at [OF st from_seed_at, of k] by blast
  then have g: "got rs = outputs ?s ?m n" by (simp add: outputs_def)
  have "distinct (got rs)" "\<And>i. i \<in> set (got rs) \<Longrightarrow> i \<noteq> 0 \<and> i \<le> MAX_INDEX"
    unfolding g using outputs_distinct [OF st(1,2) n(3)] outputs_range [OF st] by (simp_all add: le_MAX_INDEX)
  then show ?thesis using n(1,2,5) by blast
qed

text \<open>The sequence is the whole space: that is the use of a maximal-length register.\<close>

text \<open>
  C28.  The generator refuses only once the space is spent: whatever the seeds, \<open>2 ^ 24 - 1\<close> calls
  give every index from 1 to \<open>MAX_INDEX\<close> but the one that the value \<open>2 ^ 24 - 1\<close>, which no
  register state minus one takes, would be masked to.
\<close>

theorem next_index_complete:
  "\<exists>rs. next_n 16777215 (from_seed seed m) = Some rs \<and>
     set (got rs) = {i. i \<noteq> 0 \<and> i \<le> MAX_INDEX \<and> i \<noteq> MAX_INDEX XOR (m AND MAX_INDEX)}"
proof -
  let ?s = "ig_initial (from_seed seed m)" and ?m = "m AND MAX_INDEX"
  note st = from_seed_start(1,2) [of seed m] from_seed_start(3) [of m]
  have per: "period ?s = 16777215" by (rule period_maximal [OF st(1,2)])
  obtain rs n where n: "next_n 16777215 (from_seed seed m) = Some rs" "n \<le> period ?s"
      "outputs ?s ?m n = outputs ?s ?m 0 @ got rs" "n = period ?s \<or> 0 + 16777215 \<le> n"
    using next_n_at [OF st from_seed_at, of 16777215] by blast
  then have "n = period ?s" using per by linarith
  then have "got rs = outputs ?s ?m (period ?s)" using n(3) by (simp add: outputs_def)
  then have "set (got rs) = index_of ?m ` walk ?s ` {..<period ?s} - {0}"
    by (auto simp: outputs_def atLeast0LessThan)
  also have "\<dots> = {i. is24 i \<and> i \<noteq> MAX_INDEX XOR ?m} - {0}"
    by (simp only: walk_onto [OF st(1,2)] index_of_onto [OF st(3)])
  finally show ?thesis using n(1) by (auto simp: le_MAX_INDEX)
qed

section \<open>The first draws\<close>

text \<open>Every one of the first \<open>2 ^ 24 - 2\<close> calls gives an index.\<close>

lemma first_draws:
  assumes "k \<le> 16777214"
  shows "\<exists>is. next_n k (from_seed seed m) = Some (map Some is)"
proof -
  let ?s = "ig_initial (from_seed seed m)" and ?m = "m AND MAX_INDEX"
  note st = from_seed_start(1,2) [of seed m] from_seed_start(3) [of m]
  have per: "period ?s = 16777215" by (rule period_maximal [OF st(1,2)])
  obtain rs n j where n: "next_n 16777215 (from_seed seed m) = Some rs" "n \<le> period ?s" "outputs ?s ?m n = outputs ?s ?m 0 @ got rs"
      "rs = map Some (got rs) @ replicate j None" "n = period ?s \<or> 0 + 16777215 \<le> n"
    using next_n_at [OF st from_seed_at, of 16777215] by blast
  have "n = 16777215" using n(2,5) per by linarith
  moreover have "outputs ?s ?m 0 = []" by (simp add: outputs_def)
  ultimately have "16777214 \<le> length (got rs)" using outputs_many [OF st(1,2) n(2), of ?m] n(3) by simp
  then have "take k rs = map Some (take k (got rs))" using assms by (subst n(4)) (simp add: take_map)
  moreover have "next_n (k + (16777215 - k)) (from_seed seed m) = Some rs" using n(1) assms by simp
  ultimately show ?thesis using next_n_prefix by metis
qed

end
