(* ===== verification/Peer_Plan.thy ===== *)
theory Peer_Plan
  imports Ip "HOL-Library.Product_Lexorder"
begin

text \<open>
  \<open>warren-bolthole-core/src/plan.rs\<close>: the ranges peers are numbered in, the tunnel pool they must
  not meet, and the complement of a list of networks.  A network of the \<open>ip_network\<close> crate is its
  network address and prefix length; the checked constructor of the crate is the argument \<open>new4\<close> or
  \<open>new6\<close>.  The prefix reasoning is done once, on words of any length.
\<close>

unbundle bit_operations_syntax

section \<open>Definitions\<close>

datatype ip_network = NetV4 u32 nat | NetV6 u128 nat

definition TUNNEL_POOL_V4 :: "u32 \<times> nat" where "TUNNEL_POOL_V4 = (0x0a420000, 16)"
definition TUNNEL_POOL_V6 :: "u128 \<times> nat" where
  "TUNNEL_POOL_V6 = (0xfdcc000f000100000000000000000000, 64)"
definition TUNNEL_GATEWAY_V4 :: u32 where "TUNNEL_GATEWAY_V4 = 0x0a420001"
definition TUNNEL_GATEWAY_V6 :: u128 where "TUNNEL_GATEWAY_V6 = 0xfdcc000f000100000000000000000001"
definition DEFAULT_PEER_SUBNET_V4 :: "u32 \<times> nat" where "DEFAULT_PEER_SUBNET_V4 = (0x0a430000, 24)"
definition DEFAULT_PEER_SUBNET_V6 :: "u128 \<times> nat" where
  "DEFAULT_PEER_SUBNET_V6 = (0xfd776172726500000000000000000000, 64)"

datatype plan_error = TunnelPoolOverlap | WrongFamily | SubnetTooSmall | IndexOutOfRange

definition mask32 :: "nat \<Rightarrow> u32" where
  "mask32 prefix = (if prefix = 0 then 0 else push_bit (32 - prefix) (- 1))"

definition mask128 :: "nat \<Rightarrow> u128" where
  "mask128 prefix = (if prefix = 0 then 0 else push_bit (128 - prefix) (- 1))"

definition in_v4 :: "u32 \<Rightarrow> u32 \<times> nat \<Rightarrow> bool" where
  "in_v4 addr net \<longleftrightarrow> addr AND mask32 (snd net) = fst net AND mask32 (snd net)"

definition in_v6 :: "u128 \<Rightarrow> u128 \<times> nat \<Rightarrow> bool" where
  "in_v6 addr net \<longleftrightarrow> addr AND mask128 (snd net) = fst net AND mask128 (snd net)"

fun is_tunnel_pool :: "ip_addr \<Rightarrow> bool" where
  "is_tunnel_pool (V4 v4) \<longleftrightarrow> in_v4 v4 TUNNEL_POOL_V4"
| "is_tunnel_pool (V6 v6) \<longleftrightarrow> in_v6 v6 TUNNEL_POOL_V6"

definition overlaps_v4 :: "u32 \<times> nat \<Rightarrow> u32 \<times> nat \<Rightarrow> bool" where
  "overlaps_v4 net other \<longleftrightarrow> in_v4 (fst net) other \<or> in_v4 (fst other) net"

definition overlaps_v6 :: "u128 \<times> nat \<Rightarrow> u128 \<times> nat \<Rightarrow> bool" where
  "overlaps_v6 net other \<longleftrightarrow> in_v6 (fst net) other \<or> in_v6 (fst other) net"

fun overlaps_tunnel_pool :: "ip_network \<Rightarrow> bool" where
  "overlaps_tunnel_pool (NetV4 base prefix) \<longleftrightarrow> overlaps_v4 (base, prefix) TUNNEL_POOL_V4"
| "overlaps_tunnel_pool (NetV6 base prefix) \<longleftrightarrow> overlaps_v6 (base, prefix) TUNNEL_POOL_V6"

definition is_tunnel_gateway :: "ip_addr \<Rightarrow> bool" where
  "is_tunnel_gateway addr \<longleftrightarrow> addr = V4 TUNNEL_GATEWAY_V4 \<or> addr = V6 TUNNEL_GATEWAY_V6"

record peer_plan =
  plan_v4 :: "u32 \<times> nat"
  plan_v6 :: "u128 \<times> nat"

definition plan_new :: "ip_network \<Rightarrow> ip_network \<Rightarrow> (plan_error, peer_plan) res" where
  "plan_new v4 v6 =
     (case (v4, v6) of
        (NetV4 b4 p4, NetV6 b6 p6) \<Rightarrow>
          if 30 < p4 then Err SubnetTooSmall
          else if overlaps_v4 (b4, p4) TUNNEL_POOL_V4 then Err TunnelPoolOverlap
          else if overlaps_v6 (b6, p6) TUNNEL_POOL_V6 then Err TunnelPoolOverlap
          else Ok \<lparr>plan_v4 = (b4, p4), plan_v6 = (b6, p6)\<rparr>
      | _ \<Rightarrow> Err WrongFamily)"

definition plan_default :: peer_plan where
  "plan_default = \<lparr>plan_v4 = DEFAULT_PEER_SUBNET_V4, plan_v6 = DEFAULT_PEER_SUBNET_V6\<rparr>"

definition gateway_v4 :: "peer_plan \<Rightarrow> u32" where
  "gateway_v4 p = fst (plan_v4 p) OR 1"

definition gateway_v6 :: "peer_plan \<Rightarrow> u128" where
  "gateway_v6 p = fst (plan_v6 p) OR 1"

definition address_for :: "peer_plan \<Rightarrow> u32 \<Rightarrow> (plan_error, u32 \<times> u128) res" where
  "address_for p index =
     (let host_bits = 32 - snd (plan_v4 p);
          last = (if 32 \<le> host_bits then - 1 else push_bit host_bits 1 - 1)
      in if index < 2 \<or> last \<le> index then Err IndexOutOfRange
         else Ok (fst (plan_v4 p) OR index, fst (plan_v6 p) OR ucast index))"

definition plan_is_gateway :: "peer_plan \<Rightarrow> ip_addr \<Rightarrow> bool" where
  "plan_is_gateway p addr \<longleftrightarrow> addr = V4 (gateway_v4 p) \<or> addr = V6 (gateway_v6 p)"

definition subtract32 :: "(u32 \<times> nat) list \<Rightarrow> u32 \<Rightarrow> nat \<Rightarrow> (u32 \<times> nat) list" where
  "subtract32 networks base prefix =
     concat (map (\<lambda>(net_base, net_prefix).
       if prefix < net_prefix \<or> base AND mask32 net_prefix \<noteq> net_base
       then (if \<not> (prefix \<le> net_prefix \<and> net_base AND mask32 prefix = base AND mask32 prefix)
             then [(net_base, net_prefix)] else [])
       else map (\<lambda>length. ((base AND mask32 length) XOR push_bit (32 - length) 1, length))
              [Suc net_prefix..<Suc prefix]) networks)"

definition subtract128 :: "(u128 \<times> nat) list \<Rightarrow> u128 \<Rightarrow> nat \<Rightarrow> (u128 \<times> nat) list" where
  "subtract128 networks base prefix =
     concat (map (\<lambda>(net_base, net_prefix).
       if prefix < net_prefix \<or> base AND mask128 net_prefix \<noteq> net_base
       then (if \<not> (prefix \<le> net_prefix \<and> net_base AND mask128 prefix = base AND mask128 prefix)
             then [(net_base, net_prefix)] else [])
       else map (\<lambda>length. ((base AND mask128 length) XOR push_bit (128 - length) 1, length))
              [Suc net_prefix..<Suc prefix]) networks)"

fun complement_step ::
  "(u32 \<times> nat) list \<times> (u128 \<times> nat) list \<Rightarrow> ip_network \<Rightarrow> (u32 \<times> nat) list \<times> (u128 \<times> nat) list" where
  "complement_step (v4, v6) (NetV4 base prefix) = (subtract32 v4 base prefix, v6)"
| "complement_step (v4, v6) (NetV6 base prefix) = (v4, subtract128 v6 base prefix)"

definition complement ::
  "(u32 \<Rightarrow> nat \<Rightarrow> ip_network option) \<Rightarrow> (u128 \<Rightarrow> nat \<Rightarrow> ip_network option) \<Rightarrow> ip_network list \<Rightarrow> ip_network list" where
  "complement new4 new6 exclude =
     (let (v4, v6) = foldl complement_step ([(0, 0)], [(0, 0)]) exclude
      in List.map_filter (\<lambda>(base, prefix). new4 base prefix) (sort v4) @
         List.map_filter (\<lambda>(base, prefix). new6 base prefix) (sort v6))"

section \<open>Prefixes of words\<close>

text \<open>The mask of the top \<open>p\<close> bits, and agreement on them.\<close>

definition hi_mask :: "nat \<Rightarrow> 'a::len word" where
  "hi_mask p = push_bit (LENGTH('a) - p) (- 1)"

definition agree :: "nat \<Rightarrow> 'a::len word \<Rightarrow> 'a word \<Rightarrow> bool" where
  "agree p a b \<longleftrightarrow> a AND hi_mask p = b AND hi_mask p"

lemma bit_hi_mask: "bit (hi_mask p :: 'a::len word) n \<longleftrightarrow> LENGTH('a) - p \<le> n \<and> n < LENGTH('a)"
  by (auto simp: hi_mask_def bit_not_iff bit_mask_iff dest: bit_imp_le_length)

lemma agree_bits:
  "agree p (a :: 'a::len word) b \<longleftrightarrow> (\<forall>n. LENGTH('a) - p \<le> n \<and> n < LENGTH('a) \<longrightarrow> bit a n = bit b n)"
  by (auto simp: agree_def bit_eq_iff bit_and_iff bit_hi_mask)

lemma push_bit_out: "(push_bit LENGTH('a) (- 1) :: 'a::len word) = 0"
  by (rule bit_word_eqI) (auto simp: bit_not_iff bit_mask_iff)

lemma mask_hi: "mask32 = hi_mask" "mask128 = hi_mask"
  using push_bit_out [where ?'a = 32] push_bit_out [where ?'a = 128]
  by (auto simp: fun_eq_iff mask32_def mask128_def hi_mask_def)

lemma in_agree: "in_v4 a (b, p) \<longleftrightarrow> agree p a b" "in_v6 c (d, p) \<longleftrightarrow> agree p c d"
  by (simp_all add: in_v4_def in_v6_def agree_def mask_hi)

lemma agree_refl [simp]: "agree p a a"
  by (simp add: agree_def)

lemma agree_sym: "agree p a b \<Longrightarrow> agree p b a"
  by (simp add: agree_def)

lemma agree_trans: "agree p a b \<Longrightarrow> agree p b c \<Longrightarrow> agree p a c"
  by (simp add: agree_def)

lemma agree_mono: "agree q a b \<Longrightarrow> p \<le> q \<Longrightarrow> agree p a b"
  unfolding agree_bits by (meson diff_le_mono2 le_trans)

lemma agree_0 [simp]: "agree 0 a b"
  by (auto simp: agree_bits)

lemma agree_mask [simp]: "agree p (b AND hi_mask p) c \<longleftrightarrow> agree p b c" "agree p c (b AND hi_mask p) \<longleftrightarrow> agree p c b"
  by (simp_all add: agree_def and.assoc)

lemma agree_Suc:
  assumes "p < LENGTH('a)"
  shows "agree (Suc p) (a :: 'a::len word) b \<longleftrightarrow>
    agree p a b \<and> bit a (LENGTH('a) - Suc p) = bit b (LENGTH('a) - Suc p)"
proof -
  have *: "LENGTH('a) - Suc p \<le> n \<longleftrightarrow> LENGTH('a) - p \<le> n \<or> n = LENGTH('a) - Suc p" for n
    using assms by auto
  then show ?thesis using assms by (auto simp: agree_bits)
qed

text \<open>The sibling of a prefix: the same up to the last bit, which differs.\<close>

definition sibling :: "'a::len word \<Rightarrow> nat \<Rightarrow> 'a word" where
  "sibling base l = (base AND hi_mask l) XOR push_bit (LENGTH('a) - l) 1"

lemma bit_sibling:
  assumes "0 < l" "l \<le> LENGTH('a)" "n < LENGTH('a)"
  shows "bit (sibling (base :: 'a::len word) l) n \<longleftrightarrow>
    (if n = LENGTH('a) - l then \<not> bit base n else LENGTH('a) - l \<le> n \<and> bit base n)"
  using assms by (auto simp: sibling_def bit_xor_iff bit_and_iff bit_hi_mask bit_exp_iff)

lemma agree_sibling:
  assumes "p < LENGTH('a)"
  shows "agree (Suc p) a (sibling (base :: 'a::len word) (Suc p)) \<longleftrightarrow> agree p a base \<and> \<not> agree (Suc p) a base"
proof -
  have s: "bit (sibling base (Suc p)) n \<longleftrightarrow>
      (if n = LENGTH('a) - Suc p then \<not> bit base n else LENGTH('a) - Suc p \<le> n \<and> bit base n)"
    if "n < LENGTH('a)" for n
    using bit_sibling [of "Suc p" n base] assms that by simp
  have "agree p a (sibling base (Suc p)) \<longleftrightarrow> agree p a base"
    unfolding agree_bits using assms s by (intro all_cong1) auto
  then show ?thesis unfolding agree_Suc [OF assms] using s [of "LENGTH('a) - Suc p"] by auto
qed

text \<open>The prefix lengths at which an address first leaves a base.\<close>

lemma agree_leaves:
  assumes "q \<le> LENGTH('a)" "p \<le> q"
  shows "(\<exists>l \<in> {Suc p..q}. agree l a (sibling (base :: 'a::len word) l)) \<longleftrightarrow> agree p a base \<and> \<not> agree q a base"
  using assms(2,1)
proof (induction q rule: dec_induct)
  case base
  then show ?case by simp
next
  case (step q)
  have "{Suc p..Suc q} = insert (Suc q) {Suc p..q}" using step.hyps by auto
  then have "(\<exists>l \<in> {Suc p..Suc q}. agree l a (sibling base l)) \<longleftrightarrow>
      agree q a base \<and> \<not> agree (Suc q) a base \<or> agree p a base \<and> \<not> agree q a base"
    using step by (simp add: agree_sibling)
  also have "\<dots> \<longleftrightarrow> agree p a base \<and> \<not> agree (Suc q) a base"
    using agree_mono [of q a base p] agree_mono [of "Suc q" a base q] step.hyps by auto
  finally show ?case .
qed

section \<open>Subtraction of a prefix\<close>

definition covers :: "('a::len word \<times> nat) list \<Rightarrow> 'a word \<Rightarrow> bool" where
  "covers nets a \<longleftrightarrow> (\<exists>(b, p) \<in> set nets. agree p a b)"

definition normal_nets :: "('a::len word \<times> nat) list \<Rightarrow> bool" where
  "normal_nets nets \<longleftrightarrow> (\<forall>(b, p) \<in> set nets. p \<le> LENGTH('a) \<and> b AND hi_mask p = b)"

definition subtract_one :: "'a::len word \<times> nat \<Rightarrow> 'a word \<Rightarrow> nat \<Rightarrow> ('a word \<times> nat) list" where
  "subtract_one net base prefix =
     (if prefix < snd net \<or> base AND hi_mask (snd net) \<noteq> fst net
      then (if \<not> (prefix \<le> snd net \<and> fst net AND hi_mask prefix = base AND hi_mask prefix) then [net] else [])
      else map (\<lambda>l. (sibling base l, l)) [Suc (snd net)..<Suc prefix])"

lemma subtract32_alt: "subtract32 nets base prefix = concat (map (\<lambda>net. subtract_one net base prefix) nets)"
  unfolding subtract32_def mask_hi
  by (rule arg_cong [where f = concat], rule map_cong [OF refl]) (auto simp: subtract_one_def sibling_def)

lemma subtract128_alt: "subtract128 nets base prefix = concat (map (\<lambda>net. subtract_one net base prefix) nets)"
  unfolding subtract128_def mask_hi
  by (rule arg_cong [where f = concat], rule map_cong [OF refl]) (auto simp: subtract_one_def sibling_def)

lemma subtract_one_covers:
  fixes base :: "'a::len word"
  assumes "normal_nets [net]" and "prefix \<le> LENGTH('a)"
  shows "covers (subtract_one net base prefix) a \<longleftrightarrow> covers [net] a \<and> \<not> agree prefix a base"
proof -
  obtain b p where net: "net = (b, p)" by (cases net)
  have b: "b AND hi_mask p = b" "p \<le> LENGTH('a)" using assms(1) by (auto simp: normal_nets_def net)
  show ?thesis
  proof (cases "prefix < p \<or> base AND hi_mask p \<noteq> b")
    case True
    have "agree p base b \<longleftrightarrow> base AND hi_mask p = b" using b(1) by (simp add: agree_def)
    moreover have "agree prefix a base \<and> agree p a b \<longleftrightarrow> agree p a b \<and> prefix \<le> p \<and> agree prefix b base"
    proof (cases "prefix \<le> p")
      case True
      then show ?thesis using agree_mono [of p a b prefix] agree_trans agree_sym by blast
    next
      case False
      then have "\<not> (agree prefix a base \<and> agree p a b)"
        using \<open>prefix < p \<or> _\<close> calculation agree_mono [of prefix a base p] agree_trans agree_sym by force
      then show ?thesis using False by simp
    qed
    ultimately show ?thesis
      using True by (auto simp: subtract_one_def net covers_def agree_def [of prefix b base])
  next
    case False
    then have *: "p \<le> prefix" "agree p a b \<longleftrightarrow> agree p a base" by auto
    have "covers (subtract_one net base prefix) a \<longleftrightarrow> (\<exists>l \<in> {Suc p..prefix}. agree l a (sibling base l))"
      using False by (auto simp: subtract_one_def net covers_def)
    then show ?thesis using * agree_leaves [OF assms(2) *(1), of a base] by (simp add: covers_def net)
  qed
qed

lemma sibling_normal: "0 < l \<Longrightarrow> l \<le> LENGTH('a) \<Longrightarrow> sibling (base :: 'a::len word) l AND hi_mask l = sibling base l"
  by (rule bit_word_eqI) (auto simp: bit_and_iff bit_hi_mask bit_sibling)

lemma subtract_one_normal:
  fixes base :: "'a::len word"
  assumes "normal_nets [net]" and "prefix \<le> LENGTH('a)"
  shows "normal_nets (subtract_one net base prefix)"
  using assms by (auto simp: normal_nets_def subtract_one_def sibling_normal)

lemma covers_concat: "covers (concat xss) a \<longleftrightarrow> (\<exists>xs \<in> set xss. covers xs a)"
  by (auto simp: covers_def)

lemma normal_concat: "normal_nets (concat xss) \<longleftrightarrow> (\<forall>xs \<in> set xss. normal_nets xs)"
  by (auto simp: normal_nets_def)

lemma subtract_all:
  fixes base :: "'a::len word"
  assumes "normal_nets nets" and "prefix \<le> LENGTH('a)"
  shows "covers (concat (map (\<lambda>net. subtract_one net base prefix) nets)) a \<longleftrightarrow> covers nets a \<and> \<not> agree prefix a base"
    and "normal_nets (concat (map (\<lambda>net. subtract_one net base prefix) nets))"
proof -
  have n: "normal_nets [net]" if "net \<in> set nets" for net using assms(1) that by (auto simp: normal_nets_def)
  have "covers nets a \<longleftrightarrow> (\<exists>net \<in> set nets. covers [net] a)" by (auto simp: covers_def)
  then show "covers (concat (map (\<lambda>net. subtract_one net base prefix) nets)) a \<longleftrightarrow> covers nets a \<and> \<not> agree prefix a base"
    using subtract_one_covers [OF n assms(2)] by (auto simp: covers_concat)
  show "normal_nets (concat (map (\<lambda>net. subtract_one net base prefix) nets))"
    using subtract_one_normal [OF n assms(2)] by (simp add: normal_concat)
qed

section \<open>The complement\<close>

text \<open>
  What the documentation of the \<open>ip_network\<close> crate says of its constructors: a network whose host
  bits are zero and whose prefix length fits the family is built, with that address and prefix.
\<close>

definition builds_v4 :: "(u32 \<Rightarrow> nat \<Rightarrow> ip_network option) \<Rightarrow> bool" where
  "builds_v4 new4 \<longleftrightarrow> (\<forall>b p. p \<le> 32 \<longrightarrow> b AND mask32 p = b \<longrightarrow> new4 b p = Some (NetV4 b p))"

definition builds_v6 :: "(u128 \<Rightarrow> nat \<Rightarrow> ip_network option) \<Rightarrow> bool" where
  "builds_v6 new6 \<longleftrightarrow> (\<forall>b p. p \<le> 128 \<longrightarrow> b AND mask128 p = b \<longrightarrow> new6 b p = Some (NetV6 b p))"

fun in_net :: "ip_addr \<Rightarrow> ip_network \<Rightarrow> bool" where
  "in_net (V4 a) (NetV4 b p) \<longleftrightarrow> in_v4 a (b, p)"
| "in_net (V6 a) (NetV6 b p) \<longleftrightarrow> in_v6 a (b, p)"
| "in_net _ _ \<longleftrightarrow> False"

fun net_ok :: "ip_network \<Rightarrow> bool" where
  "net_ok (NetV4 b p) \<longleftrightarrow> p \<le> 32"
| "net_ok (NetV6 b p) \<longleftrightarrow> p \<le> 128"

lemma complement_fold:
  assumes "normal_nets v4" "normal_nets v6" "\<And>n. n \<in> set ns \<Longrightarrow> net_ok n"
    and "foldl complement_step (v4, v6) ns = (w4, w6)"
  shows "normal_nets w4 \<and> normal_nets w6 \<and>
    (\<forall>a. covers w4 a \<longleftrightarrow> covers v4 a \<and> \<not> (\<exists>n \<in> set ns. in_net (V4 a) n)) \<and>
    (\<forall>a. covers w6 a \<longleftrightarrow> covers v6 a \<and> \<not> (\<exists>n \<in> set ns. in_net (V6 a) n))"
  using assms
proof (induction ns arbitrary: v4 v6)
  case (Cons n ns)
  show ?case
  proof (cases n)
    case (NetV4 b p)
    then have "p \<le> LENGTH(32)" using Cons.prems(3) [of n] by simp
    note sub = subtract_all [OF Cons.prems(1) this, of b, folded subtract32_alt]
    show ?thesis using Cons.IH [OF sub(2) Cons.prems(2)] Cons.prems(3,4) NetV4
      by (auto simp: sub(1) in_agree)
  next
    case (NetV6 b p)
    then have "p \<le> LENGTH(128)" using Cons.prems(3) [of n] by simp
    note sub = subtract_all [OF Cons.prems(2) this, of b, folded subtract128_alt]
    show ?thesis using Cons.IH [OF Cons.prems(1) sub(2)] Cons.prems(3,4) NetV6
      by (auto simp: sub(1) in_agree)
  qed
qed simp

lemma map_filter_new4:
  assumes "builds_v4 new4" and "normal_nets v4"
  shows "List.map_filter (\<lambda>(b, p). new4 b p) (sort v4) = map (\<lambda>(b, p). NetV4 b p) (sort v4)"
proof -
  have "List.map_filter (\<lambda>(b, p). new4 b p) xs = map (\<lambda>(b, p). NetV4 b p) xs"
    if "set xs \<subseteq> set v4" for xs
    using that
  proof (induction xs)
    case (Cons x xs)
    then have "new4 (fst x) (snd x) = Some (NetV4 (fst x) (snd x))"
      using assms by (cases x) (auto simp: builds_v4_def normal_nets_def mask_hi)
    then show ?case using Cons by (simp add: case_prod_beta List.map_filter_simps)
  qed (simp add: List.map_filter_simps)
  from this [of "sort v4"] show ?thesis by simp
qed

lemma map_filter_new6:
  assumes "builds_v6 new6" and "normal_nets v6"
  shows "List.map_filter (\<lambda>(b, p). new6 b p) (sort v6) = map (\<lambda>(b, p). NetV6 b p) (sort v6)"
proof -
  have "List.map_filter (\<lambda>(b, p). new6 b p) xs = map (\<lambda>(b, p). NetV6 b p) xs"
    if "set xs \<subseteq> set v6" for xs
    using that
  proof (induction xs)
    case (Cons x xs)
    then have "new6 (fst x) (snd x) = Some (NetV6 (fst x) (snd x))"
      using assms by (cases x) (auto simp: builds_v6_def normal_nets_def mask_hi)
    then show ?case using Cons by (simp add: case_prod_beta List.map_filter_simps)
  qed (simp add: List.map_filter_simps)
  from this [of "sort v6"] show ?thesis by simp
qed

lemma agree_common: "agree q b c \<or> agree p c b \<longleftrightarrow> (\<exists>a. agree p a b \<and> agree q a c)"
proof
  assume "\<exists>a. agree p a b \<and> agree q a c"
  then show "agree q b c \<or> agree p c b"
    using agree_mono [of q _ c p] agree_mono [of p _ b q] agree_trans agree_sym by (metis linear)
qed (use agree_refl in blast)

lemma overlaps_common:
  "overlaps_v4 n4 m4 \<longleftrightarrow> (\<exists>a. in_v4 a n4 \<and> in_v4 a m4)"
  "overlaps_v6 n6 m6 \<longleftrightarrow> (\<exists>a. in_v6 a n6 \<and> in_v6 a m6)"
proof -
  obtain b4 p4 c4 q4 where 4: "n4 = (b4, p4)" "m4 = (c4, q4)" by (cases n4, cases m4)
  show "overlaps_v4 n4 m4 \<longleftrightarrow> (\<exists>a. in_v4 a n4 \<and> in_v4 a m4)"
    unfolding 4 overlaps_v4_def fst_conv in_agree agree_common ..
  obtain b6 p6 c6 q6 where 6: "n6 = (b6, p6)" "m6 = (c6, q6)" by (cases n6, cases m6)
  show "overlaps_v6 n6 m6 \<longleftrightarrow> (\<exists>a. in_v6 a n6 \<and> in_v6 a m6)"
    unfolding 6 overlaps_v6_def fst_conv in_agree agree_common ..
qed

lemma overlaps_pool_common:
  "overlaps_tunnel_pool net \<longleftrightarrow> (\<exists>a. in_net a net \<and> is_tunnel_pool a)"
proof (cases net)
  case (NetV4 b p)
  then have "(\<exists>a. in_net a net \<and> is_tunnel_pool a) \<longleftrightarrow> (\<exists>x. in_v4 x (b, p) \<and> in_v4 x TUNNEL_POOL_V4)"
    by (metis in_net.elims(2) in_net.simps(1) ip_network.inject(1) is_tunnel_pool.simps(1) ip_network.distinct(1))
  then show ?thesis using NetV4 by (simp add: overlaps_common)
next
  case (NetV6 b p)
  then have "(\<exists>a. in_net a net \<and> is_tunnel_pool a) \<longleftrightarrow> (\<exists>x. in_v6 x (b, p) \<and> in_v6 x TUNNEL_POOL_V6)"
    by (metis in_net.elims(2) in_net.simps(2) ip_network.inject(2) is_tunnel_pool.simps(2) ip_network.distinct(1))
  then show ?thesis using NetV6 by (simp add: overlaps_common)
qed

lemma complement_covers:
  assumes "builds_v4 new4" and "builds_v6 new6" and "\<forall>n \<in> set exclude. net_ok n"
  shows "(\<exists>n \<in> set (complement new4 new6 exclude). in_net a n) \<longleftrightarrow> \<not> (\<exists>n \<in> set exclude. in_net a n)"
proof -
  obtain v4 v6 where f: "foldl complement_step ([(0, 0)], [(0, 0)]) exclude = (v4, v6)"
    by (cases "foldl complement_step ([(0, 0)], [(0, 0)]) exclude")
  have start: "normal_nets [(0 :: 'a::len word, 0)]" "covers [(0 :: 'b::len word, 0)] x" for x
    by (simp_all add: normal_nets_def covers_def)
  note r = complement_fold [OF start(1) start(1) _ f]
  have n: "normal_nets v4" "normal_nets v6" using r assms(3) by blast+
  have c: "complement new4 new6 exclude =
      map (\<lambda>(b, p). NetV4 b p) (sort v4) @ map (\<lambda>(b, p). NetV6 b p) (sort v6)"
    using f map_filter_new4 [OF assms(1) n(1)] map_filter_new6 [OF assms(2) n(2)] by (simp add: complement_def)
  show ?thesis
  proof (cases a)
    case (V4 x)
    then have "(\<exists>n \<in> set (complement new4 new6 exclude). in_net a n) \<longleftrightarrow> covers v4 x"
      unfolding c covers_def by (force simp: in_agree)
    then show ?thesis using r assms(3) V4 start(2) by blast
  next
    case (V6 x)
    then have "(\<exists>n \<in> set (complement new4 new6 exclude). in_net a n) \<longleftrightarrow> covers v6 x"
      unfolding c covers_def by (force simp: in_agree)
    then show ?thesis using r assms(3) V6 start(2) by blast
  qed
qed

lemma bit_small:
  assumes "unat (x :: 'a::len word) < 2 ^ h" and "h \<le> n"
  shows "\<not> bit x n"
proof -
  have "take_bit h (unat x) = unat x" using assms(1) by (simp add: take_bit_nat_eq_self_iff)
  then have "take_bit h x = x" by (simp add: word_unat_eq_iff unsigned_take_bit_eq)
  then show ?thesis using assms(2) by (metis bit_take_bit_iff linorder_not_le)
qed

lemma host_part:
  assumes "b AND hi_mask p = (b :: 'a::len word)" and "unat x < 2 ^ (LENGTH('a) - p)"
  shows "agree p (b OR x) b" and "bit (b OR x) n \<longleftrightarrow> (if n < LENGTH('a) - p then bit x n else bit b n)"
proof -
  have b: "\<not> bit b n" if "n < LENGTH('a) - p" for n
    using assms(1) that by (metis bit_and_iff bit_hi_mask linorder_not_le)
  have x: "\<not> bit x n" if "LENGTH('a) - p \<le> n" for n using bit_small [OF assms(2) that] .
  show "agree p (b OR x) b" using x by (auto simp: agree_bits bit_or_iff)
  show "bit (b OR x) n \<longleftrightarrow> (if n < LENGTH('a) - p then bit x n else bit b n)"
    using b x by (auto simp: bit_or_iff)
qed

lemma host_part_inj:
  assumes "b AND hi_mask p = (b :: 'a::len word)" and "unat x < 2 ^ (LENGTH('a) - p)" and "unat y < 2 ^ (LENGTH('a) - p)"
    and "b OR x = b OR y"
  shows "x = y"
proof (rule bit_word_eqI)
  fix n
  show "bit x n = bit y n"
    using host_part(2) [OF assms(1,2), of n] host_part(2) [OF assms(1,3), of n] assms(4)
      bit_small [OF assms(2), of n] bit_small [OF assms(3), of n] by (auto split: if_splits)
qed

lemma ucast_eq_iff: "(ucast x :: u128) = ucast y \<longleftrightarrow> x = (y :: u32)"
proof -
  have "unat z < 2 ^ 128" for z :: u32 by (rule less_trans [OF unsigned_less]) simp
  then show ?thesis by (simp add: word_unat_eq_iff unsigned_ucast_eq take_bit_nat_eq_self)
qed

lemma unat_ucast_index: "unat (ucast (j :: u32) :: u128) = unat j"
proof -
  have "unat j < 2 ^ 128" by (rule less_trans [OF unsigned_less]) simp
  then show ?thesis by (simp add: unsigned_ucast_eq take_bit_nat_eq_self)
qed

text \<open>The peer numbers a plan accepts: 2 up to the last but one of the IPv4 subnet.\<close>

lemma unat_last:
  "unat (if 32 \<le> 32 - p4 then - 1 else push_bit (32 - p4) 1 - 1 :: u32) = 2 ^ (32 - p4) - 1"
proof (cases "p4 = 0")
  case False
  have "unat (take_bit (32 - p4) (- 1) :: u32) = take_bit (32 - p4) (mask LENGTH(32))"
    by (simp only: unsigned_take_bit_eq unsigned_minus_1_eq_mask)
  then have "unat (mask (32 - p4) :: u32) = mask (32 - p4)" by (simp add: take_bit_of_mask min_def)
  moreover have "\<not> 32 \<le> 32 - p4" using False by simp
  ultimately show ?thesis by (simp add: mask_eq_exp_minus_1)
qed (simp add: unsigned_minus_1_eq_mask mask_eq_exp_minus_1)

lemma address_for_Ok_iff:
  "address_for p i = Ok (a4, a6) \<longleftrightarrow>
     2 \<le> unat i \<and> Suc (unat i) < 2 ^ (32 - snd (plan_v4 p)) \<and>
     a4 = fst (plan_v4 p) OR i \<and> a6 = fst (plan_v6 p) OR ucast i"
  unfolding address_for_def Let_def word_less_nat_alt word_le_nat_alt unat_last by auto

section \<open>Properties\<close>

text \<open>
  C29.  The complement is exact: an address lies in one of the networks it lists if and only if it
  lies in none of the excluded ones, for both families and whatever the exclusions (overlapping,
  nested or repeated).
\<close>

theorem complement_exact:
  assumes "builds_v4 new4" and "builds_v6 new6" and "\<forall>n \<in> set exclude. net_ok n"
  shows "(\<exists>n \<in> set (complement new4 new6 exclude). in_net a n) \<longleftrightarrow> \<not> (\<exists>n \<in> set exclude. in_net a n)"
  using assms by (rule complement_covers)

theorem complement_exact_witness:
  "(\<exists>n \<in> set (complement (\<lambda>b p. Some (NetV4 b p)) (\<lambda>b p. Some (NetV6 b p)) [NetV4 0x0a000000 8]). in_net (V4 0x08080808) n) \<and>
   \<not> (\<exists>n \<in> set (complement (\<lambda>b p. Some (NetV4 b p)) (\<lambda>b p. Some (NetV6 b p)) [NetV4 0x0a000000 8]). in_net (V4 0x0a010203) n)"
proof -
  have b: "builds_v4 (\<lambda>b p. Some (NetV4 b p))" "builds_v6 (\<lambda>b p. Some (NetV6 b p))"
    by (simp_all add: builds_v4_def builds_v6_def)
  have n: "\<forall>n \<in> set [NetV4 0x0a000000 8]. net_ok n" by simp
  show ?thesis
    unfolding complement_exact [OF b n] by (simp add: in_v4_def mask32_def mask_eq_exp_minus_1)
qed

text \<open>
  C30.  A network passes the tunnel-pool check, which compares base addresses only, exactly when no
  address belongs both to it and to the pool.
\<close>

theorem tunnel_pool_check_exact:
  "overlaps_tunnel_pool net \<longleftrightarrow> (\<exists>a. in_net a net \<and> is_tunnel_pool a)"
  by (rule overlaps_pool_common)

text \<open>
  C31.  A plan \<open>PeerPlan::new\<close> accepted numbers its peers soundly, when the IPv6 subnet has at least
  as many host bits as a peer number (a prefix of at most 96): the addresses of a peer lie in the
  two subnets and outside the tunnel pool, are neither the network nor the gateway address, and two
  peer numbers never share an address.
\<close>

theorem peer_addresses_sound:
  assumes plan: "plan_new (NetV4 b4 p4) (NetV6 b6 p6) = Ok plan"
    and net: "b4 AND mask32 p4 = b4" "b6 AND mask128 p6 = b6" and p6: "p6 \<le> 96"
    and i: "address_for plan i = Ok (a4, a6)"
  shows "in_v4 a4 (b4, p4) \<and> in_v6 a6 (b6, p6) \<and> \<not> is_tunnel_pool (V4 a4) \<and> \<not> is_tunnel_pool (V6 a6) \<and>
    a4 \<noteq> b4 \<and> a6 \<noteq> b6 \<and> \<not> plan_is_gateway plan (V4 a4) \<and> \<not> plan_is_gateway plan (V6 a6) \<and>
    (\<forall>j c4 c6. address_for plan j = Ok (c4, c6) \<and> (c4 = a4 \<or> c6 = a6) \<longrightarrow> j = i)"
proof -
  have pl: "plan = \<lparr>plan_v4 = (b4, p4), plan_v6 = (b6, p6)\<rparr>" "p4 \<le> 30"
      "\<not> overlaps_v4 (b4, p4) TUNNEL_POOL_V4" "\<not> overlaps_v6 (b6, p6) TUNNEL_POOL_V6"
    using plan by (auto simp: plan_new_def split: if_splits)
  have n: "b4 AND hi_mask p4 = b4" "b6 AND hi_mask p6 = b6" using net by (simp_all add: mask_hi)
  have small: "unat j < 2 ^ (LENGTH(32) - p4)" "unat (ucast j :: u128) < 2 ^ (LENGTH(128) - p6)"
      "\<not> j < 2" "c4 = b4 OR j" "c6 = b6 OR ucast j" if "address_for plan j = Ok (c4, c6)" for j c4 c6
  proof -
    show "unat j < 2 ^ (LENGTH(32) - p4)" "\<not> j < 2" "c4 = b4 OR j" "c6 = b6 OR ucast j"
      using that by (auto simp: address_for_Ok_iff pl word_less_nat_alt)
    have "unat j < 2 ^ 32" using unsigned_less [of j] by simp
    moreover have "(2 :: nat) ^ 32 \<le> 2 ^ (128 - p6)" using p6 by (intro power_increasing) auto
    ultimately show "unat (ucast j :: u128) < 2 ^ (LENGTH(128) - p6)" by (simp add: unat_ucast_index)
  qed
  note I = small [OF i]
  have inn: "in_v4 a4 (b4, p4)" "in_v6 a6 (b6, p6)"
    using host_part(1) [OF n(1) I(1)] host_part(1) [OF n(2) I(2)] by (simp_all add: in_agree I(4,5))
  have one: "unat (1 :: u32) < 2 ^ (LENGTH(32) - p4)" "unat (1 :: u128) < 2 ^ (LENGTH(128) - p6)"
    using pl(2) p6 one_less_power [of "2 :: nat" "32 - p4"] one_less_power [of "2 :: nat" "128 - p6"] by simp_all
  have zero: "unat (0 :: u32) < 2 ^ (LENGTH(32) - p4)" "unat (0 :: u128) < 2 ^ (LENGTH(128) - p6)" by simp_all
  have "i \<noteq> 1" "i \<noteq> 0" using I(3) by auto
  then have "a4 \<noteq> b4 OR 1" "a6 \<noteq> b6 OR 1" "a4 \<noteq> b4 OR 0" "a6 \<noteq> b6 OR 0"
    using host_part_inj [OF n(1) I(1) one(1)] host_part_inj [OF n(2) I(2) one(2)]
      host_part_inj [OF n(1) I(1) zero(1)] host_part_inj [OF n(2) I(2) zero(2)]
      ucast_eq_iff [of i 1] ucast_eq_iff [of i 0] I(4,5) by auto
  moreover have "j = i" if j: "address_for plan j = Ok (c4, c6)" and "c4 = a4 \<or> c6 = a6" for j c4 c6
    using that(2) host_part_inj [OF n(1) small(1) [OF j] I(1)] host_part_inj [OF n(2) small(2) [OF j] I(2)]
      small(4,5) [OF j] I(4,5) ucast_eq_iff by auto
  moreover have "\<not> is_tunnel_pool (V4 a4)" "\<not> is_tunnel_pool (V6 a6)"
    using inn pl(3,4) overlaps_common by auto
  ultimately show ?thesis
    using inn by (simp add: plan_is_gateway_def gateway_v4_def gateway_v6_def pl(1))
qed

theorem peer_addresses_sound_witness:
  "\<exists>plan a4 a6. plan_new (NetV4 0x0a430000 24) (NetV6 0xfd776172726500000000000000000000 64) = Ok plan \<and>
     address_for plan 5 = Ok (a4, a6) \<and> in_v4 a4 (0x0a430000, 24) \<and> \<not> is_tunnel_pool (V4 a4)"
proof -
  let ?plan = "\<lparr>plan_v4 = (0x0a430000, 24), plan_v6 = (0xfd776172726500000000000000000000, 64)\<rparr>"
  have p: "plan_new (NetV4 0x0a430000 24) (NetV6 0xfd776172726500000000000000000000 64) = Ok ?plan"
    by (simp add: plan_new_def overlaps_v4_def overlaps_v6_def in_v4_def in_v6_def mask32_def mask128_def
        TUNNEL_POOL_V4_def TUNNEL_POOL_V6_def mask_eq_exp_minus_1)
  have i: "address_for ?plan 5 = Ok (0x0a430005, 0xfd776172726500000000000000000005)"
    by (simp add: address_for_def)
  have n: "(0x0a430000 :: u32) AND mask32 24 = 0x0a430000"
    "(0xfd776172726500000000000000000000 :: u128) AND mask128 64 = 0xfd776172726500000000000000000000"
    by (simp_all add: mask32_def mask128_def mask_eq_exp_minus_1)
  have le: "(64 :: nat) \<le> 96" by simp
  show ?thesis using peer_addresses_sound [OF p n le i] p i by blast
qed

lemma v6_host_iff:
  assumes net: "b6 AND hi_mask p6 = (b6 :: u128)" and p4: "p4 \<le> 30" and p6: "p6 \<le> 128"
  shows "(\<forall>i :: u32. 2 \<le> unat i \<and> Suc (unat i) < 2 ^ (32 - p4) \<longrightarrow>
      agree p6 (b6 OR ucast i) b6 \<and> b6 OR ucast i \<noteq> b6) \<longleftrightarrow> p6 \<le> 96 + p4"
    (is "?all \<longleftrightarrow> _")
proof
  assume le: "p6 \<le> 96 + p4"
  show ?all
  proof (intro allI impI)
    fix i :: u32 assume i: "2 \<le> unat i \<and> Suc (unat i) < 2 ^ (32 - p4)"
    have "(2 :: nat) ^ (32 - p4) \<le> 2 ^ (128 - p6)" using le p6 by (intro power_increasing) auto
    with i have "unat i < 2 ^ (128 - p6)" by linarith
    then have small: "unat (ucast i :: u128) < 2 ^ (LENGTH(128) - p6)" by (simp add: unat_ucast_index)
    have "i \<noteq> 0" using i by auto
    then show "agree p6 (b6 OR ucast i) b6 \<and> b6 OR ucast i \<noteq> b6"
      using host_part(1) [OF net small] host_part_inj [OF net small, of 0] ucast_eq_iff [of i 0] by auto
  qed
next
  assume all: ?all
  show "p6 \<le> 96 + p4"
  proof (rule ccontr)
    assume gt: "\<not> p6 \<le> 96 + p4"
    define k where "k = max 1 (128 - p6)"
    have k: "1 \<le> k" "k < 32 - p4" "128 - p6 \<le> k" "k < 32" using gt p4 by (auto simp: k_def)
    let ?i = "2 ^ k :: u32"
    have "(2 :: nat) ^ k < 2 ^ LENGTH(32)" using k(4) by (intro power_strict_increasing) simp_all
    then have "take_bit LENGTH(32) (push_bit k (1 :: nat)) = 2 ^ k"
      by (simp only: push_bit_eq_mult mult_1 take_bit_nat_eq_self)
    then have "unat (push_bit k 1 :: u32) = 2 ^ k" by (simp only: unsigned_push_bit_eq unsigned_1)
    then have u: "unat ?i = 2 ^ k" by simp
    have "(2 :: nat) ^ k + 2 ^ k \<le> 2 ^ (32 - p4)"
      using power_increasing [of "Suc k" "32 - p4" "2 :: nat"] k(2) by simp
    moreover have "(2 :: nat) \<le> 2 ^ k" using power_increasing [of 1 k "2 :: nat"] k(1) by simp
    ultimately have a: "agree p6 (b6 OR ucast ?i) b6" "b6 OR ucast ?i \<noteq> b6"
      using all [rule_format, of ?i] u by auto
    have bits: "bit (ucast ?i :: u128) n \<longleftrightarrow> n = k" for n
      using k(4) by (auto simp: bit_ucast_iff bit_exp_iff)
    have "bit b6 k" using a(1) k(3,4) bits [of k] by (auto simp: agree_bits bit_or_iff)
    then have "b6 OR ucast ?i = b6" by (intro bit_word_eqI) (auto simp: bit_or_iff bits)
    with a(2) show False ..
  qed
qed

text \<open>
  C32.  The exact condition on a plan's IPv6 subnet, which \<open>PeerPlan::new\<close> does not check: every peer
  number the plan accepts gets an IPv6 address inside the subnet and other than its network address
  if and only if the IPv6 subnet has at least as many host bits as the IPv4 one.
\<close>

theorem v6_addresses_inside_iff:
  assumes plan: "plan_new (NetV4 b4 p4) (NetV6 b6 p6) = Ok plan"
    and net: "b6 AND mask128 p6 = b6" and p6: "p6 \<le> 128"
  shows "(\<forall>i a4 a6. address_for plan i = Ok (a4, a6) \<longrightarrow> in_v6 a6 (b6, p6) \<and> a6 \<noteq> b6) \<longleftrightarrow>
    32 - p4 \<le> 128 - p6"
proof -
  have pl: "plan = \<lparr>plan_v4 = (b4, p4), plan_v6 = (b6, p6)\<rparr>" "p4 \<le> 30"
    using plan by (auto simp: plan_new_def split: if_splits)
  have "32 - p4 \<le> 128 - p6 \<longleftrightarrow> p6 \<le> 96 + p4" using pl(2) p6 by linarith
  then show ?thesis
    using v6_host_iff [OF net [unfolded mask_hi] pl(2) p6] by (simp add: address_for_Ok_iff pl(1) in_agree)
qed

theorem v6_addresses_inside_iff_witness:
  "\<exists>plan i a4 a6. plan_new (NetV4 0x0a430000 24) (NetV6 0xfd776172726500000000000000000000 124) = Ok plan \<and>
     address_for plan i = Ok (a4, a6) \<and>
     \<not> (in_v6 a6 (0xfd776172726500000000000000000000, 124) \<and> a6 \<noteq> 0xfd776172726500000000000000000000)"
proof -
  let ?b6 = "0xfd776172726500000000000000000000 :: u128"
  let ?plan = "\<lparr>plan_v4 = (0x0a430000, 24), plan_v6 = (?b6, 124)\<rparr>"
  have p: "plan_new (NetV4 0x0a430000 24) (NetV6 ?b6 124) = Ok ?plan"
    by (simp add: plan_new_def overlaps_v4_def overlaps_v6_def in_v4_def in_v6_def mask32_def mask128_def
        TUNNEL_POOL_V4_def TUNNEL_POOL_V6_def mask_eq_exp_minus_1)
  have n: "?b6 AND mask128 124 = ?b6" by (simp add: mask128_def mask_eq_exp_minus_1)
  have "\<not> (32 - 24 \<le> 128 - (124 :: nat))" by simp
  then show ?thesis using v6_addresses_inside_iff [OF p n] p by auto
qed

end
