(* ===== verification/Icmp.thy ===== *)
theory Icmp
  imports Ip
begin

text \<open>
  \<open>warren-bolthole-core/src/icmp.rs\<close>: the ICMP messages the gateway writes itself (echo replies and
  unreachables) and the rewrite of the packet an ICMP error quotes.  The checksum primitives of the
  engine are the fields of the record \<open>engine\<close>; the theorems assume of them what their
  documentation says (\<open>engine_sums\<close> below).
\<close>

unbundle bit_operations_syntax

section \<open>Definitions\<close>

record engine =
  eng_inc :: incr
  eng_checksum :: "u32 \<Rightarrow> bytes \<Rightarrow> u16"
  eng_pseudo :: "ip_addr \<Rightarrow> ip_addr \<Rightarrow> u32 \<Rightarrow> u32"

definition ICMPV6_MAX :: nat where "ICMPV6_MAX = 1280"

record error_quote =
  eq_inner_offset :: nat
  eq_inner :: ip_header
  eq_ports :: "(u16 \<times> u16) option"
  eq_echo_id :: "u16 option"

definition quote_port :: "error_quote \<Rightarrow> side \<Rightarrow> u16 option" where
  "quote_port q side =
     (case (eq_ports q, side) of
        (Some (src, _), Source) \<Rightarrow> Some src
      | (Some (_, dst), Destination) \<Rightarrow> Some dst
      | (None, _) \<Rightarrow> eq_echo_id q)"

text \<open>The standard library's tests on \<open>Ipv4Addr\<close> and \<open>Ipv6Addr\<close>.\<close>

definition v4_is_multicast :: "u32 \<Rightarrow> bool" where
  "v4_is_multicast a \<longleftrightarrow> drop_bit 28 a = 0xe"
definition v4_is_broadcast :: "u32 \<Rightarrow> bool" where
  "v4_is_broadcast a \<longleftrightarrow> a = 0xffffffff"
definition v4_is_loopback :: "u32 \<Rightarrow> bool" where
  "v4_is_loopback a \<longleftrightarrow> drop_bit 24 a = 127"
definition v6_is_multicast :: "u128 \<Rightarrow> bool" where
  "v6_is_multicast a \<longleftrightarrow> drop_bit 120 a = 0xff"

definition unicast_v4 :: "u32 \<Rightarrow> bool" where
  "unicast_v4 a \<longleftrightarrow> \<not> (v4_is_multicast a \<or> v4_is_broadcast a \<or> a = 0 \<or> v4_is_loopback a)"

definition unicast_v6 :: "u128 \<Rightarrow> bool" where
  "unicast_v6 a \<longleftrightarrow> \<not> (v6_is_multicast a \<or> a = 0 \<or> a = 1)"

text \<open>
  The frames of the messages the gateway builds: the result is \<open>Err ()\<close> where the source returns
  \<open>None\<close>.  The indexing writes panic on a body too short for its checksum field.
\<close>

definition frame_v4 :: "engine \<Rightarrow> u32 \<Rightarrow> u32 \<Rightarrow> bytes \<Rightarrow> (unit, bytes) res" where
  "frame_v4 e src dst body =
     (let total = IPV4_MIN_HEADER + length body in
      if 65535 < total then Err ()
      else
        write_sub (replicate total 0) 0 [0x45] (\<lambda>pkt.
        write_sub pkt 2 (to_be16 (word_of_nat total)) (\<lambda>pkt.
        write_sub pkt 8 [64] (\<lambda>pkt.
        write_sub pkt 9 [PROTO_ICMPV4] (\<lambda>pkt.
        write_sub pkt 12 (octets (V4 src)) (\<lambda>pkt.
        write_sub pkt 16 (octets (V4 dst)) (\<lambda>pkt.
        with_sub pkt 0 IPV4_MIN_HEADER (\<lambda>head.
        write_sub pkt 10 (to_be16 (eng_checksum e 0 head)) (\<lambda>pkt.
        write_sub pkt IPV4_MIN_HEADER body (\<lambda>pkt.
        with_sub pkt IPV4_MIN_HEADER (length body) (\<lambda>msg.
        write_sub pkt (IPV4_MIN_HEADER + 2) (to_be16 (eng_checksum e 0 msg)) Ok)))))))))))"

definition frame_v6 :: "engine \<Rightarrow> u128 \<Rightarrow> u128 \<Rightarrow> bytes \<Rightarrow> (unit, bytes) res" where
  "frame_v6 e src dst body =
     (if 65535 < length body then Err ()
      else
        let payload = length body in
        write_sub (replicate (IPV6_HEADER + payload) 0) 0 [0x60] (\<lambda>pkt.
        write_sub pkt 4 (to_be16 (word_of_nat payload)) (\<lambda>pkt.
        write_sub pkt 6 [PROTO_ICMPV6] (\<lambda>pkt.
        write_sub pkt 7 [64] (\<lambda>pkt.
        write_sub pkt 8 (octets (V6 src)) (\<lambda>pkt.
        write_sub pkt 24 (octets (V6 dst)) (\<lambda>pkt.
        write_sub pkt IPV6_HEADER body (\<lambda>pkt.
        let seed = eng_pseudo e (V6 src) (V6 dst) (word_of_nat payload) in
        with_sub pkt IPV6_HEADER payload (\<lambda>msg.
        write_sub pkt (IPV6_HEADER + 2) (to_be16 (eng_checksum e seed msg)) Ok)))))))))"

definition build_echo_reply_v4 :: "engine \<Rightarrow> bytes \<Rightarrow> (unit, bytes) res" where
  "build_echo_reply_v4 e request =
     attempt (parse_ip request) (\<lambda>_. ()) (\<lambda>hdr.
       case (ip_src hdr, ip_dst hdr) of
         (V4 src, V4 dst) \<Rightarrow>
           if ip_protocol hdr \<noteq> PROTO_ICMPV4 \<or> \<not> unicast_v4 src then Err ()
           else attempt (ok_or (slice_get request (ip_l4_offset hdr) (ip_total_len hdr)) ()) id (\<lambda>msg.
             if length msg < 8 then Err ()
             else with_nth msg 0 (\<lambda>kind.
               if kind \<noteq> ICMPV4_ECHO_REQUEST then Err ()
               else write_sub msg 0 [ICMPV4_ECHO_REPLY] (\<lambda>body.
                    write_sub body 2 [0] (\<lambda>body. write_sub body 3 [0] (\<lambda>body.
                    frame_v4 e dst src body)))))
       | _ \<Rightarrow> Err ())"

definition build_echo_reply_v6 :: "engine \<Rightarrow> bytes \<Rightarrow> (unit, bytes) res" where
  "build_echo_reply_v6 e request =
     attempt (parse_ip request) (\<lambda>_. ()) (\<lambda>hdr.
       case (ip_src hdr, ip_dst hdr) of
         (V6 src, V6 dst) \<Rightarrow>
           if ip_protocol hdr \<noteq> PROTO_ICMPV6 \<or> \<not> unicast_v6 src then Err ()
           else attempt (ok_or (slice_get request (ip_l4_offset hdr) (ip_total_len hdr)) ()) id (\<lambda>msg.
             if length msg < 8 then Err ()
             else with_nth msg 0 (\<lambda>kind.
               if kind \<noteq> ICMPV6_ECHO_REQUEST then Err ()
               else write_sub msg 0 [ICMPV6_ECHO_REPLY] (\<lambda>body.
                    write_sub body 2 [0] (\<lambda>body. write_sub body 3 [0] (\<lambda>body.
                    frame_v6 e dst src body)))))
       | _ \<Rightarrow> Err ())"

definition quotes_an_error :: "bytes \<Rightarrow> ip_header \<Rightarrow> bool" where
  "quotes_an_error pkt hdr =
     (case nth_get pkt (ip_l4_offset hdr) of
        None \<Rightarrow> False
      | Some kind \<Rightarrow> is_icmp_error (ip_protocol hdr) kind)"

definition build_unreachable_v4 :: "engine \<Rightarrow> bytes \<Rightarrow> u32 \<Rightarrow> (unit, bytes) res" where
  "build_unreachable_v4 e offending source =
     attempt (parse_ip offending) (\<lambda>_. ()) (\<lambda>hdr.
       case ip_src hdr of
         V4 dst \<Rightarrow>
           if \<not> unicast_v4 dst \<or> quotes_an_error offending hdr then Err ()
           else
             let quote_len = min (ip_l4_offset hdr + 8) (ip_total_len hdr) in
             attempt (ok_or (slice_get offending 0 quote_len) ()) id (\<lambda>quote.
               write_sub (replicate (8 + length quote) 0) 0 [3] (\<lambda>body.
               write_sub body 1 [1] (\<lambda>body.
               write_sub body 8 quote (\<lambda>body.
               frame_v4 e source dst body))))
       | V6 _ \<Rightarrow> Err ())"

definition build_unreachable_v6 :: "engine \<Rightarrow> bytes \<Rightarrow> u128 \<Rightarrow> (unit, bytes) res" where
  "build_unreachable_v6 e offending source =
     attempt (parse_ip offending) (\<lambda>_. ()) (\<lambda>hdr.
       case ip_src hdr of
         V6 dst \<Rightarrow>
           if \<not> unicast_v6 dst \<or> quotes_an_error offending hdr then Err ()
           else
             let quote_len = min (ip_total_len hdr) (ICMPV6_MAX - IPV6_HEADER - 8) in
             attempt (ok_or (slice_get offending 0 quote_len) ()) id (\<lambda>quote.
               write_sub (replicate (8 + length quote) 0) 0 [1] (\<lambda>body.
               write_sub body 1 [0] (\<lambda>body.
               write_sub body 8 quote (\<lambda>body.
               frame_v6 e source dst body))))
       | V4 _ \<Rightarrow> Err ())"

text \<open>The ports or the echo identifier of a quoted packet, as far as the quote reaches.\<close>

definition quote_ids :: "bytes \<Rightarrow> ip_header \<Rightarrow> (packet_error, (u16 \<times> u16) option \<times> u16 option) res" where
  "quote_ids quote inner =
     (if ip_protocol inner = PROTO_TCP \<or> ip_protocol inner = PROTO_UDP then
        (case read_ports quote (ip_l4_offset inner) of
           Ok ports \<Rightarrow> Ok (Some ports, None)
         | Err _ \<Rightarrow> Ok (None, None)
         | Panic \<Rightarrow> Panic)
      else if is_icmp (ip_protocol inner) then
        attempt (read_icmp quote (ip_l4_offset inner)) id (\<lambda>icmp.
          Ok (None, if is_echo (ip_protocol inner) (icmp_kind icmp) then icmp_echo_id icmp else None))
      else Ok (None, None))"

definition parse_error_quote :: "bytes \<Rightarrow> ip_header \<Rightarrow> (packet_error, error_quote) res" where
  "parse_error_quote pkt outer =
     attempt (read_icmp pkt (ip_l4_offset outer)) id (\<lambda>head.
       if \<not> is_icmp_error (ip_protocol outer) (icmp_kind head) then Err NotAnIcmpError
       else
         let inner_offset = ip_l4_offset outer + 8 in
         attempt (ok_or (slice_get pkt inner_offset (ip_total_len outer)) Truncated) id (\<lambda>quote.
         attempt (parse_ip_quote quote) id (\<lambda>inner.
         attempt (quote_ids quote inner) id (\<lambda>(ports, echo_id).
         Ok \<lparr>eq_inner_offset = inner_offset, eq_inner = inner, eq_ports = ports, eq_echo_id = echo_id\<rparr>))))"

definition recompute_icmp_checksum :: "engine \<Rightarrow> bytes \<Rightarrow> ip_header \<Rightarrow> (packet_error \<times> bytes, bytes) res" where
  "recompute_icmp_checksum e pkt outer =
     (let l4 = ip_l4_offset outer; total = ip_total_len outer; ck_at = l4 + 2;
          finish = (\<lambda>seed.
            write_sub pkt ck_at [0] (\<lambda>pkt. write_sub pkt (ck_at + 1) [0] (\<lambda>pkt.
            with_sub pkt l4 (total - l4) (\<lambda>msg.
            write_sub pkt ck_at (to_be16 (eng_checksum e seed msg)) Ok))))
      in if length pkt < total \<or> total < l4 + 4 then Err (Truncated, pkt)
         else if ip_protocol outer = PROTO_ICMPV4 \<and> \<not> is_v6 outer then finish 0
         else if ip_protocol outer = PROTO_ICMPV6 \<and> is_v6 outer then
           with_sub pkt 8 16 (\<lambda>src. with_sub pkt 24 16 (\<lambda>dst.
             if 2 ^ 32 \<le> total - l4 then Err (Truncated, pkt)
             else finish (eng_pseudo e (v6_from src) (v6_from dst) (word_of_nat (total - l4)))))
         else Err (UnsupportedProtocol, pkt))"

definition quote_checksum :: "u8 \<Rightarrow> (nat \<times> bool) option" where
  "quote_checksum protocol =
     (if protocol = PROTO_TCP then Some (16, True)
      else if protocol = PROTO_UDP then Some (6, True)
      else if protocol = PROTO_ICMPV4 then Some (2, False)
      else if protocol = PROTO_ICMPV6 then Some (2, True)
      else None)"

definition quote_port_at ::
  "bytes \<Rightarrow> u8 \<Rightarrow> nat \<Rightarrow> nat \<Rightarrow> side \<Rightarrow> u16 option \<Rightarrow> (packet_error, nat option) res" where
  "quote_port_at pkt protocol l4 end side port =
     (if port = None then Ok None
      else if is_icmp protocol then
        attempt (ok_or (nth_get pkt l4) Truncated) id (\<lambda>kind.
          if \<not> is_echo protocol kind then Err NotAnEcho
          else if end < l4 + 6 then Err Truncated
          else Ok (Some (l4 + 4)))
      else if end < l4 + 4 then Err Truncated
      else Ok (Some (case side of Source \<Rightarrow> l4 | Destination \<Rightarrow> l4 + 2)))"

definition rewrite_error_quote ::
  "engine \<Rightarrow> bytes \<Rightarrow> ip_header \<Rightarrow> error_quote \<Rightarrow> side \<Rightarrow> ip_addr \<Rightarrow> u16 option \<Rightarrow>
     (packet_error \<times> bytes, bytes) res" where
  "rewrite_error_quote e pkt outer quote side addr port =
     (let inner = eq_inner quote; base = eq_inner_offset quote; end = base + ip_total_len inner;
          l4 = base + ip_l4_offset inner; inc = eng_inc e
      in if is_ipv6 addr \<noteq> is_v6 inner then Err (FamilyMismatch, pkt)
         else if length pkt < ip_total_len outer then Err (Truncated, pkt)
         else if ip_total_len outer < end then Err (Truncated, pkt)
         else attempt (ok_or (quote_checksum (ip_protocol inner)) UnsupportedProtocol) (\<lambda>err. (err, pkt))
           (\<lambda>(ck_at, pseudo).
           attempt (quote_port_at pkt (ip_protocol inner) l4 end side port) (\<lambda>err. (err, pkt)) (\<lambda>pat.
           let at = base + addr_at (is_v6 inner) side in
           if end < at + addr_len (is_v6 inner) then Err (Truncated, pkt)
           else
             let ck_reachable = (l4 + ck_at + 2 \<le> end);
                 continue = (\<lambda>ck.
                   let keep = (ip_protocol inner = PROTO_UDP \<and> \<not> is_v6 inner \<and> ck_reachable \<and> ck = 0);
                       patch = (ck_reachable \<and> \<not> keep)
                   in write_addr inc pkt (base + 10) at addr (patch \<and> pseudo) ck (\<lambda>pkt ck.
                      write_port inc pkt pat port patch ck (\<lambda>pkt ck.
                      if patch
                      then write_sub pkt (l4 + ck_at) (to_be16 ck) (\<lambda>pkt. recompute_icmp_checksum e pkt outer)
                      else recompute_icmp_checksum e pkt outer)))
             in if ck_reachable then with_u16 pkt (l4 + ck_at) continue else continue 0)))"

section \<open>Writing inside a slice\<close>

lemma sub_sub: "a + m \<le> n \<Longrightarrow> sub a m (sub b n xs) = sub (b + a) m xs"
  by (simp add: sub_def drop_take add.commute min_absorb1)

lemma rd16_sub: "Suc i < n \<Longrightarrow> b + n \<le> length xs \<Longrightarrow> rd16 (sub b n xs) i = rd16 xs (b + i)"
  by (simp add: rd16_def)

lemma sub_overwrite_at: "b + length ys \<le> length xs \<Longrightarrow> n = length ys \<Longrightarrow> sub b n (overwrite xs b ys) = ys"
  by (simp add: slice_simps)

lemma overwrite_shift:
  assumes "b + n \<le> length xs" and "a + length ys \<le> n"
  shows "overwrite xs (b + a) ys = overwrite xs b (overwrite (sub b n xs) a ys)"
  using assms by (intro nth_equalityI) (auto simp: nth_overwrite)

lemma overwrite_twice: "length ys = length zs \<Longrightarrow> b + length ys \<le> length xs \<Longrightarrow>
    overwrite (overwrite xs b ys) b zs = overwrite xs b zs"
  by (intro nth_equalityI) (auto simp: nth_overwrite)

lemma overwrite_sub_same: "b + n \<le> length xs \<Longrightarrow> overwrite xs b (sub b n xs) = xs"
  by simp

lemma after_addr_shift:
  assumes "b + n \<le> length xs" and "at + addr_len (is_ipv6 addr) \<le> n" and "hck + 2 \<le> n"
  shows "after_addr inc xs (b + hck) (b + at) addr = overwrite xs b (after_addr inc (sub b n xs) hck at addr)"
proof -
  let ?Q = "sub b n xs" and ?l = "addr_len (is_ipv6 addr)"
  have lq: "length ?Q = n" using assms(1) by simp
  have o: "overwrite xs (b + at) (octets addr) = overwrite xs b (overwrite ?Q at (octets addr))"
    using assms by (intro overwrite_shift) simp_all
  have s: "sub (b + at) ?l xs = sub at ?l ?Q" using assms(2) by (simp add: sub_sub)
  let ?o = "overwrite ?Q at (octets addr)"
  have lo: "length ?o = n" using assms by simp
  have q: "sub b n (overwrite xs b ?o) = ?o" using assms(1) lo by (intro sub_overwrite_at) simp_all
  have lx: "b + n \<le> length (overwrite xs b ?o)" using assms(1) lo by simp
  have r: "rd16 (overwrite xs b ?o) (b + hck) = rd16 ?o hck"
    using rd16_sub [of hck n b "overwrite xs b ?o"] assms(3) lx q by simp
  have w: "overwrite (overwrite xs b ?o) (b + hck) (to_be16 w) = overwrite xs b (overwrite ?o hck (to_be16 w))" for w
    using overwrite_shift [OF lx, of hck "to_be16 w"] assms(1,3) lo by (simp add: q overwrite_twice)
  show ?thesis by (simp add: after_addr_def Let_def o s r w)
qed

section \<open>The quoted packet\<close>

text \<open>
  The quote located by \<open>parse_error_quote\<close>: its bytes are the slice from its offset to the end of
  the outer packet, and its header is well formed in that slice.
\<close>

definition quote_bytes :: "bytes \<Rightarrow> ip_header \<Rightarrow> bytes" where
  "quote_bytes pkt outer = sub (ip_l4_offset outer + 8) (ip_total_len outer - (ip_l4_offset outer + 8)) pkt"

lemma quote_ids_no_panic [simp]: "quote_ids quote inner \<noteq> Panic"
  by (auto simp: quote_ids_def attempt_eq_Panic split: res.splits)

lemma parse_error_quote_no_panic [simp]: "parse_error_quote pkt outer \<noteq> Panic"
  by (auto simp: parse_error_quote_def Let_def attempt_eq_Panic parse_ip_quote_def split: if_splits)

lemma read_icmp_Ok:
  "read_icmp pkt l4 = Ok h \<longleftrightarrow> l4 + 4 \<le> length pkt \<and>
     h = \<lparr>icmp_kind = pkt ! l4, icmp_code = pkt ! Suc l4,
          icmp_echo_id = (if pkt ! l4 \<in> {ICMPV4_ECHO_REPLY, ICMPV4_ECHO_REQUEST, ICMPV6_ECHO_REQUEST, ICMPV6_ECHO_REPLY}
                             \<and> l4 + 6 \<le> length pkt then Some (rd16 pkt (l4 + 4)) else None)\<rparr>"
  by (auto simp: read_icmp_def attempt_eq_Ok slice_get_def rd16_def)

lemma parse_error_quote_Ok_iff:
  "parse_error_quote pkt outer = Ok q \<longleftrightarrow>
     is_icmp_error (ip_protocol outer) (pkt ! ip_l4_offset outer) \<and>
     ip_l4_offset outer + 8 \<le> ip_total_len outer \<and> ip_total_len outer \<le> length pkt \<and>
     eq_inner_offset q = ip_l4_offset outer + 8 \<and>
     parse (quote_bytes pkt outer) True = Ok (eq_inner q) \<and>
     quote_ids (quote_bytes pkt outer) (eq_inner q) = Ok (eq_ports q, eq_echo_id q)"
proof
  assume "parse_error_quote pkt outer = Ok q"
  then show "is_icmp_error (ip_protocol outer) (pkt ! ip_l4_offset outer) \<and>
     ip_l4_offset outer + 8 \<le> ip_total_len outer \<and> ip_total_len outer \<le> length pkt \<and>
     eq_inner_offset q = ip_l4_offset outer + 8 \<and>
     parse (quote_bytes pkt outer) True = Ok (eq_inner q) \<and>
     quote_ids (quote_bytes pkt outer) (eq_inner q) = Ok (eq_ports q, eq_echo_id q)"
    by (auto simp: parse_error_quote_def Let_def attempt_eq_Ok slice_get_Some parse_ip_quote_def quote_bytes_def
        read_icmp_Ok split: if_splits)
next
  assume *: "is_icmp_error (ip_protocol outer) (pkt ! ip_l4_offset outer) \<and>
     ip_l4_offset outer + 8 \<le> ip_total_len outer \<and> ip_total_len outer \<le> length pkt \<and>
     eq_inner_offset q = ip_l4_offset outer + 8 \<and>
     parse (quote_bytes pkt outer) True = Ok (eq_inner q) \<and>
     quote_ids (quote_bytes pkt outer) (eq_inner q) = Ok (eq_ports q, eq_echo_id q)"
  then have "ip_l4_offset outer + 4 \<le> length pkt" by linarith
  then obtain h where "read_icmp pkt (ip_l4_offset outer) = Ok h" "icmp_kind h = pkt ! ip_l4_offset outer"
    by (simp add: read_icmp_Ok)
  then show "parse_error_quote pkt outer = Ok q"
    using * by (cases q) (simp add: parse_error_quote_def Let_def parse_ip_quote_def quote_bytes_def)
qed

lemmas parse_error_quote_Ok = parse_error_quote_Ok_iff [THEN iffD1]

section \<open>The quote rewrite as field writes in the quote\<close>

definition quote_ready ::
  "bytes \<Rightarrow> ip_header \<Rightarrow> side \<Rightarrow> ip_addr \<Rightarrow> u16 option \<Rightarrow> nat \<Rightarrow> bool \<Rightarrow> nat option \<Rightarrow> bool" where
  "quote_ready Q inner side addr port ck_at pseudo pat \<longleftrightarrow>
     is_ipv6 addr = is_v6 inner \<and> quote_checksum (ip_protocol inner) = Some (ck_at, pseudo) \<and>
     quote_port_at Q (ip_protocol inner) (ip_l4_offset inner) (ip_total_len inner) side port = Ok pat"

definition quote_patch :: "bytes \<Rightarrow> ip_header \<Rightarrow> nat \<Rightarrow> bool" where
  "quote_patch Q inner ck_at \<longleftrightarrow>
     ip_l4_offset inner + ck_at + 2 \<le> ip_total_len inner \<and>
     \<not> (ip_protocol inner = PROTO_UDP \<and> \<not> is_v6 inner \<and> rd16 Q (ip_l4_offset inner + ck_at) = 0)"

definition quote_rewritten ::
  "incr \<Rightarrow> bytes \<Rightarrow> ip_header \<Rightarrow> side \<Rightarrow> ip_addr \<Rightarrow> u16 option \<Rightarrow> nat \<Rightarrow> bool \<Rightarrow> nat option \<Rightarrow> bytes" where
  "quote_rewritten inc Q inner side addr port ck_at pseudo pat =
     (let at = addr_at (is_v6 inner) side;
          p = after_port (after_addr inc Q 10 at addr) pat port
      in if quote_patch Q inner ck_at
         then overwrite p (ip_l4_offset inner + ck_at)
           (to_be16 (new_ck inc Q at addr pat port pseudo (rd16 Q (ip_l4_offset inner + ck_at))))
         else p)"

lemma quote_checksum_Some:
  assumes "quote_checksum proto = Some (ck_at, pseudo)"
  shows "even ck_at" "is_icmp proto \<Longrightarrow> ck_at = 2" "\<not> is_icmp proto \<Longrightarrow> 6 \<le> ck_at" "2 \<le> ck_at"
    "\<not> is_icmp proto \<longleftrightarrow> proto = PROTO_TCP \<or> proto = PROTO_UDP"
  using assms by (auto simp: quote_checksum_def is_icmp_def proto_defs split: if_splits)

lemma quote_port_at_no_panic [simp]: "quote_port_at pkt proto l4 n side port \<noteq> Panic"
  by (auto simp: quote_port_at_def attempt_eq_Panic)

lemma quote_port_at_Ok:
  assumes "quote_port_at Q proto l4 n side port = Ok (Some at)"
  shows "port \<noteq> None" "l4 \<le> at" "at + 2 \<le> n"
    "is_icmp proto \<Longrightarrow> at = l4 + 4 \<and> is_echo proto (Q ! l4)"
    "\<not> is_icmp proto \<Longrightarrow> at = (case side of Source \<Rightarrow> l4 | Destination \<Rightarrow> l4 + 2) \<and> l4 + 4 \<le> n"
  using assms by (auto simp: quote_port_at_def attempt_eq_Ok nth_get_def split: if_splits side.splits)

lemma quote_port_at_shift:
  assumes "b + length Q \<le> length pkt" and "Q = sub b (length Q) pkt" and "n \<le> length Q"
  shows "quote_port_at pkt proto (b + l4) (b + n) side port = Ok pat \<longleftrightarrow>
    (\<exists>pat'. quote_port_at Q proto l4 n side port = Ok pat' \<and> pat = map_option (\<lambda>i. b + i) pat')"
proof (cases "l4 < length Q")
  case True
  have "pkt ! (b + l4) = Q ! l4"
    using True assms(1) by (subst assms(2)) simp
  then show ?thesis using True assms(1)
    by (cases side) (auto simp: quote_port_at_def attempt_eq_Ok nth_get_def split: if_splits)
next
  case False
  then show ?thesis using assms(1,3)
    by (auto simp: quote_port_at_def attempt_eq_Ok nth_get_def split: if_splits)
qed

lemma after_port_shift:
  assumes "b + length Q \<le> length xs" and "\<And>i. pat = Some i \<Longrightarrow> i + 2 \<le> length Q"
  shows "after_port (overwrite xs b Q) (map_option (\<lambda>i. b + i) pat) port = overwrite xs b (after_port Q pat port)"
proof (cases pat)
  case (Some i)
  have l: "b + length Q \<le> length (overwrite xs b Q)" using assms(1) by simp
  have "overwrite (overwrite xs b Q) (b + i) (to_be16 w) = overwrite xs b (overwrite Q i (to_be16 w))" for w
    using overwrite_shift [OF l, of i "to_be16 w"] assms Some
    by (simp add: overwrite_twice sub_overwrite_at)
  then show ?thesis using Some by (simp add: after_port_def split: option.split)
qed (simp add: after_port_def)

lemma quote_bounds:
  assumes wf: "hdr_wf inner (length Q)" and ready: "quote_ready Q inner side addr port ck_at pseudo pat"
  shows "addr_at (is_v6 inner) side + addr_len (is_ipv6 addr) \<le> ip_l4_offset inner"
    and "ip_l4_offset inner \<le> ip_total_len inner" and "ip_total_len inner \<le> length Q"
    and "is_ipv6 addr \<or> 20 \<le> ip_l4_offset inner" and "20 \<le> ip_l4_offset inner"
    and "\<And>i. pat = Some i \<Longrightarrow> ip_l4_offset inner \<le> i \<and> i + 2 \<le> length Q \<and>
           (i + 2 \<le> ip_l4_offset inner + ck_at \<or> ip_l4_offset inner + ck_at + 2 \<le> i)"
proof -
  have fam: "is_ipv6 addr = is_v6 inner" and ck: "quote_checksum (ip_protocol inner) = Some (ck_at, pseudo)"
    and pa: "quote_port_at Q (ip_protocol inner) (ip_l4_offset inner) (ip_total_len inner) side port = Ok pat"
    using ready by (auto simp: quote_ready_def)
  show "addr_at (is_v6 inner) side + addr_len (is_ipv6 addr) \<le> ip_l4_offset inner"
    using addr_at_le(1) [of "is_v6 inner" side] wf fam by (auto simp: hdr_wf_def split: if_splits)
  show tl: "ip_l4_offset inner \<le> ip_total_len inner" "ip_total_len inner \<le> length Q"
    "is_ipv6 addr \<or> 20 \<le> ip_l4_offset inner" "20 \<le> ip_l4_offset inner"
    using wf fam by (auto simp: hdr_wf_def split: if_splits)
  show "ip_l4_offset inner \<le> i \<and> i + 2 \<le> length Q \<and>
      (i + 2 \<le> ip_l4_offset inner + ck_at \<or> ip_l4_offset inner + ck_at + 2 \<le> i)" if "pat = Some i" for i
  proof -
    note q = quote_port_at_Ok [OF pa [unfolded that]] and c = quote_checksum_Some [OF ck]
    show ?thesis
      using q(2,3,4,5) c(2,3) tl by (cases "is_icmp (ip_protocol inner)") (auto split: side.splits)
  qed
qed

lemma length_quote_after:
  assumes wf: "hdr_wf inner (length Q)" and ready: "quote_ready Q inner side addr port ck_at pseudo pat"
  shows "length (after_addr inc Q 10 (addr_at (is_v6 inner) side) addr) = length Q"
    and "length (after_port (after_addr inc Q 10 (addr_at (is_v6 inner) side) addr) pat port) = length Q"
    and "length (quote_rewritten inc Q inner side addr port ck_at pseudo pat) = length Q"
proof -
  note b = quote_bounds [OF wf ready]
  show 1: "length (after_addr inc Q 10 (addr_at (is_v6 inner) side) addr) = length Q"
    using b(1-4) by (intro length_after_addr) auto
  show 2: "length (after_port (after_addr inc Q 10 (addr_at (is_v6 inner) side) addr) pat port) = length Q"
    using 1 b(6) by (auto simp: after_port_def split: option.split)
  show "length (quote_rewritten inc Q inner side addr port ck_at pseudo pat) = length Q"
    using 2 b(3) by (auto simp: quote_rewritten_def quote_patch_def Let_def)
qed

text \<open>A quote that the outer packet still holds.\<close>

definition quote_in :: "bytes \<Rightarrow> ip_header \<Rightarrow> error_quote \<Rightarrow> bool" where
  "quote_in pkt outer q \<longleftrightarrow>
     eq_inner_offset q = ip_l4_offset outer + 8 \<and> ip_l4_offset outer + 8 \<le> ip_total_len outer \<and>
     ip_total_len outer \<le> length pkt \<and> hdr_wf (eq_inner q) (length (quote_bytes pkt outer))"

lemma length_quote_bytes:
  "ip_l4_offset outer + 8 \<le> ip_total_len outer \<Longrightarrow> ip_total_len outer \<le> length pkt \<Longrightarrow>
     length (quote_bytes pkt outer) = ip_total_len outer - (ip_l4_offset outer + 8)"
  by (simp add: quote_bytes_def)

lemma overwrite_inside:
  assumes "b + length P \<le> length xs" and "a + length w \<le> length P"
  shows "overwrite (overwrite xs b P) (b + a) w = overwrite xs b (overwrite P a w)"
  using overwrite_shift [of b "length P" "overwrite xs b P" a w] assms by (simp add: sub_overwrite_at overwrite_twice)

lemma quote_word_after_addr:
  assumes wf: "hdr_wf inner (length Q)" and ready: "quote_ready Q inner side addr port ck_at pseudo pat"
    and b: "b + length Q \<le> length xs" and i: "pat = Some i"
  shows "sub (b + i) 2 (overwrite xs b (after_addr inc Q 10 (addr_at (is_v6 inner) side) addr)) = sub i 2 Q"
proof -
  let ?A = "after_addr inc Q 10 (addr_at (is_v6 inner) side) addr"
  note bd = quote_bounds [OF wf ready] and l = length_quote_after(1) [OF wf ready]
  have i2: "ip_l4_offset inner \<le> i" "i + 2 \<le> length Q" using bd(6) i by auto
  have "sub (b + i) 2 (overwrite xs b ?A) = sub i 2 (sub b (length Q) (overwrite xs b ?A))"
    using i2 by (simp add: sub_sub)
  also have "\<dots> = sub i 2 ?A" using b l by (simp add: sub_overwrite_at)
  also have "\<dots> = sub i 2 Q" using i2 bd(1-5) by (auto simp: after_addr_def Let_def slice_simps)
  finally show ?thesis .
qed

text \<open>The writes of the quote rewrite, made in the outer packet, are the same writes made in the quote.\<close>

lemma quote_writes:
  assumes wf: "hdr_wf inner (length Q)" and ready: "quote_ready Q inner side addr port ck_at pseudo pat"
    and bQ: "b + length Q \<le> length pkt" "Q = sub b (length Q) pkt"
    and reach: "patch \<Longrightarrow> ip_l4_offset inner + ck_at + 2 \<le> ip_total_len inner"
  defines "at \<equiv> addr_at (is_v6 inner) side"
  shows "write_addr inc pkt (b + 10) (b + at) addr (patch \<and> pseudo) ck (\<lambda>pkt ck.
      write_port inc pkt (map_option (\<lambda>i. b + i) pat) port patch ck (\<lambda>pkt ck.
      if patch then write_sub pkt (b + ip_l4_offset inner + ck_at) (to_be16 ck) rec else rec pkt)) =
    rec (overwrite pkt b
      (if patch then overwrite (after_port (after_addr inc Q 10 at addr) pat port) (ip_l4_offset inner + ck_at)
         (to_be16 (new_ck inc Q at addr pat port pseudo ck)) else after_port (after_addr inc Q 10 at addr) pat port))"
proof -
  let ?A = "after_addr inc Q 10 at addr"
  note bd = quote_bounds [OF wf ready, folded at_def] and l = length_quote_after [OF wf ready, of inc, folded at_def]
  have A: "b + at + addr_len (is_ipv6 addr) \<le> length pkt" "is_ipv6 addr \<or> b + 10 + 2 \<le> length pkt"
    using bd(1-5) bQ(1) by simp_all
  have aa: "after_addr inc pkt (b + 10) (b + at) addr = overwrite pkt b ?A"
    using after_addr_shift [of b "length Q" pkt at addr 10 inc] bQ bd(1-5) by simp
  have old: "sub (b + at) (addr_len (is_ipv6 addr)) pkt = sub at (addr_len (is_ipv6 addr)) Q"
    using bd(1-3) by (subst bQ(2)) (simp add: sub_sub)
  have P: "\<And>i. map_option (\<lambda>i. b + i) pat = Some i \<Longrightarrow> i + 2 \<le> length (overwrite pkt b ?A)"
    using bd(6) bQ(1) l(1) by fastforce
  have pp: "after_port (overwrite pkt b ?A) (map_option (\<lambda>i. b + i) pat) port = overwrite pkt b (after_port ?A pat port)"
    using after_port_shift [of b ?A pkt pat port] bQ(1) l(1) bd(6) by simp
  have cks: "(case (map_option (\<lambda>i. b + i) pat, port) of
        (Some i, Some new) \<Rightarrow> checksum_update inc ck (sub i 2 (overwrite pkt b ?A)) (to_be16 new) | _ \<Rightarrow> ck) =
      (case (pat, port) of (Some i, Some new) \<Rightarrow> checksum_update inc ck (sub i 2 Q) (to_be16 new) | _ \<Rightarrow> ck)" for ck
    using quote_word_after_addr [OF wf ready bQ(1), of _ inc, folded at_def] by (auto split: option.split)
  show ?thesis
  proof (cases patch)
    case True
    have W: "b + ip_l4_offset inner + ck_at + 2 \<le> length (overwrite pkt b (after_port ?A pat port))"
      "overwrite (overwrite pkt b (after_port ?A pat port)) (b + ip_l4_offset inner + ck_at) (to_be16 w) =
        overwrite pkt b (overwrite (after_port ?A pat port) (ip_l4_offset inner + ck_at) (to_be16 w))" for w
      using reach [OF True] bd(3) bQ(1) l(2)
        overwrite_inside [of b "after_port ?A pat port" pkt "ip_l4_offset inner + ck_at" "to_be16 w"]
      by (simp_all add: add.assoc)
    show ?thesis using W True
      by (simp only: write_addr_eq [OF A] aa write_port_eq [OF P] pp old cks if_True simp_thms)
        (simp add: new_ck_def Let_def)
  next
    case False
    then show ?thesis
      by (simp only: write_addr_eq [OF A] aa write_port_eq [OF P] pp if_False simp_thms)
  qed
qed

lemma rewrite_error_quote_ready:
  assumes q: "quote_in pkt outer q"
    and ready: "quote_ready (quote_bytes pkt outer) (eq_inner q) side addr port ck_at pseudo pat"
  shows "rewrite_error_quote e pkt outer q side addr port =
    recompute_icmp_checksum e
      (overwrite pkt (ip_l4_offset outer + 8)
        (quote_rewritten (eng_inc e) (quote_bytes pkt outer) (eq_inner q) side addr port ck_at pseudo pat)) outer"
proof -
  define b where "b = ip_l4_offset outer + 8"
  let ?Q = "quote_bytes pkt outer" and ?i = "eq_inner q"
  have in_: "eq_inner_offset q = b" "b \<le> ip_total_len outer" "ip_total_len outer \<le> length pkt"
    and wf: "hdr_wf ?i (length ?Q)" using q by (auto simp: quote_in_def b_def)
  have lQ: "length ?Q = ip_total_len outer - b" using in_ by (simp add: length_quote_bytes b_def)
  have bQ: "b + length ?Q \<le> length pkt" "?Q = sub b (length ?Q) pkt"
    using in_ lQ by (simp_all add: quote_bytes_def b_def)
  have fam: "is_ipv6 addr = is_v6 ?i" and ck: "quote_checksum (ip_protocol ?i) = Some (ck_at, pseudo)"
    and pa: "quote_port_at ?Q (ip_protocol ?i) (ip_l4_offset ?i) (ip_total_len ?i) side port = Ok pat"
    using ready by (auto simp: quote_ready_def)
  note bd = quote_bounds [OF wf ready]
  have pat: "quote_port_at pkt (ip_protocol ?i) (b + ip_l4_offset ?i) (b + ip_total_len ?i) side port =
      Ok (map_option (\<lambda>i. b + i) pat)"
    using quote_port_at_shift [OF bQ bd(3), of "ip_protocol ?i" "ip_l4_offset ?i" side port] pa by blast
  have C: "Suc (b + ip_l4_offset ?i + ck_at) < length pkt"
    "rd16 pkt (b + ip_l4_offset ?i + ck_at) = rd16 ?Q (ip_l4_offset ?i + ck_at)"
    if "ip_l4_offset ?i + ck_at + 2 \<le> ip_total_len ?i"
    using that bd(3) bQ rd16_sub [of "ip_l4_offset ?i + ck_at" "length ?Q" b pkt] by (simp_all add: add.assoc)
  have guards: "\<not> length pkt < ip_total_len outer" "\<not> ip_total_len outer < b + ip_total_len ?i"
      "\<not> b + ip_total_len ?i < b + addr_at (is_v6 ?i) side + addr_len (is_v6 ?i)"
      "b + ip_l4_offset ?i + ck_at + 2 \<le> b + ip_total_len ?i \<longleftrightarrow> ip_l4_offset ?i + ck_at + 2 \<le> ip_total_len ?i"
    using in_ bd(1-3) lQ fam by auto
  note body = quote_writes [OF wf ready bQ, where rec = "\<lambda>p. recompute_icmp_checksum e p outer" and inc = "eng_inc e"]
  show ?thesis unfolding b_def [symmetric]
  proof (cases "ip_l4_offset ?i + ck_at + 2 \<le> ip_total_len ?i")
    case True
    then show "rewrite_error_quote e pkt outer q side addr port = recompute_icmp_checksum e
        (overwrite pkt b (quote_rewritten (eng_inc e) ?Q ?i side addr port ck_at pseudo pat)) outer"
      using guards fam C [OF True] body [OF True]
      by (simp add: rewrite_error_quote_def Let_def in_(1) ck pat quote_rewritten_def quote_patch_def)
  next
    case False
    then show "rewrite_error_quote e pkt outer q side addr port = recompute_icmp_checksum e
        (overwrite pkt b (quote_rewritten (eng_inc e) ?Q ?i side addr port ck_at pseudo pat)) outer"
      using guards fam body [of False 0]
      by (simp add: rewrite_error_quote_def Let_def in_(1) ck pat quote_rewritten_def quote_patch_def)
  qed
qed

lemma rewrite_error_quote_cases:
  assumes q: "quote_in pkt outer q"
  shows "(\<exists>err. rewrite_error_quote e pkt outer q side addr port = Err (err, pkt)) \<or>
    (\<exists>ck_at pseudo pat. quote_ready (quote_bytes pkt outer) (eq_inner q) side addr port ck_at pseudo pat)"
proof (cases "\<exists>ck_at pseudo pat. quote_ready (quote_bytes pkt outer) (eq_inner q) side addr port ck_at pseudo pat")
  case False
  let ?Q = "quote_bytes pkt outer" and ?i = "eq_inner q" and ?b = "ip_l4_offset outer + 8"
  have in_: "eq_inner_offset q = ?b" "?b \<le> ip_total_len outer" "ip_total_len outer \<le> length pkt"
    and wf: "hdr_wf ?i (length ?Q)" using q by (auto simp: quote_in_def)
  have bQ: "?b + length ?Q \<le> length pkt" "?Q = sub ?b (length ?Q) pkt" "ip_total_len ?i \<le> length ?Q"
    using in_ wf by (simp_all add: quote_bytes_def hdr_wf_def)
  have "\<nexists>pat. quote_port_at pkt (ip_protocol ?i) (?b + ip_l4_offset ?i) (?b + ip_total_len ?i) side port = Ok pat"
    if "is_ipv6 addr = is_v6 ?i" "quote_checksum (ip_protocol ?i) \<noteq> None"
    using False that quote_port_at_shift [OF bQ, of "ip_protocol ?i" "ip_l4_offset ?i" side port]
    by (auto simp: quote_ready_def)
  moreover have "quote_port_at pkt (ip_protocol ?i) (?b + ip_l4_offset ?i) (?b + ip_total_len ?i) side port \<noteq> Panic"
    by simp
  ultimately have "is_ipv6 addr = is_v6 ?i \<Longrightarrow> quote_checksum (ip_protocol ?i) \<noteq> None \<Longrightarrow>
      \<exists>err. quote_port_at pkt (ip_protocol ?i) (?b + ip_l4_offset ?i) (?b + ip_total_len ?i) side port = Err err"
    by (metis res.exhaust)
  then have "\<exists>err. rewrite_error_quote e pkt outer q side addr port = Err (err, pkt)"
    unfolding rewrite_error_quote_def Let_def in_(1)
    by (cases "quote_checksum (ip_protocol ?i)") auto
  then show ?thesis ..
qed blast

text \<open>The checksum of the outer message, zeroed and written anew.\<close>

definition icmp_family :: "ip_header \<Rightarrow> bool" where
  "icmp_family h \<longleftrightarrow> (if is_v6 h then ip_protocol h = PROTO_ICMPV6 else ip_protocol h = PROTO_ICMPV4)"

definition icmp_seed :: "engine \<Rightarrow> bytes \<Rightarrow> ip_header \<Rightarrow> u32" where
  "icmp_seed e pkt h =
     (if is_v6 h then eng_pseudo e (v6_from (sub 8 16 pkt)) (v6_from (sub 24 16 pkt))
        (word_of_nat (ip_total_len h - ip_l4_offset h)) else 0)"

definition icmp_message :: "bytes \<Rightarrow> ip_header \<Rightarrow> bytes" where
  "icmp_message pkt h = sub (ip_l4_offset h) (ip_total_len h - ip_l4_offset h) pkt"

definition with_icmp_checksum :: "engine \<Rightarrow> bytes \<Rightarrow> ip_header \<Rightarrow> bytes" where
  "with_icmp_checksum e pkt h =
     (let z = overwrite pkt (ip_l4_offset h + 2) [0, 0]
      in overwrite z (ip_l4_offset h + 2) (to_be16 (eng_checksum e (icmp_seed e pkt h) (icmp_message z h))))"

lemma overwrite_two: "a + 2 \<le> length xs \<Longrightarrow> overwrite (overwrite xs a [x]) (Suc a) [y] = overwrite xs a [x, y]"
  by (intro nth_equalityI) (auto simp: nth_overwrite less_Suc_eq)

lemma recompute_ok:
  assumes "hdr_wf h (length pkt)" and "ip_l4_offset h + 4 \<le> ip_total_len h" and "icmp_family h"
    and "ip_total_len h < 2 ^ 32"
  shows "recompute_icmp_checksum e pkt h = Ok (with_icmp_checksum e pkt h)"
proof -
  have n: "ip_total_len h \<le> length pkt" "ip_l4_offset h \<le> ip_total_len h" "is_v6 h \<Longrightarrow> ip_l4_offset h = 40"
    using assms(1) by (auto simp: hdr_wf_def split: if_splits)
  have w: "write_sub pkt (ip_l4_offset h + 2) [0] (\<lambda>p. write_sub p (ip_l4_offset h + 2 + 1) [0] k) =
      k (overwrite pkt (ip_l4_offset h + 2) [0, 0])" for k :: "bytes \<Rightarrow> (packet_error \<times> bytes, bytes) res"
    using n assms(2) overwrite_two [of "ip_l4_offset h + 2" pkt 0 0] by simp
  have big: "\<not> 2 ^ 32 \<le> ip_total_len h - ip_l4_offset h" using assms(4) by simp
  have fits: "\<not> (length pkt < ip_total_len h \<or> ip_total_len h < ip_l4_offset h + 4)"
    "ip_l4_offset h + (ip_total_len h - ip_l4_offset h) = ip_total_len h" using n assms(2) by auto
  show ?thesis
  proof (cases "is_v6 h")
    case True
    then have "ip_protocol h = PROTO_ICMPV6" "ip_l4_offset h = 40" using assms(3) n by (auto simp: icmp_family_def)
    with True n(1) big fits assms(2) show ?thesis
      unfolding recompute_icmp_checksum_def Let_def w
      by (simp add: with_icmp_checksum_def icmp_seed_def icmp_message_def Let_def proto_defs)
  next
    case False
    then have "ip_protocol h = PROTO_ICMPV4" using assms(3) by (simp add: icmp_family_def)
    with False n(1) fits assms(2) show ?thesis
      unfolding recompute_icmp_checksum_def Let_def w
      by (simp add: with_icmp_checksum_def icmp_seed_def icmp_message_def Let_def proto_defs)
  qed
qed

lemma recompute_refused:
  assumes "hdr_wf h (length pkt)" and "\<not> icmp_family h"
  shows "\<exists>err. recompute_icmp_checksum e pkt h = Err (err, pkt)"
  using assms by (auto simp: recompute_icmp_checksum_def Let_def icmp_family_def)

lemma length_with_icmp_checksum [simp]:
  "ip_l4_offset h + 4 \<le> length pkt \<Longrightarrow> length (with_icmp_checksum e pkt h) = length pkt"
  by (simp add: with_icmp_checksum_def Let_def)

lemma with_icmp_checksum_frame:
  assumes "ip_l4_offset h + 4 \<le> length pkt" and "i < length pkt" and "i \<noteq> ip_l4_offset h + 2" "i \<noteq> ip_l4_offset h + 3"
  shows "with_icmp_checksum e pkt h ! i = pkt ! i"
  using assms by (auto simp: with_icmp_checksum_def Let_def nth_overwrite)

section \<open>A rewritten quote parses to the new endpoint\<close>

lemma quote_fields_frame:
  assumes wf: "hdr_wf inner (length Q)" and ready: "quote_ready Q inner side addr port ck_at pseudo pat"
    and i: "i < length Q" "\<not> in_field (addr_at (is_v6 inner) side) (addr_len (is_v6 inner)) i"
      "is_v6 inner \<or> \<not> in_field 10 2 i" "\<And>at. pat = Some at \<Longrightarrow> \<not> in_field at 2 i"
  shows "after_port (after_addr inc Q 10 (addr_at (is_v6 inner) side) addr) pat port ! i = Q ! i"
proof -
  note b = quote_bounds [OF wf ready] and l = length_quote_after [OF wf ready]
  have fam: "is_ipv6 addr = is_v6 inner" using ready by (simp add: quote_ready_def)
  let ?a = "after_addr inc Q 10 (addr_at (is_v6 inner) side) addr"
  have "?a ! i = Q ! i"
    using b(1-5) i fam by (auto simp: after_addr_def Let_def in_field_def nth_overwrite)
  then show ?thesis
    using l(1) [of inc] i(1,4) b(6) by (auto simp: after_port_def nth_overwrite in_field_def split: option.split)
qed

lemma quote_rewritten_frame:
  assumes wf: "hdr_wf inner (length Q)" and ready: "quote_ready Q inner side addr port ck_at pseudo pat"
    and i: "i < length Q" "\<not> in_field (addr_at (is_v6 inner) side) (addr_len (is_v6 inner)) i"
      "is_v6 inner \<or> \<not> in_field 10 2 i" "\<And>at. pat = Some at \<Longrightarrow> \<not> in_field at 2 i"
      "\<not> in_field (ip_l4_offset inner + ck_at) 2 i"
  shows "quote_rewritten inc Q inner side addr port ck_at pseudo pat ! i = Q ! i"
  using quote_fields_frame [OF wf ready i(1-4), of inc] length_quote_after(2) [OF wf ready, of inc] i(1,5)
    quote_bounds(3) [OF wf ready]
  by (auto simp: quote_rewritten_def quote_patch_def Let_def nth_overwrite in_field_def)

lemma quote_rewritten_addr:
  assumes wf: "hdr_wf inner (length Q)" and ready: "quote_ready Q inner side addr port ck_at pseudo pat"
  shows "sub (addr_at (is_v6 inner) side) (addr_len (is_v6 inner))
    (quote_rewritten inc Q inner side addr port ck_at pseudo pat) = octets addr"
proof -
  note b = quote_bounds [OF wf ready] and l = length_quote_after [OF wf ready]
  have fam: "is_ipv6 addr = is_v6 inner" using ready by (simp add: quote_ready_def)
  let ?at = "addr_at (is_v6 inner) side"
  let ?a = "after_addr inc Q 10 ?at addr"
  have "sub ?at (addr_len (is_v6 inner)) ?a = octets addr"
    using b(1-5) fam addr_at_le(3) [of "is_v6 inner" side]
    by (auto simp: after_addr_def Let_def slice_simps)
  then have "sub ?at (addr_len (is_v6 inner)) (after_port ?a pat port) = octets addr"
    using l(1) b(1,6) fam by (fastforce simp: after_port_def slice_simps split: option.split)
  then show ?thesis using l(2) b(1,3) fam
    by (auto simp: quote_rewritten_def quote_patch_def Let_def slice_simps)
qed

lemma quote_rewritten_port:
  assumes wf: "hdr_wf inner (length Q)" and ready: "quote_ready Q inner side addr (Some w) ck_at pseudo (Some at)"
  shows "rd16 (quote_rewritten inc Q inner side addr (Some w) ck_at pseudo (Some at)) at = w"
proof -
  note b = quote_bounds [OF wf ready] and l = length_quote_after [OF wf ready]
  let ?a = "after_addr inc Q 10 (addr_at (is_v6 inner) side) addr"
  have "rd16 (after_port ?a (Some at) (Some w)) at = w"
    using l(1) b(6) by (simp add: after_port_def slice_simps)
  then show ?thesis using l(2) b(3,6)
    by (auto simp: quote_rewritten_def quote_patch_def Let_def slice_simps)
qed

lemma parse_quote_rewritten:
  assumes parsed: "parse Q b = Ok inner" and ready: "quote_ready Q inner side addr port ck_at pseudo pat"
  shows "parse (quote_rewritten inc Q inner side addr port ck_at pseudo pat) b = Ok (set_endpoint side addr inner)"
proof (rule parse_set_endpoint [OF parsed])
  note wf = parse_Ok(1) [OF parsed]
  note b = quote_bounds [OF wf ready]
  show "is_ipv6 addr = is_v6 inner" using ready by (simp add: quote_ready_def)
  show "length (quote_rewritten inc Q inner side addr port ck_at pseudo pat) = length Q"
    by (rule length_quote_after [OF wf ready])
  show "quote_rewritten inc Q inner side addr port ck_at pseudo pat ! i = Q ! i"
    if "i < ip_l4_offset inner" "\<not> in_field (addr_at (is_v6 inner) side) (addr_len (is_v6 inner)) i"
      "is_v6 inner \<or> \<not> in_field 10 2 i" for i
    using that b(2,3,6) by (intro quote_rewritten_frame [OF wf ready]) (fastforce simp: in_field_def)+
qed (rule quote_rewritten_addr [OF parse_Ok(1) [OF parsed] ready])

text \<open>What the gateway reads of a quote once it has put another endpoint into it.\<close>

definition set_quote :: "side \<Rightarrow> ip_addr \<Rightarrow> u16 option \<Rightarrow> error_quote \<Rightarrow> error_quote" where
  "set_quote side addr port q = q\<lparr>
     eq_inner := set_endpoint side addr (eq_inner q),
     eq_ports := (case port of None \<Rightarrow> eq_ports q | Some w \<Rightarrow> map_option (set_port side w) (eq_ports q)),
     eq_echo_id := (case port of None \<Rightarrow> eq_echo_id q | Some w \<Rightarrow> map_option (\<lambda>_. w) (eq_echo_id q))\<rparr>"

lemma sub_frame_in:
  assumes "length p = length xs" and "\<And>i. a \<le> i \<Longrightarrow> i < a + 2 \<Longrightarrow> p ! i = xs ! i"
  shows "rd16 p a = rd16 xs a"
  using assms(2) [of a] assms(2) [of "Suc a"] by (simp add: rd16_def)

lemma quote_ids_transport:
  assumes "ip_protocol h = PROTO_TCP \<or> ip_protocol h = PROTO_UDP"
  shows "quote_ids Q h = Ok (if ip_l4_offset h + 4 \<le> length Q
    then Some (rd16 Q (ip_l4_offset h), rd16 Q (ip_l4_offset h + 2)) else None, None)"
proof (cases "ip_l4_offset h + 4 \<le> length Q")
  case True
  then have "read_ports Q (ip_l4_offset h) = Ok (rd16 Q (ip_l4_offset h), rd16 Q (ip_l4_offset h + 2))"
    by (simp only: read_ports_Ok)
  then show ?thesis using assms True by (auto simp: quote_ids_def)
next
  case False
  then have "read_ports Q (ip_l4_offset h) = Err Truncated" by (simp add: read_ports_def slice_get_def)
  then show ?thesis using assms False by (auto simp: quote_ids_def)
qed

lemma is_echo_kind: "is_echo proto k \<Longrightarrow>
    k \<in> {ICMPV4_ECHO_REPLY, ICMPV4_ECHO_REQUEST, ICMPV6_ECHO_REQUEST, ICMPV6_ECHO_REPLY}"
  by (auto simp: is_echo_def split: if_splits)

lemma quote_ids_icmp:
  assumes "is_icmp (ip_protocol h)"
  shows "quote_ids Q h = Ok r \<longleftrightarrow> ip_l4_offset h + 4 \<le> length Q \<and>
    r = (None, if is_echo (ip_protocol h) (Q ! ip_l4_offset h) \<and> ip_l4_offset h + 6 \<le> length Q
               then Some (rd16 Q (ip_l4_offset h + 4)) else None)"
proof -
  have "ip_protocol h \<noteq> PROTO_TCP" "ip_protocol h \<noteq> PROTO_UDP" using assms by (auto simp: is_icmp_def proto_defs)
  then show ?thesis using assms is_echo_kind [of "ip_protocol h" "Q ! ip_l4_offset h"]
    by (cases "is_echo (ip_protocol h) (Q ! ip_l4_offset h)")
      (auto simp: quote_ids_def attempt_eq_Ok read_icmp_Ok)
qed

lemma quote_ids_rewritten:
  assumes parsed: "parse Q b = Ok inner" and ready: "quote_ready Q inner side addr port ck_at pseudo pat"
    and ids: "quote_ids Q inner = Ok (ports, echo)"
  shows "quote_ids (quote_rewritten inc Q inner side addr port ck_at pseudo pat) (set_endpoint side addr inner) =
      Ok (case port of None \<Rightarrow> ports | Some w \<Rightarrow> map_option (set_port side w) ports,
          case port of None \<Rightarrow> echo | Some w \<Rightarrow> map_option (\<lambda>_. w) echo)"
proof -
  note wf = parse_Ok(1) [OF parsed]
  note b = quote_bounds [OF wf ready]
  let ?Q = "quote_rewritten inc Q inner side addr port ck_at pseudo pat" and ?l4 = "ip_l4_offset inner"
  have ck: "quote_checksum (ip_protocol inner) = Some (ck_at, pseudo)"
    and pa: "quote_port_at Q (ip_protocol inner) ?l4 (ip_total_len inner) side port = Ok pat"
    and fam: "is_ipv6 addr = is_v6 inner" using ready by (auto simp: quote_ready_def)
  note c = quote_checksum_Some [OF ck]
  have len: "length ?Q = length Q" by (rule length_quote_after [OF wf ready])
  have frame: "?Q ! i = Q ! i"
    if "?l4 \<le> i" "i < length Q" "\<not> in_field (?l4 + ck_at) 2 i" "\<And>at. pat = Some at \<Longrightarrow> \<not> in_field at 2 i" for i
    using that b(1,5) fam by (intro quote_rewritten_frame [OF wf ready]) (auto simp: in_field_def)
  have word: "rd16 ?Q a = rd16 Q a"
    if "?l4 \<le> a" "a + 2 \<le> length Q" "a + 2 \<le> ?l4 + ck_at \<or> ?l4 + ck_at + 2 \<le> a"
      "\<And>at. pat = Some at \<Longrightarrow> a + 2 \<le> at \<or> at + 2 \<le> a" for a
  proof (rule sub_frame_in [OF len])
    fix i assume "a \<le> i" "i < a + 2"
    with that show "?Q ! i = Q ! i" by (intro frame) (fastforce simp: in_field_def)+
  qed
  show ?thesis
  proof (cases "is_icmp (ip_protocol inner)")
    case False
    then have tu: "ip_protocol inner = PROTO_TCP \<or> ip_protocol inner = PROTO_UDP" and c6: "6 \<le> ck_at"
      using c by auto
    have set: "(rd16 ?Q ?l4, rd16 ?Q (?l4 + 2)) =
        (case port of None \<Rightarrow> (rd16 Q ?l4, rd16 Q (?l4 + 2)) | Some w \<Rightarrow> set_port side w (rd16 Q ?l4, rd16 Q (?l4 + 2)))"
      if l: "?l4 + 4 \<le> length Q"
    proof (cases port)
      case None
      then have "pat = None" using pa by (simp add: quote_port_at_def)
      then show ?thesis using None l c6 word [of ?l4] word [of "?l4 + 2"] by simp
    next
      case (Some w)
      then have pat: "pat = Some (case side of Source \<Rightarrow> ?l4 | Destination \<Rightarrow> ?l4 + 2)"
        using pa False by (auto simp: quote_port_at_def split: if_splits)
      show ?thesis
        using quote_rewritten_port [OF wf ready [unfolded Some pat], of inc] l c6 Some pat
          word [of ?l4] word [of "?l4 + 2"]
        by (cases side) (simp_all add: set_port_def)
    qed
    show ?thesis
      using ids set len tu quote_ids_transport [of inner Q] quote_ids_transport [of "set_endpoint side addr inner" ?Q]
      by (cases port) auto
  next
    case True
    then have c2: "ck_at = 2" using c by simp
    note of_Q = quote_ids_icmp [OF True, of Q] and of_P = quote_ids_icmp [of "set_endpoint side addr inner" ?Q]
    have l: "?l4 + 4 \<le> length Q" using ids of_Q by simp
    have kind: "?Q ! ?l4 = Q ! ?l4"
      using l c2 quote_port_at_Ok(4) [of Q "ip_protocol inner" ?l4 "ip_total_len inner" side port] pa True
      by (intro frame) (auto simp: in_field_def)
    show ?thesis
    proof (cases port)
      case None
      then have "pat = None" using pa by (simp add: quote_port_at_def)
      then show ?thesis using None ids of_Q of_P True len kind c2 word [of "?l4 + 4"] by auto
    next
      case (Some w)
      then have pat: "pat = Some (?l4 + 4)" "is_echo (ip_protocol inner) (Q ! ?l4)" "?l4 + 6 \<le> ip_total_len inner"
        using pa True by (auto simp: quote_port_at_def attempt_eq_Ok nth_get_def split: if_splits)
      then show ?thesis
        using quote_rewritten_port [OF wf ready [unfolded Some pat(1)], of inc] Some b(3) len kind
          ids of_Q of_P True by auto
    qed
  qed
qed

section \<open>The error after its quote was rewritten\<close>

lemma with_icmp_checksum_quote:
  assumes "ip_l4_offset h + 8 \<le> ip_total_len h" and "ip_total_len h \<le> length pkt"
  shows "quote_bytes (with_icmp_checksum e pkt h) h = quote_bytes pkt h"
  unfolding quote_bytes_def
  using assms by (intro sub_frame with_icmp_checksum_frame) simp_all

lemma quote_bytes_overwrite:
  assumes "ip_l4_offset h + 8 \<le> ip_total_len h" and "ip_total_len h \<le> length pkt"
    and "length Q = length (quote_bytes pkt h)"
  shows "quote_bytes (overwrite pkt (ip_l4_offset h + 8) Q) h = Q"
  using assms by (simp add: quote_bytes_def sub_overwrite_at)

text \<open>The rewrite of a parsed error: what it answers in every case.\<close>

definition requoted :: "engine \<Rightarrow> bytes \<Rightarrow> ip_header \<Rightarrow> bytes \<Rightarrow> bytes" where
  "requoted e pkt outer Q = with_icmp_checksum e (overwrite pkt (ip_l4_offset outer + 8) Q) outer"

lemma parse_error_quote_in:
  assumes "parse_ip pkt = Ok outer" and "parse_error_quote pkt outer = Ok q"
  shows "quote_in pkt outer q"
  using parse_error_quote_Ok [OF assms(2)] parse_Ok(1) [of "quote_bytes pkt outer" True] by (auto simp: quote_in_def)

lemma rewrite_error_quote_outcome:
  assumes parsed: "parse_ip pkt = Ok outer" and quote: "parse_error_quote pkt outer = Ok q"
    and fam: "icmp_family outer"
  obtains err where "rewrite_error_quote e pkt outer q side addr port = Err (err, pkt)"
  | ck_at pseudo pat where "quote_ready (quote_bytes pkt outer) (eq_inner q) side addr port ck_at pseudo pat"
      "rewrite_error_quote e pkt outer q side addr port = Ok (requoted e pkt outer
         (quote_rewritten (eng_inc e) (quote_bytes pkt outer) (eq_inner q) side addr port ck_at pseudo pat))"
proof -
  have q: "quote_in pkt outer q" by (rule parse_error_quote_in [OF parsed quote])
  have pp: "parse pkt False = Ok outer" using parsed by (simp add: parse_ip_def)
  consider (err) err where "rewrite_error_quote e pkt outer q side addr port = Err (err, pkt)"
    | (ok) ck_at pseudo pat where "quote_ready (quote_bytes pkt outer) (eq_inner q) side addr port ck_at pseudo pat"
    using rewrite_error_quote_cases [OF q] by blast
  then show thesis
  proof cases
    case ok
    let ?Q = "quote_rewritten (eng_inc e) (quote_bytes pkt outer) (eq_inner q) side addr port ck_at pseudo pat"
    let ?p = "overwrite pkt (ip_l4_offset outer + 8) ?Q"
    have in_: "ip_l4_offset outer + 8 \<le> ip_total_len outer" "ip_total_len outer \<le> length pkt"
      and wf: "hdr_wf (eq_inner q) (length (quote_bytes pkt outer))" using q by (auto simp: quote_in_def)
    have "length ?Q = length (quote_bytes pkt outer)" by (rule length_quote_after [OF wf ok])
    then have len: "length ?p = length pkt" using in_ by (simp add: length_quote_bytes)
    have small: "ip_total_len outer < 2 ^ 32"
      using parse_payload [OF pp] parse_Ok(1) [OF pp] by (auto simp: hdr_wf_def split: if_splits)
    have "recompute_icmp_checksum e ?p outer = Ok (requoted e pkt outer ?Q)"
      unfolding requoted_def using parse_Ok(1) [OF pp] len in_ fam small by (intro recompute_ok) simp_all
    then show thesis using rewrite_error_quote_ready [OF q ok, of e] ok by (intro that(2)) simp_all
  qed (rule that(1))
qed

lemma requoted_frame:
  assumes "ip_l4_offset h + 8 \<le> ip_total_len h" "ip_total_len h \<le> length pkt"
    and "length Q = length (quote_bytes pkt h)"
  shows "length (requoted e pkt h Q) = length pkt"
    and "i < ip_l4_offset h + 2 \<Longrightarrow> requoted e pkt h Q ! i = pkt ! i"
    and "quote_bytes (requoted e pkt h Q) h = Q"
proof -
  let ?p = "overwrite pkt (ip_l4_offset h + 8) Q"
  have l: "length Q = ip_total_len h - (ip_l4_offset h + 8)" using assms by (simp add: length_quote_bytes)
  then have len: "length ?p = length pkt" using assms by simp
  show "length (requoted e pkt h Q) = length pkt" unfolding requoted_def using assms len by simp
  show "requoted e pkt h Q ! i = pkt ! i" if "i < ip_l4_offset h + 2"
  proof -
    have "requoted e pkt h Q ! i = ?p ! i" unfolding requoted_def
      using that assms len by (intro with_icmp_checksum_frame) auto
    then show ?thesis using that assms l by (simp add: nth_overwrite)
  qed
  show "quote_bytes (requoted e pkt h Q) h = Q"
    unfolding requoted_def using assms len by (simp add: with_icmp_checksum_quote quote_bytes_overwrite)
qed

lemma requoted_parses:
  assumes parsed: "parse_ip pkt = Ok outer" and quote: "parse_error_quote pkt outer = Ok q"
    and ready: "quote_ready (quote_bytes pkt outer) (eq_inner q) side addr port ck_at pseudo pat"
    and Q_def: "Q = quote_rewritten inc (quote_bytes pkt outer) (eq_inner q) side addr port ck_at pseudo pat"
  shows "parse_ip (requoted e pkt outer Q) = Ok outer"
    and "parse_error_quote (requoted e pkt outer Q) outer = Ok (set_quote side addr port q)"
proof -
  have q: "quote_in pkt outer q" by (rule parse_error_quote_in [OF parsed quote])
  then have in_: "ip_l4_offset outer + 8 \<le> ip_total_len outer" "ip_total_len outer \<le> length pkt"
    and wf: "hdr_wf (eq_inner q) (length (quote_bytes pkt outer))" by (auto simp: quote_in_def)
  note eq = parse_error_quote_Ok [OF quote]
  have l: "length Q = length (quote_bytes pkt outer)" unfolding Q_def by (rule length_quote_after [OF wf ready])
  note fr = requoted_frame [OF in_ l, where e = e]
  have pp: "parse pkt False = Ok outer" using parsed by (simp add: parse_ip_def)
  show "parse_ip (requoted e pkt outer Q) = Ok outer"
    unfolding parse_ip_def by (rule parse_frame [OF pp fr(1)]) (simp add: fr(2))
  have "parse Q True = Ok (eq_inner (set_quote side addr port q))"
    using parse_quote_rewritten [of "quote_bytes pkt outer" True] ready eq by (simp add: Q_def set_quote_def)
  moreover have "quote_ids Q (eq_inner (set_quote side addr port q)) =
      Ok (eq_ports (set_quote side addr port q), eq_echo_id (set_quote side addr port q))"
    using quote_ids_rewritten [of "quote_bytes pkt outer" True] ready eq by (simp add: Q_def set_quote_def)
  ultimately show "parse_error_quote (requoted e pkt outer Q) outer = Ok (set_quote side addr port q)"
    using eq fr by (simp add: parse_error_quote_Ok_iff set_quote_def)
qed

section \<open>Checksums of the messages the gateway writes\<close>

text \<open>
  What the engine's checksum functions are documented to compute: the RFC 1624 update, the
  complement of the ones'-complement sum of a seed and the 16-bit words of the data (as long as the
  sum fits the 32-bit accumulator), and the sum of the ICMPv6 pseudo-header.
\<close>

definition pseudo_sum :: "ip_addr \<Rightarrow> ip_addr \<Rightarrow> nat \<Rightarrow> nat" where
  "pseudo_sum src dst n = word_sum (octets src) + word_sum (octets dst) + (n div 65536 + n mod 65536) + 58"

definition engine_sums :: "engine \<Rightarrow> bool" where
  "engine_sums e \<longleftrightarrow> incremental_update (eng_inc e) \<and>
     (\<forall>seed data. unat seed + word_sum data < 2 ^ 32 \<longrightarrow>
        (unat seed + word_sum data + unat (eng_checksum e seed data)) mod 65535 = 0) \<and>
     (\<forall>s d n. unat (eng_pseudo e (V6 s) (V6 d) n) < 2 ^ 31 \<and>
        unat (eng_pseudo e (V6 s) (V6 d) n) mod 65535 = pseudo_sum (V6 s) (V6 d) (unat n) mod 65535)"

text \<open>The sum an ICMP receiver verifies: zero in ones'-complement arithmetic for a valid message.\<close>

definition icmp_sum :: "bytes \<Rightarrow> ip_header \<Rightarrow> nat" where
  "icmp_sum p h =
     (if is_v6 h then pseudo_sum (v6_from (sub 8 16 p)) (v6_from (sub 24 16 p)) (ip_total_len h - ip_l4_offset h) else 0) +
     word_sum (icmp_message p h)"

definition icmp_valid :: "bytes \<Rightarrow> ip_header \<Rightarrow> bool" where
  "icmp_valid p h \<longleftrightarrow> icmp_sum p h mod 65535 = 0"

lemma word_sum_le: "word_sum xs \<le> 65535 * ((length xs + 1) div 2)"
proof (induction xs rule: word_sum.induct)
  case (2 a)
  have "unat a * 256 \<le> 65535" using unat_u8_less [of a] by linarith
  then show ?case by simp
next
  case (3 a b r)
  have "unat a * 256 + unat b \<le> 65535" using unat_u8_less [of a] unat_u8_less [of b] by linarith
  then show ?case using 3 by simp
qed simp

lemma mod_add_zero:
  fixes a b c m :: nat
  assumes "a mod m = b mod m" and "(b + c) mod m = 0"
  shows "(a + c) mod m = 0"
  using assms mod_add_cong [of a m b c c] by simp

lemma engine_checksum_valid:
  assumes "engine_sums e" and "unat seed < 2 ^ 31" and "length data \<le> 65535"
  shows "(unat seed + word_sum data + unat (eng_checksum e seed data)) mod 65535 = 0"
proof -
  have "(length data + 1) div 2 \<le> 32768" using assms(3) by simp
  then have "65535 * ((length data + 1) div 2) \<le> 65535 * 32768" by (rule mult_le_mono2)
  then have "word_sum data \<le> 65535 * 32768" using word_sum_le [of data] by (rule order_trans [rotated])
  then have "unat seed + word_sum data < 2 ^ 32" using assms(2) by simp
  then show ?thesis using assms(1) by (simp add: engine_sums_def)
qed

lemma icmp_seed_sum:
  assumes "engine_sums e" and "ip_total_len h - ip_l4_offset h \<le> 65535"
  shows "unat (icmp_seed e pkt h) < 2 ^ 31"
    and "unat (icmp_seed e pkt h) mod 65535 =
      (if is_v6 h then pseudo_sum (v6_from (sub 8 16 pkt)) (v6_from (sub 24 16 pkt)) (ip_total_len h - ip_l4_offset h)
       else 0) mod 65535"
proof -
  have "unat (word_of_nat (ip_total_len h - ip_l4_offset h) :: u32) = ip_total_len h - ip_l4_offset h"
    using assms(2) by (simp add: unat_of_nat)
  moreover obtain s d where "v6_from (sub 8 16 pkt) = V6 s" "v6_from (sub 24 16 pkt) = V6 d"
    by (simp add: v6_from_def)
  ultimately show "unat (icmp_seed e pkt h) < 2 ^ 31"
    and "unat (icmp_seed e pkt h) mod 65535 =
      (if is_v6 h then pseudo_sum (v6_from (sub 8 16 pkt)) (v6_from (sub 24 16 pkt)) (ip_total_len h - ip_l4_offset h)
       else 0) mod 65535"
    using assms(1) unfolding icmp_seed_def engine_sums_def by auto
qed

lemma word_sum_checksum_field:
  assumes "4 \<le> length m" and "m ! 2 = 0" "m ! 3 = 0"
  shows "word_sum (overwrite m 2 (to_be16 ck)) = word_sum m + unat ck"
  using word_sum_overwrite [of 2 "to_be16 ck" m] assms by (simp add: sub_2 numeral_3_eq_3)

lemma with_icmp_checksum_valid:
  assumes e: "engine_sums e" and wf: "hdr_wf h (length pkt)" and l: "ip_l4_offset h + 4 \<le> ip_total_len h"
    and small: "ip_total_len h \<le> ip_l4_offset h + 65535"
  shows "icmp_valid (with_icmp_checksum e pkt h) h"
proof -
  let ?l4 = "ip_l4_offset h" and ?n = "ip_total_len h - ip_l4_offset h"
  have len: "ip_total_len h \<le> length pkt" and v6: "is_v6 h \<Longrightarrow> ?l4 = 40"
    using wf by (auto simp: hdr_wf_def split: if_splits)
  define z where "z = overwrite pkt (?l4 + 2) [0, 0]"
  let ?seed = "icmp_seed e pkt h" and ?m = "icmp_message z h"
  let ?ck = "eng_checksum e ?seed ?m"
  have lz: "length z = length pkt" using len l by (simp add: z_def)
  have m: "?m = sub ?l4 ?n z" "length ?m = ?n" using len lz by (simp_all add: icmp_message_def)
  have zero: "?m ! 2 = 0" "?m ! 3 = 0"
    using len l lz m by (simp_all add: z_def nth_overwrite)
  have msg: "icmp_message (with_icmp_checksum e pkt h) h = overwrite ?m 2 (to_be16 ?ck)"
    unfolding with_icmp_checksum_def Let_def z_def [symmetric] icmp_message_def
    using len l lz overwrite_shift [of ?l4 ?n z 2 "to_be16 ?ck"]
    by (simp add: m(1) sub_overwrite_at icmp_message_def)
  have fields: "sub a 16 (with_icmp_checksum e pkt h) = sub a 16 pkt" if "is_v6 h" "a + 16 \<le> 40" for a
    using that v6 len l by (intro sub_frame with_icmp_checksum_frame) auto
  have "icmp_sum (with_icmp_checksum e pkt h) h =
      (if is_v6 h then pseudo_sum (v6_from (sub 8 16 pkt)) (v6_from (sub 24 16 pkt)) ?n else 0) +
      (word_sum ?m + unat ?ck)"
    unfolding icmp_sum_def msg using fields zero m(2) l by (simp add: word_sum_checksum_field)
  moreover have "(unat ?seed + (word_sum ?m + unat ?ck)) mod 65535 = 0"
    using engine_checksum_valid [OF e, of ?seed ?m] icmp_seed_sum(1) [OF e] small m(2)
    by (simp add: add.assoc)
  ultimately show ?thesis unfolding icmp_valid_def
    using mod_add_zero [of _ 65535 "unat ?seed"] icmp_seed_sum(2) [OF e, of h pkt] small by simp
qed

section \<open>The frames\<close>

definition v4_head :: "engine \<Rightarrow> u32 \<Rightarrow> u32 \<Rightarrow> nat \<Rightarrow> bytes" where
  "v4_head e src dst n =
     (let h = [0x45, 0] @ to_be16 (word_of_nat n) @ [0, 0, 0, 0, 64, PROTO_ICMPV4, 0, 0] @ octets (V4 src) @ octets (V4 dst)
      in overwrite h 10 (to_be16 (eng_checksum e 0 h)))"

definition v6_head :: "u128 \<Rightarrow> u128 \<Rightarrow> nat \<Rightarrow> bytes" where
  "v6_head src dst payload =
     [0x60, 0, 0, 0] @ to_be16 (word_of_nat payload) @ [PROTO_ICMPV6, 64] @ octets (V6 src) @ octets (V6 dst)"

definition icmp_body :: "engine \<Rightarrow> u32 \<Rightarrow> bytes \<Rightarrow> bytes" where
  "icmp_body e seed body = overwrite body 2 (to_be16 (eng_checksum e seed body))"

lemma list_of_4: "length xs = 4 \<Longrightarrow> \<exists>a b c d. xs = [a, b, c, d]"
  by (auto simp: numeral_eq_Suc length_Suc_conv)

lemma list_of_16: "length xs = 16 \<Longrightarrow> \<exists>a b c d e f g h i j k l m n p q. xs = [a, b, c, d, e, f, g, h, i, j, k, l, m, n, p, q]"
  by (auto simp: numeral_eq_Suc length_Suc_conv)

lemma overwrite_append_right: "a \<ge> length xs \<Longrightarrow> overwrite (xs @ ys) a zs = xs @ overwrite ys (a - length xs) zs"
  by (simp add: overwrite_def)

lemma overwrite_append_left: "a + length zs \<le> length xs \<Longrightarrow> overwrite (xs @ ys) a zs = overwrite xs a zs @ ys"
  by (simp add: overwrite_def)

lemma overwrite_all: "length zs = length xs \<Longrightarrow> overwrite xs 0 zs = zs"
  by (simp add: overwrite_def)

lemma to_be16_split: "\<exists>a b. to_be16 w = [a, b]"
  by (simp add: to_be16_def)

lemma frame_v4_eq:
  assumes "4 \<le> length body" and "20 + length body \<le> 65535"
  shows "frame_v4 e src dst body = Ok (v4_head e src dst (20 + length body) @ icmp_body e 0 body)"
proof -
  obtain s0 s1 s2 s3 where s: "octets (V4 src) = [s0, s1, s2, s3]"
    using list_of_4 [of "octets (V4 src)"] by (auto simp: addr_len_def)
  obtain d0 d1 d2 d3 where d: "octets (V4 dst) = [d0, d1, d2, d3]"
    using list_of_4 [of "octets (V4 dst)"] by (auto simp: addr_len_def)
  obtain t0 t1 where t: "to_be16 (word_of_nat (20 + length body)) = [t0, t1]" using to_be16_split by blast
  have r: "replicate (20 + length body) (0 :: u8) = replicate 20 0 @ replicate (length body) 0"
    by (simp add: replicate_add)
  have z: "replicate 20 (0 :: u8) = [0, 0, 0, 0, 0, 0, 0, 0, 0, 0, 0, 0, 0, 0, 0, 0, 0, 0, 0, 0]"
    by (simp add: numeral_eq_Suc)
  show ?thesis using assms
    by (simp add: frame_v4_def Let_def IPV4_MIN_HEADER_def r z s d t v4_head_def icmp_body_def write_sub_def with_sub_def
        overwrite_def sub_def)
qed

lemma frame_v6_eq:
  assumes "4 \<le> length body" and "length body \<le> 65535"
  shows "frame_v6 e src dst body = Ok (v6_head src dst (length body) @
    icmp_body e (eng_pseudo e (V6 src) (V6 dst) (word_of_nat (length body))) body)"
proof -
  obtain s0 s1 s2 s3 s4 s5 s6 s7 s8 s9 sa sb sc sd se sf
    where s: "octets (V6 src) = [s0, s1, s2, s3, s4, s5, s6, s7, s8, s9, sa, sb, sc, sd, se, sf]"
    using list_of_16 [of "octets (V6 src)"] by (auto simp: addr_len_def)
  obtain d0 d1 d2 d3 d4 d5 d6 d7 d8 d9 da db dc dd de df
    where d: "octets (V6 dst) = [d0, d1, d2, d3, d4, d5, d6, d7, d8, d9, da, db, dc, dd, de, df]"
    using list_of_16 [of "octets (V6 dst)"] by (auto simp: addr_len_def)
  obtain t0 t1 where t: "to_be16 (word_of_nat (length body)) = [t0, t1]" using to_be16_split by blast
  have r: "replicate (40 + length body) (0 :: u8) = replicate 40 0 @ replicate (length body) 0"
    by (simp add: replicate_add)
  have z: "replicate 40 (0 :: u8) = [0, 0, 0, 0, 0, 0, 0, 0, 0, 0, 0, 0, 0, 0, 0, 0, 0, 0, 0, 0,
      0, 0, 0, 0, 0, 0, 0, 0, 0, 0, 0, 0, 0, 0, 0, 0, 0, 0, 0, 0]"
    by (simp add: numeral_eq_Suc)
  show ?thesis using assms
    by (simp add: frame_v6_def Let_def IPV6_HEADER_def r z s d t v6_head_def icmp_body_def write_sub_def with_sub_def
        overwrite_def sub_def)
qed

lemma frame_too_long:
  "65535 < 20 + length body \<Longrightarrow> frame_v4 e src dst body = Err ()"
  "65535 < length body \<Longrightarrow> frame_v6 e src6 dst6 body = Err ()"
  by (simp_all add: frame_v4_def frame_v6_def IPV4_MIN_HEADER_def)

lemma length_heads [simp]: "length (v4_head e src dst n) = 20" "length (v6_head src6 dst6 n) = 40"
  by (simp_all add: v4_head_def v6_head_def Let_def addr_len_def)

lemma length_icmp_body [simp]: "4 \<le> length body \<Longrightarrow> length (icmp_body e seed body) = length body"
  by (simp add: icmp_body_def)

text \<open>A frame parses to the header it was given, with the message behind it.\<close>

definition framed :: "ip_addr \<Rightarrow> ip_addr \<Rightarrow> nat \<Rightarrow> ip_header" where
  "framed src dst n =
     \<lparr>ip_src = src, ip_dst = dst, ip_protocol = (if is_ipv6 src then PROTO_ICMPV6 else PROTO_ICMPV4),
      ip_l4_offset = (if is_ipv6 src then 40 else 20), ip_total_len = (if is_ipv6 src then 40 else 20) + n\<rparr>"

lemma u16_be_0: "u16_be 0 0 = 0"
  by (simp add: u16_be_def)

lemma parse_frame_v4:
  assumes "20 + length m \<le> 65535"
  shows "parse_ip (v4_head e src dst (20 + length m) @ m) = Ok (framed (V4 src) (V4 dst) (length m))"
proof -
  obtain s0 s1 s2 s3 where s: "octets (V4 src) = [s0, s1, s2, s3]"
    using list_of_4 [of "octets (V4 src)"] by (auto simp: addr_len_def)
  obtain d0 d1 d2 d3 where d: "octets (V4 dst) = [d0, d1, d2, d3]"
    using list_of_4 [of "octets (V4 dst)"] by (auto simp: addr_len_def)
  obtain c0 c1 where c: "v4_head e src dst (20 + length m) = [0x45, 0] @ to_be16 (word_of_nat (20 + length m)) @
      [0, 0, 0, 0, 64, PROTO_ICMPV4, c0, c1, s0, s1, s2, s3, d0, d1, d2, d3]"
    using s d to_be16_split by (auto simp: v4_head_def Let_def overwrite_def to_be16_def)
  obtain t0 t1 where t: "to_be16 (word_of_nat (20 + length m)) = [t0, t1]" using to_be16_split by blast
  have "u16_be (to_be16 w ! 0) (to_be16 w ! Suc 0) = w" for w by simp
  from this [of "word_of_nat (20 + length m)"] have u: "u16_be t0 t1 = word_of_nat (20 + length m)" unfolding t by simp
  have n: "unat (word_of_nat (20 + length m) :: u16) = 20 + length m"
    using assms by (intro unat_word_of_nat_u16) linarith
  have a: "v4_from [s0, s1, s2, s3] = V4 src" "v4_from [d0, d1, d2, d3] = V4 dst"
    using v4_from_octets [of src] v4_from_octets [of dst] s d by (simp_all add: octets.simps)
  show ?thesis
    unfolding c t using assms n [folded u] a u16_be_0
    by (simp add: parse_ip_def parse_def parse_v4_long rd16_def sub_def framed_def Let_def)
qed

lemma parse_frame_v6:
  assumes "length m \<le> 65535"
  shows "parse_ip (v6_head src dst (length m) @ m) = Ok (framed (V6 src) (V6 dst) (length m))"
proof -
  obtain s0 s1 s2 s3 s4 s5 s6 s7 s8 s9 sa sb sc sd se sf
    where s: "octets (V6 src) = [s0, s1, s2, s3, s4, s5, s6, s7, s8, s9, sa, sb, sc, sd, se, sf]"
    using list_of_16 [of "octets (V6 src)"] by (auto simp: addr_len_def)
  obtain d0 d1 d2 d3 d4 d5 d6 d7 d8 d9 da db dc dd de df
    where d: "octets (V6 dst) = [d0, d1, d2, d3, d4, d5, d6, d7, d8, d9, da, db, dc, dd, de, df]"
    using list_of_16 [of "octets (V6 dst)"] by (auto simp: addr_len_def)
  obtain t0 t1 where t: "to_be16 (word_of_nat (length m)) = [t0, t1]" using to_be16_split by blast
  have "u16_be (to_be16 w ! 0) (to_be16 w ! Suc 0) = w" for w by simp
  from this [of "word_of_nat (length m)"] have u: "u16_be t0 t1 = word_of_nat (length m)" unfolding t by simp
  have n: "unat (word_of_nat (length m) :: u16) = length m"
    using assms by (intro unat_word_of_nat_u16) linarith
  have a: "v6_from (octets (V6 src)) = V6 src" "v6_from (octets (V6 dst)) = V6 dst"
    using v6_from_octets [of src] v6_from_octets [of dst] by (simp_all add: octets.simps)
  show ?thesis
    unfolding v6_head_def t using assms n [folded u] a
    by (simp add: s d parse_ip_def parse_def parse_v6_def IPV6_HEADER_def is_extension_header_def PROTO_ICMPV6_def
        rd16_def sub_def framed_def Let_def)
qed

lemma v4_head_sum:
  assumes "engine_sums e"
  shows "word_sum (v4_head e src dst n) mod 65535 = 0"
proof -
  define h where "h = [0x45, 0] @ to_be16 (word_of_nat n) @ [0, 0, 0, 0, 64, PROTO_ICMPV4, 0, 0] @ octets (V4 src) @ octets (V4 dst)"
  let ?ck = "eng_checksum e 0 h"
  have l: "length h = 20" by (simp add: h_def addr_len_def)
  have "sub 10 2 h = [0, 0]" using to_be16_split [of "word_of_nat n"] by (auto simp: h_def sub_def)
  then have "word_sum (overwrite h 10 (to_be16 ?ck)) = word_sum h + unat ?ck"
    using word_sum_overwrite [of 10 "to_be16 ?ck" h] l by simp
  moreover have "(word_sum h + unat ?ck) mod 65535 = 0"
    using engine_checksum_valid [OF assms, of 0 h] l by simp
  ultimately show ?thesis by (simp add: v4_head_def h_def Let_def)
qed

lemma icmp_body_sum:
  assumes "engine_sums e" and "4 \<le> length body" "length body \<le> 65535" and "body ! 2 = 0" "body ! 3 = 0"
    and "unat seed < 2 ^ 31"
  shows "(unat seed + word_sum (icmp_body e seed body)) mod 65535 = 0"
  using engine_checksum_valid [OF assms(1,6,3)] word_sum_checksum_field [OF assms(2,4,5)]
  by (simp add: icmp_body_def add.assoc)

text \<open>A frame's checksums are right when the checksum field of its body starts out as zero.\<close>

lemma sub_drop_head: "length xs = a \<Longrightarrow> length ys = n \<Longrightarrow> sub a n (xs @ ys) = ys"
  by (simp add: sub_def)

lemma framed_valid:
  assumes e: "engine_sums e" and b: "4 \<le> length body" "body ! 2 = 0" "body ! 3 = 0"
  shows "20 + length body \<le> 65535 \<Longrightarrow>
      icmp_valid (v4_head e src dst n @ icmp_body e 0 body) (framed (V4 src) (V4 dst) (length body))"
    and "length body \<le> 65535 \<Longrightarrow>
      icmp_valid (v6_head src6 dst6 (length body) @
          icmp_body e (eng_pseudo e (V6 src6) (V6 dst6) (word_of_nat (length body))) body)
        (framed (V6 src6) (V6 dst6) (length body))"
proof -
  show "icmp_valid (v4_head e src dst n @ icmp_body e 0 body) (framed (V4 src) (V4 dst) (length body))"
    if "20 + length body \<le> 65535"
    using icmp_body_sum [OF e b(1) _ b(2,3), of 0] that b(1)
    by (simp add: icmp_valid_def icmp_sum_def icmp_message_def framed_def is_v6_def sub_def)
next
  assume l: "length body \<le> 65535"
  define seed where "seed = eng_pseudo e (V6 src6) (V6 dst6) (word_of_nat (length body))"
  have n: "unat (word_of_nat (length body) :: u32) = length body" using l by (simp add: unat_of_nat)
  have s: "unat seed < 2 ^ 31" "unat seed mod 65535 = pseudo_sum (V6 src6) (V6 dst6) (length body) mod 65535"
    using e n by (auto simp: engine_sums_def seed_def)
  have a: "v6_from (octets (V6 x)) = V6 x" for x
    using v6_from_octets [of x] by (simp add: octets.simps)
  let ?p = "v6_head src6 dst6 (length body) @ icmp_body e seed body"
  have "sub 8 16 ?p = octets (V6 src6)" "sub 24 16 ?p = octets (V6 dst6)"
    by (simp_all add: v6_head_def sub_def addr_len_def)
  then have "icmp_sum ?p (framed (V6 src6) (V6 dst6) (length body)) =
      pseudo_sum (V6 src6) (V6 dst6) (length body) + word_sum (icmp_body e seed body)"
    using b(1) a by (simp add: icmp_sum_def icmp_message_def framed_def is_v6_def sub_drop_head)
  then show "icmp_valid (v6_head src6 dst6 (length body) @
      icmp_body e (eng_pseudo e (V6 src6) (V6 dst6) (word_of_nat (length body))) body)
      (framed (V6 src6) (V6 dst6) (length body))"
    using mod_add_zero [OF s(2) [symmetric] icmp_body_sum [OF e b(1) l b(2,3) s(1)]]
    by (simp add: icmp_valid_def flip: seed_def)
qed

section \<open>Echo replies\<close>

definition echo_body :: "u8 \<Rightarrow> bytes \<Rightarrow> bytes" where
  "echo_body kind msg = [kind, msg ! 1, 0, 0] @ drop 4 msg"

lemma echo_body_writes:
  assumes "8 \<le> length msg"
  shows "overwrite (overwrite (overwrite msg 0 [kind]) 2 [0]) 3 [0] = echo_body kind msg"
proof -
  obtain a b c d r where "msg = a # b # c # d # r"
    using assms by (cases msg; cases "tl msg"; cases "tl (tl msg)"; cases "tl (tl (tl msg))") auto
  then show ?thesis by (simp add: overwrite_def echo_body_def)
qed

text \<open>The requests the gateway answers: an echo request of the packet's family from a unicast sender.\<close>

definition answerable :: "bytes \<Rightarrow> ip_header \<Rightarrow> bool" where
  "answerable req h \<longleftrightarrow> icmp_family h \<and> ip_l4_offset h + 8 \<le> ip_total_len h \<and>
     req ! ip_l4_offset h = (if is_v6 h then ICMPV6_ECHO_REQUEST else ICMPV4_ECHO_REQUEST) \<and>
     (case ip_src h of V4 a \<Rightarrow> unicast_v4 a | V6 a \<Rightarrow> unicast_v6 a)"

lemma echo_body_facts:
  assumes "8 \<le> length msg"
  shows "length (echo_body k msg) = length msg" "echo_body k msg ! 2 = 0" "echo_body k msg ! 3 = 0"
  using assms by (auto simp: echo_body_def nth_Cons')

lemma icmp_body_bytes:
  assumes "8 \<le> length msg"
  shows "\<exists>c0 c1. icmp_body e seed (echo_body k msg) = [k, msg ! 1, c0, c1] @ drop 4 msg"
  using assms to_be16_split by (auto simp: icmp_body_def echo_body_def overwrite_def to_be16_def)

text \<open>What the gateway sends back to an echo request.\<close>

definition echoes :: "bytes \<Rightarrow> ip_header \<Rightarrow> bytes \<Rightarrow> bool" where
  "echoes req h p \<longleftrightarrow>
     (let msg = icmp_message req h; h' = framed (ip_dst h) (ip_src h) (length msg) in
      parse_ip p = Ok h' \<and> length p = ip_total_len h' \<and>
      (\<exists>c0 c1. icmp_message p h' =
         [if is_v6 h then ICMPV6_ECHO_REPLY else ICMPV4_ECHO_REPLY, msg ! 1, c0, c1] @ drop 4 msg) \<and>
      icmp_valid p h' \<and> (is_v6 h \<or> word_sum (take 20 p) mod 65535 = 0))"

lemma answerable_msg:
  assumes "parse_ip req = Ok h" and "answerable req h"
  shows "slice_get req (ip_l4_offset h) (ip_total_len h) = Some (icmp_message req h)"
    "8 \<le> length (icmp_message req h)" "icmp_message req h ! 0 = req ! ip_l4_offset h"
    "length (icmp_message req h) = ip_total_len h - ip_l4_offset h"
    "length (icmp_message req h) \<le> 65535"
  using parse_Ok(1) [of req False h] parse_payload [of req False h] assms
  by (auto simp: answerable_def parse_ip_def hdr_wf_def icmp_message_def)

lemma parse_v4_payload:
  assumes "parse_ip req = Ok h" and "\<not> is_v6 h"
  shows "ip_total_len h \<le> 65535" "20 \<le> ip_l4_offset h" "ip_l4_offset h \<le> ip_total_len h"
proof -
  have wf: "hdr_wf h (length req)" using assms(1) by (auto simp: parse_ip_def dest: parse_Ok)
  then show "20 \<le> ip_l4_offset h" "ip_l4_offset h \<le> ip_total_len h" using assms(2) by (auto simp: hdr_wf_def)
  have v4: "parse_v4 req False = Ok h"
    using assms parse_v6_Ok [of req False h] by (auto simp: parse_ip_def parse_def Let_def split: list.splits if_splits)
  then have "20 \<le> length req" by (rule_tac ccontr) (simp add: parse_v4_short)
  have u: "unat w \<le> 65535" for w :: u16 using unat_u16_less [of w] by linarith
  show "ip_total_len h \<le> 65535" using v4 \<open>20 \<le> length req\<close> u
    by (auto simp: parse_v4_long Let_def split: if_splits)
qed

lemma echo_reply_v4_ok:
  assumes e: "engine_sums e" and parsed: "parse_ip req = Ok h" and a: "answerable req h" and v4: "\<not> is_v6 h"
  shows "\<exists>p. build_echo_reply_v4 e req = Ok p \<and> echoes req h p"
proof -
  let ?m = "icmp_message req h"
  note msg = answerable_msg [OF parsed a]
  have wf: "hdr_wf h (length req)" using parsed by (auto simp: parse_ip_def dest: parse_Ok)
  then obtain src dst where sd: "ip_src h = V4 src" "ip_dst h = V4 dst"
    using v4 by (cases "ip_src h"; cases "ip_dst h") (auto simp: hdr_wf_def is_v6_def)
  define body where "body = echo_body ICMPV4_ECHO_REPLY ?m"
  note body = echo_body_facts [OF msg(2), of ICMPV4_ECHO_REPLY, folded body_def]
  have l: "4 \<le> length body" "20 + length body \<le> 65535"
    using body(1) msg(2,4) parse_v4_payload [OF parsed v4] by auto
  define p where "p = v4_head e dst src (20 + length body) @ icmp_body e 0 body"
  have "build_echo_reply_v4 e req = frame_v4 e dst src body"
    using parsed sd a msg v4
    by (simp add: build_echo_reply_v4_def answerable_def icmp_family_def echo_body_writes [OF msg(2)] body_def)
  then have ok: "build_echo_reply_v4 e req = Ok p" using l by (simp add: frame_v4_eq p_def)
  have li: "length (icmp_body e 0 body) = length body" using l by simp
  have "parse_ip p = Ok (framed (V4 dst) (V4 src) (length body))"
    using parse_frame_v4 [of "icmp_body e 0 body" e dst src] l li by (simp add: p_def)
  moreover obtain c0 c1 where "icmp_body e 0 body = [ICMPV4_ECHO_REPLY, ?m ! 1, c0, c1] @ drop 4 ?m"
    using icmp_body_bytes [OF msg(2)] unfolding body_def by blast
  moreover have "icmp_message p (framed (V4 dst) (V4 src) (length body)) = icmp_body e 0 body"
    using li by (simp add: p_def icmp_message_def framed_def sub_drop_head)
  moreover have "icmp_valid p (framed (V4 dst) (V4 src) (length body))"
    unfolding p_def using framed_valid(1) [OF e l(1) body(2,3) l(2)] .
  moreover have "word_sum (take 20 p) mod 65535 = 0" using v4_head_sum [OF e] by (simp add: p_def)
  ultimately have "echoes req h p"
    using sd v4 body(1) li by (simp add: echoes_def Let_def p_def framed_def)
  with ok show ?thesis by blast
qed

lemma echo_reply_v6_ok:
  assumes e: "engine_sums e" and parsed: "parse_ip req = Ok h" and a: "answerable req h" and v6: "is_v6 h"
  shows "\<exists>p. build_echo_reply_v6 e req = Ok p \<and> echoes req h p"
proof -
  let ?m = "icmp_message req h"
  note msg = answerable_msg [OF parsed a]
  have wf: "hdr_wf h (length req)" using parsed by (auto simp: parse_ip_def dest: parse_Ok)
  then obtain src dst where sd: "ip_src h = V6 src" "ip_dst h = V6 dst"
    using v6 by (cases "ip_src h"; cases "ip_dst h") (auto simp: hdr_wf_def is_v6_def)
  define body where "body = echo_body ICMPV6_ECHO_REPLY ?m"
  note body = echo_body_facts [OF msg(2), of ICMPV6_ECHO_REPLY, folded body_def]
  have l: "4 \<le> length body" "length body \<le> 65535" using body(1) msg(2,5) by auto
  define seed where "seed = eng_pseudo e (V6 dst) (V6 src) (word_of_nat (length body))"
  define p where "p = v6_head dst src (length body) @ icmp_body e seed body"
  have "build_echo_reply_v6 e req = frame_v6 e dst src body"
    using parsed sd a msg v6
    by (simp add: build_echo_reply_v6_def answerable_def icmp_family_def echo_body_writes [OF msg(2)] body_def)
  then have ok: "build_echo_reply_v6 e req = Ok p" using l by (simp add: frame_v6_eq p_def seed_def)
  have li: "length (icmp_body e seed body) = length body" using l by simp
  have "parse_ip p = Ok (framed (V6 dst) (V6 src) (length body))"
    using parse_frame_v6 [of "icmp_body e seed body" dst src] l li by (simp add: p_def)
  moreover obtain c0 c1 where "icmp_body e seed body = [ICMPV6_ECHO_REPLY, ?m ! 1, c0, c1] @ drop 4 ?m"
    using icmp_body_bytes [OF msg(2)] unfolding body_def by blast
  moreover have "icmp_message p (framed (V6 dst) (V6 src) (length body)) = icmp_body e seed body"
    using li by (simp add: p_def icmp_message_def framed_def sub_drop_head)
  moreover have "icmp_valid p (framed (V6 dst) (V6 src) (length body))"
    unfolding p_def seed_def using framed_valid(2) [OF e l(1) body(2,3) l(2)] .
  ultimately have "echoes req h p"
    using sd v6 body(1) li by (simp add: echoes_def Let_def p_def framed_def)
  with ok show ?thesis by blast
qed

lemma no_msg_panic:
  "8 \<le> length msg \<Longrightarrow> with_nth msg 0 k = k (msg ! 0)"
  by (intro with_nth_in) linarith

lemma echo_reply_refused:
  assumes "\<And>h. parse_ip req = Ok h \<Longrightarrow> \<not> answerable req h"
  shows "build_echo_reply_v4 e req = Err ()" "build_echo_reply_v6 e req = Err ()"
proof -
  have guard: "kind \<noteq> ICMPV4_ECHO_REQUEST" if "parse_ip req = Ok h" "ip_src h = V4 src" "unicast_v4 src"
      "ip_protocol h = PROTO_ICMPV4" "slice_get req (ip_l4_offset h) (ip_total_len h) = Some msg" "8 \<le> length msg"
      "kind = msg ! 0" for h src msg kind
    using assms [OF that(1)] that by (auto simp: answerable_def icmp_family_def is_v6_def slice_get_Some)
  have guard6: "kind \<noteq> ICMPV6_ECHO_REQUEST" if "parse_ip req = Ok h" "ip_src h = V6 src" "unicast_v6 src"
      "ip_protocol h = PROTO_ICMPV6" "slice_get req (ip_l4_offset h) (ip_total_len h) = Some msg" "8 \<le> length msg"
      "kind = msg ! 0" for h src msg kind
    using assms [OF that(1)] that by (auto simp: answerable_def icmp_family_def is_v6_def slice_get_Some)
  consider (err) err where "parse_ip req = Err err" | (ok) h where "parse_ip req = Ok h"
    by (cases "parse_ip req") (auto simp: parse_ip_def)
  then show "build_echo_reply_v4 e req = Err ()" "build_echo_reply_v6 e req = Err ()"
  proof (atomize (full), cases)
    case ok
    then show "build_echo_reply_v4 e req = Err () \<and> build_echo_reply_v6 e req = Err ()"
      using guard [OF ok] guard6 [OF ok]
      by (cases "slice_get req (ip_l4_offset h) (ip_total_len h)")
        (auto simp: build_echo_reply_v4_def build_echo_reply_v6_def no_msg_panic not_less split: ip_addr.split)
  qed (simp add: build_echo_reply_v4_def build_echo_reply_v6_def)
qed

lemma echo_reply_other_family:
  assumes "parse_ip req = Ok h"
  shows "is_v6 h \<Longrightarrow> build_echo_reply_v4 e req = Err ()" "\<not> is_v6 h \<Longrightarrow> build_echo_reply_v6 e req = Err ()"
  using assms by (auto simp: build_echo_reply_v4_def build_echo_reply_v6_def is_v6_def split: ip_addr.split)

section \<open>Unreachable errors\<close>

lemma parse_prefix:
  assumes parsed: "parse pkt False = Ok h" and n: "ip_l4_offset h \<le> n" "n \<le> ip_total_len h"
  shows "parse (take n pkt) True = Ok (h\<lparr>ip_total_len := n\<rparr>)"
proof -
  have wf: "hdr_wf h (length pkt)" by (rule parse_Ok [OF parsed])
  then have l: "ip_total_len h \<le> length pkt" "20 \<le> ip_l4_offset h" by (auto simp: hdr_wf_def split: if_splits)
  obtain f r where pkt: "pkt = f # r" using parsed by (cases pkt) (simp_all add: parse_def)
  have hd: "take n pkt = f # take (n - 1) r" using pkt n l by (cases n) auto
  have tk: "rd16 (take n pkt) i = rd16 pkt i" "take n pkt ! i = pkt ! i" if "Suc i < 20" for i
    using that n l by simp_all
  consider "drop_bit 4 f = 4" "parse_v4 pkt False = Ok h" | "drop_bit 4 f \<noteq> 4" "drop_bit 4 f = 6" "parse_v6 pkt False = Ok h"
    using parsed by (auto simp: parse_def pkt Let_def split: if_splits)
  then show ?thesis
  proof cases
    case 1
    have "20 \<le> length pkt" "20 \<le> length (take n pkt)" using n l by simp_all
    note long = parse_v4_long [OF this(1), of False] parse_v4_long [OF this(2), of True]
    have "parse_v4 (take n pkt) True = Ok (h\<lparr>ip_total_len := n\<rparr>)"
      using 1(2) n l tk [of 0] tk [of 2] tk [of 6] tk [of 9] unfolding long
      by (auto simp: Let_def sub_take split: if_splits)
    then show ?thesis using 1(1) by (simp add: parse_def hd)
  next
    case 2
    then have "is_v6 h" using parse_v6_Ok by blast
    then have "40 \<le> n" using wf n by (simp add: hdr_wf_def)
    then have "parse_v6 (take n pkt) True = Ok (h\<lparr>ip_total_len := n\<rparr>)"
      using 2(3) n l tk [of 4] tk [of 6]
      by (auto simp: parse_v6_def Let_def IPV6_HEADER_def sub_take split: if_splits)
    then show ?thesis using 2(1,2) by (simp add: parse_def hd)
  qed
qed

definition unreach_body :: "u8 \<Rightarrow> u8 \<Rightarrow> bytes \<Rightarrow> bytes" where
  "unreach_body kind code quote = [kind, code, 0, 0, 0, 0, 0, 0] @ quote"

lemma unreach_body_writes:
  "overwrite (overwrite (overwrite (replicate (8 + length quote) 0) 0 [kind]) 1 [code]) 8 quote =
     unreach_body kind code quote"
  by (simp add: overwrite_def unreach_body_def numeral_eq_Suc)

text \<open>
  The packets the gateway answers with an unreachable: from a unicast sender and no ICMP error.
  The answer carries the quote it promises and reads back as an ICMP error of that packet.
\<close>

definition refusable :: "bytes \<Rightarrow> ip_header \<Rightarrow> bool" where
  "refusable pkt h \<longleftrightarrow> (case ip_src h of V4 a \<Rightarrow> unicast_v4 a | V6 a \<Rightarrow> unicast_v6 a) \<and> \<not> quotes_an_error pkt h"

definition quoted_len :: "ip_header \<Rightarrow> nat" where
  "quoted_len h = (if is_v6 h then min (ip_total_len h) 1232 else min (ip_l4_offset h + 8) (ip_total_len h))"

definition refuses :: "ip_addr \<Rightarrow> bytes \<Rightarrow> ip_header \<Rightarrow> bytes \<Rightarrow> bool" where
  "refuses source pkt h p \<longleftrightarrow>
     (let h' = framed source (ip_src h) (8 + quoted_len h) in
      parse_ip p = Ok h' \<and> length p = ip_total_len h' \<and> quotes_an_error p h' \<and>
      sub (ip_l4_offset h') 2 p = (if is_v6 h then [1, 0] else [3, 1]) \<and>
      sub (ip_l4_offset h' + 4) 4 p = [0, 0, 0, 0] \<and>
      quote_bytes p h' = take (quoted_len h) pkt \<and>
      parse_ip_quote (quote_bytes p h') = Ok (h\<lparr>ip_total_len := quoted_len h\<rparr>) \<and>
      icmp_valid p h' \<and> (is_v6 h \<or> word_sum (take 20 p) mod 65535 = 0))"

lemma unreach_body_facts:
  "length (unreach_body k c quote) = 8 + length quote" "unreach_body k c quote ! 2 = 0" "unreach_body k c quote ! 3 = 0"
  "\<exists>c0 c1. icmp_body e seed (unreach_body k c quote) = [k, c, c0, c1, 0, 0, 0, 0] @ quote"
  using to_be16_split by (auto simp: unreach_body_def icmp_body_def overwrite_def to_be16_def)

lemma quoted_len_bounds:
  assumes "parse_ip pkt = Ok h"
  shows "ip_l4_offset h \<le> quoted_len h" "quoted_len h \<le> ip_total_len h" "quoted_len h \<le> length pkt"
    "quoted_len h \<le> 1232" "length (take (quoted_len h) pkt) = quoted_len h"
  using assms parse_Ok(1) [of pkt False h] by (auto simp: parse_ip_def hdr_wf_def quoted_len_def split: if_splits)

text \<open>A framed unreachable is a refusal, whatever the family.\<close>

lemma framed_refuses:
  assumes parsed: "parse_ip pkt = Ok h" and m: "m = icmp_body e seed (unreach_body k c (take (quoted_len h) pkt))"
    and hd: "length head = (if is_v6 h then 40 else 20)" and fam: "is_ipv6 source = is_v6 h"
    and k: "(k, c) = (if is_v6 h then (1, 0) else (3, 1))"
    and reads: "parse_ip (head @ m) = Ok (framed source (ip_src h) (8 + quoted_len h))"
    and valid: "icmp_valid (head @ m) (framed source (ip_src h) (8 + quoted_len h))"
    and sum: "is_v6 h \<or> word_sum head mod 65535 = 0"
  shows "refuses source pkt h (head @ m)"
proof -
  note q = quoted_len_bounds [OF parsed]
  obtain c0 c1 where m': "m = [k, c, c0, c1, 0, 0, 0, 0] @ take (quoted_len h) pkt"
    using unreach_body_facts(4) unfolding m by blast
  let ?h = "framed source (ip_src h) (8 + quoted_len h)"
  have off: "ip_l4_offset ?h = length head" "ip_total_len ?h = length head + (8 + quoted_len h)"
      "ip_protocol ?h = (if is_v6 h then PROTO_ICMPV6 else PROTO_ICMPV4)"
    using hd fam by (auto simp: framed_def)
  have "quotes_an_error (head @ m) ?h"
    unfolding quotes_an_error_def off using k
    by (auto simp: m' nth_get_def is_icmp_error_def proto_defs split: if_splits)
  moreover have "sub (ip_l4_offset ?h) 2 (head @ m) = (if is_v6 h then [1, 0] else [3, 1])"
    "sub (ip_l4_offset ?h + 4) 4 (head @ m) = [0, 0, 0, 0]"
    unfolding off using k by (auto simp: m' sub_def split: if_splits)
  moreover have quote: "quote_bytes (head @ m) ?h = take (quoted_len h) pkt"
    unfolding quote_bytes_def off using q(5) by (simp add: m' sub_def)
  moreover have "parse_ip_quote (take (quoted_len h) pkt) = Ok (h\<lparr>ip_total_len := quoted_len h\<rparr>)"
    unfolding parse_ip_quote_def using parse_prefix [of pkt h] parsed q by (simp add: parse_ip_def)
  moreover have "length (head @ m) = ip_total_len ?h" unfolding off using q(5) by (simp add: m')
  moreover have "is_v6 h \<or> word_sum (take 20 (head @ m)) mod 65535 = 0" using sum hd by (cases "is_v6 h") auto
  ultimately show ?thesis using reads valid by (simp add: refuses_def Let_def)
qed

lemma unreachable_v4_ok:
  assumes e: "engine_sums e" and parsed: "parse_ip pkt = Ok h" and r: "refusable pkt h" and v4: "\<not> is_v6 h"
  shows "\<exists>p. build_unreachable_v4 e pkt source = Ok p \<and> refuses (V4 source) pkt h p"
proof -
  obtain dst where src: "ip_src h = V4 dst" using v4 by (cases "ip_src h") (auto simp: is_v6_def)
  note q = quoted_len_bounds [OF parsed]
  let ?quote = "take (quoted_len h) pkt"
  define body where "body = unreach_body 3 1 ?quote"
  note b = unreach_body_facts(1-3) [of 3 1 ?quote, folded body_def]
  have l: "4 \<le> length body" "20 + length body \<le> 65535" "length body = 8 + quoted_len h" using b(1) q by auto
  have quote: "slice_get pkt 0 (min (ip_l4_offset h + 8) (ip_total_len h)) = Some ?quote"
    using q(3) v4 by (simp add: quoted_len_def sub_def)
  have "build_unreachable_v4 e pkt source = frame_v4 e source dst body"
    using parsed src r quote unreach_body_writes [of ?quote 3 1]
    by (simp add: build_unreachable_v4_def refusable_def Let_def write_sub_def body_def)
  then have ok: "build_unreachable_v4 e pkt source = Ok (v4_head e source dst (20 + length body) @ icmp_body e 0 body)"
    using l by (simp add: frame_v4_eq)
  have "refuses (V4 source) pkt h (v4_head e source dst (20 + length body) @ icmp_body e 0 body)"
  proof (rule framed_refuses [OF parsed])
    show "icmp_body e 0 body = icmp_body e 0 (unreach_body 3 1 ?quote)" by (simp add: body_def)
    show "(3, 1) = (if is_v6 h then (1, 0) else (3 :: u8, 1 :: u8))" using v4 by simp
    show "parse_ip (v4_head e source dst (20 + length body) @ icmp_body e 0 body) =
        Ok (framed (V4 source) (ip_src h) (8 + quoted_len h))"
      using parse_frame_v4 [of "icmp_body e 0 body" e source dst] l src by simp
    show "icmp_valid (v4_head e source dst (20 + length body) @ icmp_body e 0 body)
        (framed (V4 source) (ip_src h) (8 + quoted_len h))"
      using framed_valid(1) [OF e l(1) b(2,3) l(2)] unfolding l(3) src .
    show "is_v6 h \<or> word_sum (v4_head e source dst (20 + length body)) mod 65535 = 0" using v4_head_sum [OF e] by simp
  qed (simp_all add: v4)
  with ok show ?thesis by blast
qed

lemma unreachable_v6_ok:
  assumes e: "engine_sums e" and parsed: "parse_ip pkt = Ok h" and r: "refusable pkt h" and v6: "is_v6 h"
  shows "\<exists>p. build_unreachable_v6 e pkt source = Ok p \<and> refuses (V6 source) pkt h p"
proof -
  obtain dst where src: "ip_src h = V6 dst" using v6 by (cases "ip_src h") (auto simp: is_v6_def)
  note q = quoted_len_bounds [OF parsed]
  let ?quote = "take (quoted_len h) pkt"
  define body where "body = unreach_body 1 0 ?quote"
  note b = unreach_body_facts(1-3) [of 1 0 ?quote, folded body_def]
  have l: "4 \<le> length body" "length body \<le> 65535" "length body = 8 + quoted_len h" using b(1) q by auto
  define seed where "seed = eng_pseudo e (V6 source) (V6 dst) (word_of_nat (length body))"
  have quote: "slice_get pkt 0 (min (ip_total_len h) (ICMPV6_MAX - IPV6_HEADER - 8)) = Some ?quote"
    using q(3) v6 by (simp add: quoted_len_def sub_def ICMPV6_MAX_def IPV6_HEADER_def)
  have "build_unreachable_v6 e pkt source = frame_v6 e source dst body"
    using parsed src r quote unreach_body_writes [of ?quote 1 0]
    by (simp add: build_unreachable_v6_def refusable_def Let_def write_sub_def body_def)
  then have ok: "build_unreachable_v6 e pkt source = Ok (v6_head source dst (length body) @ icmp_body e seed body)"
    using l by (simp add: frame_v6_eq seed_def)
  have "refuses (V6 source) pkt h (v6_head source dst (length body) @ icmp_body e seed body)"
  proof (rule framed_refuses [OF parsed])
    show "icmp_body e seed body = icmp_body e seed (unreach_body 1 0 ?quote)" by (simp add: body_def)
    show "(1, 0) = (if is_v6 h then (1 :: u8, 0 :: u8) else (3, 1))" using v6 by simp
    show "parse_ip (v6_head source dst (length body) @ icmp_body e seed body) =
        Ok (framed (V6 source) (ip_src h) (8 + quoted_len h))"
      using parse_frame_v6 [of "icmp_body e seed body" source dst] l src by simp
    show "icmp_valid (v6_head source dst (length body) @ icmp_body e seed body)
        (framed (V6 source) (ip_src h) (8 + quoted_len h))"
      using framed_valid(2) [OF e l(1) b(2,3) l(2)] unfolding l(3) src seed_def .
  qed (simp_all add: v6)
  with ok show ?thesis by blast
qed

lemma unreachable_refused:
  assumes "parse_ip pkt = Ok h"
  shows "\<not> refusable pkt h \<or> is_v6 h \<Longrightarrow> build_unreachable_v4 e pkt source = Err ()"
    "\<not> refusable pkt h \<or> \<not> is_v6 h \<Longrightarrow> build_unreachable_v6 e pkt source6 = Err ()"
  using assms
  by (auto simp: build_unreachable_v4_def build_unreachable_v6_def refusable_def is_v6_def split: ip_addr.splits)

lemma quote_port_set:
  assumes "is_icmp_error (ip_protocol outer) (pkt ! ip_l4_offset outer) \<and>
     ip_l4_offset outer + 8 \<le> ip_total_len outer \<and> ip_total_len outer \<le> length pkt \<and>
     eq_inner_offset q = ip_l4_offset outer + 8 \<and>
     parse (quote_bytes pkt outer) True = Ok (eq_inner q) \<and>
     quote_ids (quote_bytes pkt outer) (eq_inner q) = Ok (eq_ports q, eq_echo_id q)"
    and ready: "quote_ready (quote_bytes pkt outer) (eq_inner q) side addr port ck_at pseudo pat"
  shows "quote_port (set_quote side addr port q) side = (if port = None then quote_port q side else port)"
proof (cases port)
  case (Some w)
  let ?Q = "quote_bytes pkt outer" and ?i = "eq_inner q"
  have ids: "quote_ids ?Q ?i = Ok (eq_ports q, eq_echo_id q)" and wf: "ip_total_len ?i \<le> length ?Q"
    using assms(1) parse_Ok(1) [of ?Q True ?i] by (auto simp: hdr_wf_def)
  have pa: "quote_port_at ?Q (ip_protocol ?i) (ip_l4_offset ?i) (ip_total_len ?i) side (Some w) = Ok pat"
    and ck: "quote_checksum (ip_protocol ?i) = Some (ck_at, pseudo)" using ready Some by (auto simp: quote_ready_def)
  show ?thesis
  proof (cases "is_icmp (ip_protocol ?i)")
    case True
    then have "is_echo (ip_protocol ?i) (?Q ! ip_l4_offset ?i)" "ip_l4_offset ?i + 6 \<le> ip_total_len ?i"
      using pa by (auto simp: quote_port_at_def attempt_eq_Ok nth_get_def split: if_splits)
    then have "eq_ports q = None" "eq_echo_id q \<noteq> None" using quote_ids_icmp [OF True, of ?Q] ids wf by auto
    then show ?thesis using Some by (auto simp: quote_port_def set_quote_def)
  next
    case False
    then have "ip_protocol ?i = PROTO_TCP \<or> ip_protocol ?i = PROTO_UDP" "ip_l4_offset ?i + 4 \<le> ip_total_len ?i"
      using quote_checksum_Some(5) [OF ck] pa by (auto simp: quote_port_at_def split: if_splits)
    then have "eq_ports q \<noteq> None" using quote_ids_transport [of ?i ?Q] ids wf by auto
    then show ?thesis using Some by (cases side) (auto simp: quote_port_def set_quote_def set_port_def)
  qed
qed (simp add: set_quote_def quote_port_def split: option.split)

section \<open>Properties\<close>

text \<open>One concrete engine that computes what \<open>engine_sums\<close> asks for.\<close>

definition sum_engine :: engine where
  "sum_engine = \<lparr>eng_inc = rfc1624,
     eng_checksum = (\<lambda>seed data. word_of_nat (65535 - (unat seed + word_sum data) mod 65535)),
     eng_pseudo = (\<lambda>s d n. word_of_nat (pseudo_sum s d (unat n)))\<rparr>"

lemma sum_engine_sums: "engine_sums sum_engine"
proof -
  have ck: "(unat seed + word_sum data + unat (eng_checksum sum_engine seed data)) mod 65535 = 0" for seed data
  proof -
    let ?t = "unat seed + word_sum data"
    have "?t mod 65535 \<le> 65535" by (simp add: less_imp_le)
    then have "unat (eng_checksum sum_engine seed data) = 65535 - ?t mod 65535"
      unfolding sum_engine_def engine.simps by (intro unat_word_of_nat_u16) simp
    moreover have "(?t + (65535 - ?t mod 65535)) mod 65535 = (?t mod 65535 + (65535 - ?t mod 65535)) mod 65535"
      by (rule mod_add_left_eq [symmetric])
    ultimately show ?thesis using \<open>?t mod 65535 \<le> 65535\<close> by simp
  qed
  have small: "pseudo_sum (V6 s) (V6 d) (unat (n :: u32)) < 2 ^ 31" for s d n
  proof -
    have "word_sum (octets (V6 x)) \<le> 65535 * 8" for x
      using word_sum_le [of "octets (V6 x)"] by (simp add: addr_len_def)
    note this [of s] this [of d]
    moreover have "unat n div 65536 < 65536" "unat n mod 65536 < 65536"
      using unat_u32_less [of n] by (simp_all add: less_mult_imp_div_less)
    ultimately show ?thesis by (simp add: pseudo_sum_def)
  qed
  have "unat (eng_pseudo sum_engine (V6 s) (V6 d) n) = pseudo_sum (V6 s) (V6 d) (unat n)" for s d n
    using small [of s d n] by (simp add: sum_engine_def unat_of_nat)
  then show ?thesis using ck rfc1624_incremental small
    by (simp add: engine_sums_def) (simp add: sum_engine_def)
qed

text \<open>An error inside a packet of the other family is refused, and only its quote may have changed.\<close>

lemma mixed_family_refused:
  assumes parsed: "parse_ip pkt = Ok outer" and quote: "parse_error_quote pkt outer = Ok q"
    and fam: "\<not> icmp_family outer"
  shows "\<exists>err p. rewrite_error_quote e pkt outer q side addr port = Err (err, p) \<and> length p = length pkt \<and>
    take (ip_l4_offset outer + 8) p = take (ip_l4_offset outer + 8) pkt \<and>
    drop (ip_total_len outer) p = drop (ip_total_len outer) pkt"
proof -
  have q: "quote_in pkt outer q" by (rule parse_error_quote_in [OF parsed quote])
  have wf: "hdr_wf outer (length pkt)" using parsed by (auto simp: parse_ip_def dest: parse_Ok)
  show ?thesis
  proof (cases "\<exists>ck_at pseudo pat. quote_ready (quote_bytes pkt outer) (eq_inner q) side addr port ck_at pseudo pat")
    case True
    then obtain ck_at pseudo pat
      where ready: "quote_ready (quote_bytes pkt outer) (eq_inner q) side addr port ck_at pseudo pat" by blast
    let ?Q = "quote_rewritten (eng_inc e) (quote_bytes pkt outer) (eq_inner q) side addr port ck_at pseudo pat"
    let ?p = "overwrite pkt (ip_l4_offset outer + 8) ?Q"
    have in_: "ip_l4_offset outer + 8 \<le> ip_total_len outer" "ip_total_len outer \<le> length pkt"
      and wi: "hdr_wf (eq_inner q) (length (quote_bytes pkt outer))" using q by (auto simp: quote_in_def)
    have l: "length ?Q = ip_total_len outer - (ip_l4_offset outer + 8)"
      using length_quote_after [OF wi ready] in_ by (simp add: length_quote_bytes)
    then have len: "length ?p = length pkt" using in_ by simp
    obtain err where "recompute_icmp_checksum e ?p outer = Err (err, ?p)"
      using recompute_refused [of outer ?p e] wf fam len by auto
    moreover have "take (ip_l4_offset outer + 8) ?p = take (ip_l4_offset outer + 8) pkt"
      "drop (ip_total_len outer) ?p = drop (ip_total_len outer) pkt"
      using l in_ by (simp_all add: overwrite_def)
    ultimately show ?thesis using rewrite_error_quote_ready [OF q ready, of e] len by auto
  next
    case False
    then show ?thesis using rewrite_error_quote_cases [OF q, of e side addr port] by blast
  qed
qed


definition sample_error :: bytes where
  "sample_error = [0x45, 0, 0, 56, 0, 0, 0, 0, 64, 1, 0, 0, 8, 8, 8, 8, 10, 0, 0, 2, 3, 3, 0, 0, 0, 0, 0, 0] @ sample_udp"

definition sample_outer :: ip_header where
  "sample_outer = \<lparr>ip_src = V4 0x08080808, ip_dst = V4 0x0a000002, ip_protocol = 1, ip_l4_offset = 20, ip_total_len = 56\<rparr>"

definition sample_quote :: error_quote where
  "sample_quote = \<lparr>eq_inner_offset = 28, eq_inner = sample_udp_hdr, eq_ports = Some (40000, 53), eq_echo_id = None\<rparr>"

lemmas [eval_simps] = parse_error_quote_def quote_ids_def is_icmp_error_def quotes_an_error_def

lemma sample_error_parses: "parse_ip sample_error = Ok sample_outer" "parse_error_quote sample_error sample_outer = Ok sample_quote"
  by (simp_all add: eval_simps sample_error_def sample_outer_def sample_quote_def sample_udp_def sample_udp_hdr_def)


definition mixed_error :: bytes where
  "mixed_error = [0x60, 0, 0, 0, 0, 36, 1, 64, 7, 7, 7, 7, 7, 7, 7, 7, 7, 7, 7, 7, 7, 7, 7, 7,
     7, 7, 7, 7, 7, 7, 7, 7, 7, 7, 7, 7, 7, 7, 7, 7, 3, 3, 0, 0, 0, 0, 0, 0] @ sample_udp"

definition mixed_quote :: error_quote where
  "mixed_quote = sample_quote\<lparr>eq_inner_offset := 48\<rparr>"

definition mixed_outer :: ip_header where
  "mixed_outer = \<lparr>ip_src = V6 0x07070707070707070707070707070707, ip_dst = V6 0x07070707070707070707070707070707,
     ip_protocol = 1, ip_l4_offset = 40, ip_total_len = 76\<rparr>"

lemma mixed_error_parses: "parse_ip mixed_error = Ok mixed_outer"
  by (simp add: eval_simps mixed_error_def mixed_outer_def sample_udp_def)

lemma mixed_error_quote: "parse_error_quote mixed_error mixed_outer = Ok mixed_quote"
  by (simp add: eval_simps mixed_error_def mixed_outer_def sample_udp_def sample_udp_hdr_def mixed_quote_def sample_quote_def)

lemma mixed_error_refused:
  "\<exists>p. rewrite_error_quote sum_engine mixed_error mixed_outer mixed_quote Source (V4 0x0a400007) (Some 5000) =
     Err (UnsupportedProtocol, p) \<and> p ! 68 \<noteq> mixed_error ! 68"
  by (simp add: eval_simps rewrite_error_quote_def quote_checksum_def quote_port_at_def recompute_icmp_checksum_def
        mixed_error_def mixed_outer_def mixed_quote_def sample_quote_def sample_udp_def sample_udp_hdr_def sum_engine_def nth_append)

text \<open>
  An ICMP message of one family inside a packet of the other is refused only after its quote
  was rewritten: the call fails and leaves a changed packet.
\<close>

lemma mixed_family_refusal_writes:
  "\<exists>outer q p. parse_ip mixed_error = Ok outer \<and> parse_error_quote mixed_error outer = Ok q \<and>
     rewrite_error_quote sum_engine mixed_error outer q Source (V4 0x0a400007) (Some 5000) = Err (UnsupportedProtocol, p) \<and>
     p \<noteq> mixed_error"
proof -
  obtain p where p: "rewrite_error_quote sum_engine mixed_error mixed_outer mixed_quote Source (V4 0x0a400007) (Some 5000) =
      Err (UnsupportedProtocol, p)" "p ! 68 \<noteq> mixed_error ! 68" using mixed_error_refused by blast
  then have "p \<noteq> mixed_error" by (rule_tac notI) simp
  with p(1) show ?thesis using mixed_error_parses mixed_error_quote by (intro exI conjI)
qed

text \<open>
  C34.  The echo responder answers exactly the well-formed echo requests of unicast senders, in the
  family they came in, and the answer is right: it goes back to the sender from the address that
  was pinged, repeats the request's identifier, sequence number and payload, and all its checksums
  are valid.  Everything else is left unanswered, and nothing panics.
\<close>

theorem echo_reply_exact:
  assumes e: "engine_sums e"
  shows "(case parse_ip req of
       Ok h \<Rightarrow>
         if answerable req h
         then (if is_v6 h then (\<exists>p. build_echo_reply_v6 e req = Ok p \<and> echoes req h p) \<and> build_echo_reply_v4 e req = Err ()
               else (\<exists>p. build_echo_reply_v4 e req = Ok p \<and> echoes req h p) \<and> build_echo_reply_v6 e req = Err ())
         else build_echo_reply_v4 e req = Err () \<and> build_echo_reply_v6 e req = Err ()
     | _ \<Rightarrow> build_echo_reply_v4 e req = Err () \<and> build_echo_reply_v6 e req = Err ())"
proof (cases "parse_ip req")
  case (Ok h)
  then show ?thesis
    using echo_reply_v4_ok [OF e Ok] echo_reply_v6_ok [OF e Ok] echo_reply_refused [of req e]
      echo_reply_other_family [OF Ok] by (auto simp del: not_Some_eq)
qed (use echo_reply_refused [of req e] in auto)

definition sample_ping :: bytes where
  "sample_ping = [0x45, 0, 0, 29, 0, 0, 0, 0, 64, 1, 0, 0, 10, 64, 0, 2, 10, 64, 0, 1, 8, 0, 0, 0, 18, 52, 0, 1, 7]"

theorem echo_reply_exact_witness:
  "\<exists>p. build_echo_reply_v4 sum_engine sample_ping = Ok p \<and>
     (\<exists>h. parse_ip p = Ok h \<and> ip_src h = V4 0x0a400001 \<and> ip_dst h = V4 0x0a400002 \<and> drop 24 p = [18, 52, 0, 1, 7] \<and> icmp_valid p h)"
proof -
  define h where "h = \<lparr>ip_src = V4 0x0a400002, ip_dst = V4 0x0a400001, ip_protocol = 1, ip_l4_offset = 20, ip_total_len = 29\<rparr>"
  have h: "parse_ip sample_ping = Ok h" by (simp add: eval_simps sample_ping_def h_def)
  have a: "answerable sample_ping h"
    by (simp add: answerable_def icmp_family_def is_v6_def h_def sample_ping_def proto_defs echo_defs unicast_v4_def
        v4_is_multicast_def v4_is_broadcast_def v4_is_loopback_def)
  have v: "\<not> is_v6 h" by (simp add: h_def is_v6_def)
  have m: "icmp_message sample_ping h = [8, 0, 0, 0, 18, 52, 0, 1, 7]" by (simp add: icmp_message_def h_def sub_def sample_ping_def)
  obtain p where p: "build_echo_reply_v4 sum_engine sample_ping = Ok p" "echoes sample_ping h p"
    using echo_reply_exact [OF sum_engine_sums, of sample_ping] h a v by auto
  define h' where "h' = framed (V4 0x0a400001) (V4 0x0a400002) 9"
  obtain c0 c1 where r: "parse_ip p = Ok h'" "length p = 29" "icmp_valid p h'"
      "icmp_message p h' = [ICMPV4_ECHO_REPLY, 0, c0, c1, 18, 52, 0, 1, 7]"
    using p(2) v by (auto simp: echoes_def Let_def m) (auto simp: h_def h'_def framed_def)
  have "icmp_message p h' = drop 20 p" using r(2) by (simp add: icmp_message_def sub_def h'_def framed_def)
  then have "drop 20 p = [ICMPV4_ECHO_REPLY, 0, c0, c1, 18, 52, 0, 1, 7]" using r(4) by simp
  then have "drop 4 (drop 20 p) = [18, 52, 0, 1, 7]" by (simp only:) simp
  then show ?thesis using p(1) r(1,3) by (auto simp: h'_def framed_def)
qed

text \<open>
  C35.  The gateway answers a packet it cannot carry with one unreachable error exactly when the
  packet comes from a unicast sender and is no ICMP error itself.  The answer is host unreachable
  (type 3, code 1) for IPv4 and no route to destination (type 1, code 0) for IPv6; it goes to the sender,
  quotes the packet's own first bytes so that they parse back to its header, has valid checksums,
  never exceeds 1280 bytes, and is itself never answered.
\<close>

theorem unreachable_exact:
  assumes e: "engine_sums e" and parsed: "parse_ip pkt = Ok h"
  shows "(if refusable pkt h \<and> \<not> is_v6 h
      then \<exists>p. build_unreachable_v4 e pkt s4 = Ok p \<and> refuses (V4 s4) pkt h p \<and> length p \<le> 1280 \<and>
             build_unreachable_v4 e p s4' = Err () \<and> build_unreachable_v6 e p s6' = Err ()
      else build_unreachable_v4 e pkt s4 = Err ()) \<and>
    (if refusable pkt h \<and> is_v6 h
      then \<exists>p. build_unreachable_v6 e pkt s6 = Ok p \<and> refuses (V6 s6) pkt h p \<and> length p \<le> 1280 \<and>
             build_unreachable_v4 e p s4' = Err () \<and> build_unreachable_v6 e p s6' = Err ()
      else build_unreachable_v6 e pkt s6 = Err ())"
proof -
  have last: "length p \<le> 1280 \<and> build_unreachable_v4 e p s4' = Err () \<and> build_unreachable_v6 e p s6' = Err ()"
    if "refuses s pkt h p" for p s
  proof -
    define h' where "h' = framed s (ip_src h) (8 + quoted_len h)"
    have h': "parse_ip p = Ok h'" "quotes_an_error p h'" "length p \<le> 48 + quoted_len h"
      using that by (simp_all add: refuses_def Let_def flip: h'_def) (simp add: h'_def framed_def)
    then have "\<not> refusable p h'" by (simp add: refusable_def)
    then show ?thesis using h' quoted_len_bounds(4) [OF parsed] unreachable_refused [OF h'(1)] by simp
  qed
  show ?thesis
    using unreachable_v4_ok [OF e parsed, of s4] unreachable_v6_ok [OF e parsed, of s6] last
      unreachable_refused [OF parsed, of e] by (cases "is_v6 h"; cases "refusable pkt h") (simp_all, blast+)
qed

theorem unreachable_exact_witness:
  "\<exists>p. build_unreachable_v4 sum_engine sample_udp 0x0a400001 = Ok p \<and> length p = 56 \<and>
     (\<exists>h q. parse_ip p = Ok h \<and> parse_error_quote p h = Ok q \<and> eq_inner q = sample_udp_hdr)"
proof -
  have h: "sample_udp_hdr\<lparr>ip_total_len := 28\<rparr> = sample_udp_hdr" "quoted_len sample_udp_hdr = 28" "\<not> is_v6 sample_udp_hdr"
    by (simp_all add: sample_udp_hdr_def quoted_len_def is_v6_def)
  have "refusable sample_udp sample_udp_hdr"
    by (simp add: refusable_def eval_simps sample_udp_hdr_def sample_udp_def unicast_v4_def
        v4_is_multicast_def v4_is_broadcast_def v4_is_loopback_def)
  then obtain p where p: "build_unreachable_v4 sum_engine sample_udp 0x0a400001 = Ok p"
      "refuses (V4 0x0a400001) sample_udp sample_udp_hdr p"
    using unreachable_exact [OF sum_engine_sums parse_sample_udp, of "0x0a400001" 0 0 0] h(3) by auto
  define h' where "h' = framed (V4 0x0a400001) (ip_src sample_udp_hdr) 36"
  have r: "parse_ip p = Ok h'" "length p = 56" "quotes_an_error p h'" "parse_ip_quote (quote_bytes p h') = Ok sample_udp_hdr"
    using p(2) h by (auto simp: refuses_def Let_def h'_def framed_def)
  have o: "ip_l4_offset h' = 20" "ip_total_len h' = 56" by (simp_all add: h'_def framed_def)
  have "length (quote_bytes p h') = 28" using r(2) o by (simp add: quote_bytes_def)
  then obtain ids where ids: "quote_ids (quote_bytes p h') sample_udp_hdr = Ok ids"
    using quote_ids_transport [of sample_udp_hdr "quote_bytes p h'"] by (auto simp: sample_udp_hdr_def proto_defs)
  have "parse_error_quote p h' = Ok \<lparr>eq_inner_offset = 28, eq_inner = sample_udp_hdr, eq_ports = fst ids, eq_echo_id = snd ids\<rparr>"
    using r o ids by (simp add: parse_error_quote_Ok_iff parse_ip_quote_def quotes_an_error_def nth_get_def)
  then show ?thesis using p(1) r(1,2) by auto
qed

end
