(* ===== verification/Stats.thy ===== *)
theory Stats
  imports Ip
begin

text \<open>
  \<open>warren-bolthole-core/src/stats.rs\<close> and \<open>peer.rs\<close>, with the drop classes of \<open>nat.rs\<close>: who a peer
  is, why a packet is refused, and the counters every refusal is accounted under.  A counter is a
  64-bit word whose increment wraps, so the accounting laws are equations between words.
\<close>

section \<open>Peers\<close>

type_synonym peer_id = u32

datatype label_error = Empty | TooLong | BadCharacter

definition is_ascii_alphanumeric :: "u8 \<Rightarrow> bool" where
  "is_ascii_alphanumeric b \<longleftrightarrow> (48 \<le> b \<and> b \<le> 57) \<or> (65 \<le> b \<and> b \<le> 90) \<or> (97 \<le> b \<and> b \<le> 122)"

definition label_new :: "bytes \<Rightarrow> (label_error, bytes) res" where
  "label_new value =
     (if value = [] then Err Empty
      else if 32 < length value then Err TooLong
      else if \<not> list_all (\<lambda>b. is_ascii_alphanumeric b \<or> b = 45 \<or> b = 95 \<or> b = 46) value then Err BadCharacter
      else Ok value)"

datatype drop_reason =
    Oversize | MalformedDatagram | GateClosed | SourceRateLimited | UnknownPeer | UnknownIndex | Auth | Replay
  | SpoofedSource | LinkLocalSource | NonUnicast | SelfDestination | PeerIsolation | UnownedPeerAddress
  | PoolDestination | PrivateDestination | V6Unavailable | V6Budget | NoRoute

record peer_stats =
  ps_rx_bytes :: u64
  ps_tx_bytes :: u64
  ps_handshakes :: u64
  ps_deferred :: u64
  ps_drops :: u64

section \<open>Why the translator refuses a packet\<close>

datatype nat_drop =
    SourceNotOwned | NoMapping | PortExhausted | PeerCap | FragmentDrop | ExtensionHeaderDrop
  | UnsupportedProtocolDrop | MalformedDrop | FamilyUnavailable

fun drop_from :: "packet_error \<Rightarrow> nat_drop" where
  "drop_from Fragment = FragmentDrop"
| "drop_from ExtensionHeader = ExtensionHeaderDrop"
| "drop_from UnsupportedProtocol = UnsupportedProtocolDrop"
| "drop_from Truncated = MalformedDrop"
| "drop_from BadVersion = MalformedDrop"
| "drop_from FamilyMismatch = MalformedDrop"
| "drop_from NotAnEcho = MalformedDrop"
| "drop_from NotAnIcmpError = MalformedDrop"

section \<open>The translator's counters\<close>

record snapshot =
  sn_uplink_translated :: u64
  sn_downlink_translated :: u64
  sn_uplink_dropped :: u64
  sn_downlink_dropped :: u64
  sn_source_not_owned :: u64
  sn_no_mapping :: u64
  sn_port_exhausted :: u64
  sn_peer_cap :: u64
  sn_fragment :: u64
  sn_v6_extension_header :: u64
  sn_unsupported_protocol :: u64
  sn_malformed :: u64
  sn_family_unavailable :: u64

definition snapshot_default :: snapshot where
  "snapshot_default =
     \<lparr>sn_uplink_translated = 0, sn_downlink_translated = 0, sn_uplink_dropped = 0, sn_downlink_dropped = 0,
      sn_source_not_owned = 0, sn_no_mapping = 0, sn_port_exhausted = 0, sn_peer_cap = 0, sn_fragment = 0,
      sn_v6_extension_header = 0, sn_unsupported_protocol = 0, sn_malformed = 0, sn_family_unavailable = 0\<rparr>"

text \<open>\<open>Counters\<close> holds one \<open>Snapshot\<close> and nothing else, so the snapshot is its state.\<close>

type_synonym counters = snapshot

fun by_class :: "nat_drop \<Rightarrow> counters \<Rightarrow> counters" where
  "by_class SourceNotOwned c = c\<lparr>sn_source_not_owned := sn_source_not_owned c + 1\<rparr>"
| "by_class NoMapping c = c\<lparr>sn_no_mapping := sn_no_mapping c + 1\<rparr>"
| "by_class PortExhausted c = c\<lparr>sn_port_exhausted := sn_port_exhausted c + 1\<rparr>"
| "by_class PeerCap c = c\<lparr>sn_peer_cap := sn_peer_cap c + 1\<rparr>"
| "by_class FragmentDrop c = c\<lparr>sn_fragment := sn_fragment c + 1\<rparr>"
| "by_class ExtensionHeaderDrop c = c\<lparr>sn_v6_extension_header := sn_v6_extension_header c + 1\<rparr>"
| "by_class UnsupportedProtocolDrop c = c\<lparr>sn_unsupported_protocol := sn_unsupported_protocol c + 1\<rparr>"
| "by_class MalformedDrop c = c\<lparr>sn_malformed := sn_malformed c + 1\<rparr>"
| "by_class FamilyUnavailable c = c\<lparr>sn_family_unavailable := sn_family_unavailable c + 1\<rparr>"

definition count_uplink_translated :: "counters \<Rightarrow> counters" where
  "count_uplink_translated c = c\<lparr>sn_uplink_translated := sn_uplink_translated c + 1\<rparr>"

definition count_downlink_translated :: "counters \<Rightarrow> counters" where
  "count_downlink_translated c = c\<lparr>sn_downlink_translated := sn_downlink_translated c + 1\<rparr>"

definition count_uplink_dropped :: "nat_drop \<Rightarrow> counters \<Rightarrow> counters" where
  "count_uplink_dropped d c = by_class d (c\<lparr>sn_uplink_dropped := sn_uplink_dropped c + 1\<rparr>)"

definition count_downlink_dropped :: "nat_drop \<Rightarrow> counters \<Rightarrow> counters" where
  "count_downlink_dropped d c = by_class d (c\<lparr>sn_downlink_dropped := sn_downlink_dropped c + 1\<rparr>)"

section \<open>The responder's counters\<close>

record responder_snapshot =
  rs_datagrams :: u64
  rs_handshakes :: u64
  rs_uplink :: u64
  rs_replies :: u64
  rs_cookies :: u64
  rs_loopback :: u64
  rs_dropped :: u64
  rs_handshake_refused_gate_closed :: u64
  rs_dropped_gate_closed :: u64
  rs_source_rate_limited :: u64
  rs_unknown_peer :: u64
  rs_unknown_index :: u64
  rs_auth_failed :: u64
  rs_replayed :: u64
  rs_spoofed_source :: u64
  rs_link_local_source :: u64
  rs_oversize :: u64
  rs_malformed :: u64
  rs_non_unicast :: u64
  rs_self_destination :: u64
  rs_peer_isolation :: u64
  rs_unowned_peer_address :: u64
  rs_pool_destination :: u64
  rs_private_destination :: u64
  rs_v6_unavailable :: u64
  rs_v6_budget :: u64
  rs_no_route :: u64
  rs_downlink_queued :: u64
  rs_downlink_dropped_no_endpoint :: u64
  rs_answers_suppressed :: u64
  rs_clock_jump_resets :: u64

definition responder_snapshot_default :: responder_snapshot where
  "responder_snapshot_default =
     \<lparr>rs_datagrams = 0, rs_handshakes = 0, rs_uplink = 0, rs_replies = 0, rs_cookies = 0, rs_loopback = 0,
      rs_dropped = 0, rs_handshake_refused_gate_closed = 0, rs_dropped_gate_closed = 0, rs_source_rate_limited = 0,
      rs_unknown_peer = 0, rs_unknown_index = 0, rs_auth_failed = 0, rs_replayed = 0, rs_spoofed_source = 0,
      rs_link_local_source = 0, rs_oversize = 0, rs_malformed = 0, rs_non_unicast = 0, rs_self_destination = 0,
      rs_peer_isolation = 0, rs_unowned_peer_address = 0, rs_pool_destination = 0, rs_private_destination = 0,
      rs_v6_unavailable = 0, rs_v6_budget = 0, rs_no_route = 0, rs_downlink_queued = 0,
      rs_downlink_dropped_no_endpoint = 0, rs_answers_suppressed = 0, rs_clock_jump_resets = 0\<rparr>"

type_synonym responder_counters = responder_snapshot

fun by_reason :: "drop_reason \<Rightarrow> responder_counters \<Rightarrow> responder_counters" where
  "by_reason Oversize c = c\<lparr>rs_oversize := rs_oversize c + 1\<rparr>"
| "by_reason MalformedDatagram c = c\<lparr>rs_malformed := rs_malformed c + 1\<rparr>"
| "by_reason GateClosed c = c\<lparr>rs_dropped_gate_closed := rs_dropped_gate_closed c + 1\<rparr>"
| "by_reason SourceRateLimited c = c\<lparr>rs_source_rate_limited := rs_source_rate_limited c + 1\<rparr>"
| "by_reason UnknownPeer c = c\<lparr>rs_unknown_peer := rs_unknown_peer c + 1\<rparr>"
| "by_reason UnknownIndex c = c\<lparr>rs_unknown_index := rs_unknown_index c + 1\<rparr>"
| "by_reason Auth c = c\<lparr>rs_auth_failed := rs_auth_failed c + 1\<rparr>"
| "by_reason Replay c = c\<lparr>rs_replayed := rs_replayed c + 1\<rparr>"
| "by_reason SpoofedSource c = c\<lparr>rs_spoofed_source := rs_spoofed_source c + 1\<rparr>"
| "by_reason LinkLocalSource c = c\<lparr>rs_link_local_source := rs_link_local_source c + 1\<rparr>"
| "by_reason NonUnicast c = c\<lparr>rs_non_unicast := rs_non_unicast c + 1\<rparr>"
| "by_reason SelfDestination c = c\<lparr>rs_self_destination := rs_self_destination c + 1\<rparr>"
| "by_reason PeerIsolation c = c\<lparr>rs_peer_isolation := rs_peer_isolation c + 1\<rparr>"
| "by_reason UnownedPeerAddress c = c\<lparr>rs_unowned_peer_address := rs_unowned_peer_address c + 1\<rparr>"
| "by_reason PoolDestination c = c\<lparr>rs_pool_destination := rs_pool_destination c + 1\<rparr>"
| "by_reason PrivateDestination c = c\<lparr>rs_private_destination := rs_private_destination c + 1\<rparr>"
| "by_reason V6Unavailable c = c\<lparr>rs_v6_unavailable := rs_v6_unavailable c + 1\<rparr>"
| "by_reason V6Budget c = c\<lparr>rs_v6_budget := rs_v6_budget c + 1\<rparr>"
| "by_reason NoRoute c = c\<lparr>rs_no_route := rs_no_route c + 1\<rparr>"

definition rc_dropped :: "drop_reason \<Rightarrow> responder_counters \<Rightarrow> responder_counters" where
  "rc_dropped r c = by_reason r (c\<lparr>rs_dropped := rs_dropped c + 1\<rparr>)"

definition rc_handshake_refused_gate_closed :: "responder_counters \<Rightarrow> responder_counters" where
  "rc_handshake_refused_gate_closed c =
     rc_dropped GateClosed (c\<lparr>rs_handshake_refused_gate_closed := rs_handshake_refused_gate_closed c + 1\<rparr>)"

definition rc_datagram :: "responder_counters \<Rightarrow> responder_counters" where
  "rc_datagram c = c\<lparr>rs_datagrams := rs_datagrams c + 1\<rparr>"

definition rc_handshake :: "responder_counters \<Rightarrow> responder_counters" where
  "rc_handshake c = c\<lparr>rs_handshakes := rs_handshakes c + 1\<rparr>"

definition rc_uplink :: "responder_counters \<Rightarrow> responder_counters" where
  "rc_uplink c = c\<lparr>rs_uplink := rs_uplink c + 1\<rparr>"

definition rc_reply :: "bool \<Rightarrow> responder_counters \<Rightarrow> responder_counters" where
  "rc_reply cookie c =
     (let c = c\<lparr>rs_replies := rs_replies c + 1\<rparr> in if cookie then c\<lparr>rs_cookies := rs_cookies c + 1\<rparr> else c)"

definition rc_loopback :: "responder_counters \<Rightarrow> responder_counters" where
  "rc_loopback c = c\<lparr>rs_loopback := rs_loopback c + 1\<rparr>"

definition rc_downlink_queued :: "responder_counters \<Rightarrow> responder_counters" where
  "rc_downlink_queued c = c\<lparr>rs_downlink_queued := rs_downlink_queued c + 1\<rparr>"

definition rc_dropped_without_endpoint :: "responder_counters \<Rightarrow> responder_counters" where
  "rc_dropped_without_endpoint c = c\<lparr>rs_downlink_dropped_no_endpoint := rs_downlink_dropped_no_endpoint c + 1\<rparr>"

definition rc_answer_suppressed :: "responder_counters \<Rightarrow> responder_counters" where
  "rc_answer_suppressed c = c\<lparr>rs_answers_suppressed := rs_answers_suppressed c + 1\<rparr>"

definition rc_clock_jump_reset :: "responder_counters \<Rightarrow> responder_counters" where
  "rc_clock_jump_reset c = c\<lparr>rs_clock_jump_resets := rs_clock_jump_resets c + 1\<rparr>"

section \<open>Every refusal is in exactly one class\<close>

definition class_sum :: "counters \<Rightarrow> u64" where
  "class_sum c = sn_source_not_owned c + sn_no_mapping c + sn_port_exhausted c + sn_peer_cap c + sn_fragment c +
     sn_v6_extension_header c + sn_unsupported_protocol c + sn_malformed c + sn_family_unavailable c"

definition accounted :: "counters \<Rightarrow> bool" where
  "accounted c \<longleftrightarrow> sn_uplink_dropped c + sn_downlink_dropped c = class_sum c"

lemma class_sum_by_class [simp]: "class_sum (by_class d c) = class_sum c + 1"
  by (cases d) (simp_all add: class_sum_def)

lemma by_class_totals [simp]:
  "sn_uplink_dropped (by_class d c) = sn_uplink_dropped c"
  "sn_downlink_dropped (by_class d c) = sn_downlink_dropped c"
  "sn_uplink_translated (by_class d c) = sn_uplink_translated c"
  "sn_downlink_translated (by_class d c) = sn_downlink_translated c"
  by (cases d; simp)+

lemma class_sum_totals [simp]:
  "class_sum (c\<lparr>sn_uplink_dropped := a\<rparr>) = class_sum c" "class_sum (c\<lparr>sn_downlink_dropped := a\<rparr>) = class_sum c"
  "class_sum (c\<lparr>sn_uplink_translated := a\<rparr>) = class_sum c" "class_sum (c\<lparr>sn_downlink_translated := a\<rparr>) = class_sum c"
  by (simp_all add: class_sum_def)

lemma accounted_default [simp]: "accounted snapshot_default"
  by (simp add: accounted_def class_sum_def snapshot_default_def)

lemma accounted_counts [simp]:
  "accounted (count_uplink_translated c) = accounted c" "accounted (count_downlink_translated c) = accounted c"
  "accounted (count_uplink_dropped d c) = accounted c" "accounted (count_downlink_dropped d c) = accounted c"
  by (simp_all add: accounted_def count_uplink_translated_def count_downlink_translated_def
      count_uplink_dropped_def count_downlink_dropped_def flip: add.assoc)

text \<open>The same for the responder, whose closed-gate refusals are counted once more.\<close>

definition reason_sum :: "responder_counters \<Rightarrow> u64" where
  "reason_sum c = rs_oversize c + rs_malformed c + rs_dropped_gate_closed c + rs_source_rate_limited c +
     rs_unknown_peer c + rs_unknown_index c + rs_auth_failed c + rs_replayed c + rs_spoofed_source c +
     rs_link_local_source c + rs_non_unicast c + rs_self_destination c + rs_peer_isolation c +
     rs_unowned_peer_address c + rs_pool_destination c + rs_private_destination c + rs_v6_unavailable c +
     rs_v6_budget c + rs_no_route c"

lemma reason_sum_by_reason [simp]: "reason_sum (by_reason r c) = reason_sum c + 1"
  by (cases r) (simp_all add: reason_sum_def)

lemma rs_dropped_by_reason [simp]: "rs_dropped (by_reason r c) = rs_dropped c"
  by (cases r) simp_all

datatype rc_event =
    EvDatagram | EvHandshake | EvUplink | EvReply bool | EvLoopback | EvQueued | EvNoEndpoint | EvSuppressed
  | EvClockJump | EvDropped drop_reason | EvRefusedGateClosed

fun rc_apply :: "rc_event \<Rightarrow> responder_counters \<Rightarrow> responder_counters" where
  "rc_apply EvDatagram = rc_datagram"
| "rc_apply EvHandshake = rc_handshake"
| "rc_apply EvUplink = rc_uplink"
| "rc_apply (EvReply cookie) = rc_reply cookie"
| "rc_apply EvLoopback = rc_loopback"
| "rc_apply EvQueued = rc_downlink_queued"
| "rc_apply EvNoEndpoint = rc_dropped_without_endpoint"
| "rc_apply EvSuppressed = rc_answer_suppressed"
| "rc_apply EvClockJump = rc_clock_jump_reset"
| "rc_apply (EvDropped r) = rc_dropped r"
| "rc_apply EvRefusedGateClosed = rc_handshake_refused_gate_closed"

lemmas rc_defs = rc_datagram_def rc_handshake_def rc_uplink_def rc_reply_def rc_loopback_def rc_downlink_queued_def
  rc_dropped_without_endpoint_def rc_answer_suppressed_def rc_clock_jump_reset_def rc_dropped_def
  rc_handshake_refused_gate_closed_def

lemma rc_apply_accounted:
  "rs_dropped c = reason_sum c \<Longrightarrow> rs_dropped (rc_apply ev c) = reason_sum (rc_apply ev c)"
proof -
  assume "rs_dropped c = reason_sum c"
  moreover have "reason_sum (c\<lparr>rs_dropped := a\<rparr>) = reason_sum c"
    "reason_sum (c\<lparr>rs_handshake_refused_gate_closed := a\<rparr>) = reason_sum c" for a c
    by (simp_all add: reason_sum_def)
  ultimately show ?thesis
    by (cases ev) (simp_all add: rc_defs Let_def, simp_all add: reason_sum_def)
qed

end
