(* ===== verification/Napt.thy ===== *)
theory Napt
  imports Ports Icmp Stats "HOL-Library.Product_Lexorder"
begin

text \<open>
  \<open>warren-bolthole-core/src/nat.rs\<close>: the peer-aware address and port translator, every operation of
  it.  The state record has the fields of \<open>Napt\<close>; its hash maps are maps of HOL, the two-dimensional
  array of allocators is a function of the family and the protocol, and the binary heap of
  deadlines is the sorted list of its entries.  An operation takes the state and returns it;
  translations also take and return the packet, so that what a refusal leaves behind is visible.

  Outside code is gathered in the record \<open>world\<close>: the checksum engine, the generator of the \<open>rand\<close>
  crate, and the order in which a \<open>HashMap\<close> iterates.  The longest-match table of the
  \<open>ip_network_table\<close> crate is the lookup function in the state's \<open>n_ownership\<close> field.
\<close>

unbundle bit_operations_syntax

section \<open>Data\<close>

type_synonym exit_id = bytes
type_synonym mapping_id = nat
type_synonym socket_addr = "ip_addr \<times> u16"
type_synonym ownership = "ip_addr \<Rightarrow> peer_id option"

record epoch_id =
  ep_exit :: exit_id
  ep_generation :: u64

datatype map_proto = Tcp | Udp | Icmp

record translated =
  tr_peer :: peer_id
  tr_destination :: ip_addr

record static_dnat =
  sd_proto :: map_proto
  sd_external_port :: u16
  sd_target :: socket_addr

record nat_config =
  nc_pool :: "u16 \<times> u16"
  nc_per_peer_mappings :: nat
  nc_per_peer_identifiers :: nat
  nc_remotes_per_mapping :: nat
  nc_udp_initial :: duration
  nc_udp_established :: duration
  nc_tcp_syn :: duration
  nc_tcp_established :: duration
  nc_tcp_closing :: duration
  nc_icmp :: duration

definition nat_config_default :: nat_config where
  "nat_config_default =
     \<lparr>nc_pool = (DYNAMIC_POOL_START, DYNAMIC_POOL_END), nc_per_peer_mappings = 4096, nc_per_peer_identifiers = 1024,
      nc_remotes_per_mapping = 64, nc_udp_initial = secs 30, nc_udp_established = secs 120, nc_tcp_syn = secs 60,
      nc_tcp_established = secs 7440, nc_tcp_closing = secs 60, nc_icmp = secs 60\<rparr>"

datatype flow_state = UdpOneWay | UdpAnswered | TcpSyn | TcpEstablished | TcpClosed | IcmpFlow

record remote_flow =
  rf_addr :: ip_addr
  rf_port :: u16
  rf_state :: flow_state
  rf_fin_up :: bool
  rf_fin_down :: bool
  rf_last_seen :: instant

record mapping =
  m_owner :: peer_id
  m_proto :: map_proto
  m_internal :: socket_addr
  m_external_port :: u16
  m_remotes :: "remote_flow list"
  m_last_seen :: instant
  m_pinned :: bool
  m_older :: "mapping_id option"
  m_newer :: "mapping_id option"

record 'g napt =
  n_config :: nat_config
  n_ownership :: ownership
  n_exit :: "exit_id option"
  n_epoch :: "epoch_id option"
  n_v4 :: "u32 option"
  n_v6 :: "u128 option"
  n_mappings :: "mapping_id \<rightharpoonup> mapping"
  n_recency :: "peer_id \<times> map_proto \<rightharpoonup> mapping_id \<times> mapping_id"
  n_outbound :: "map_proto \<times> ip_addr \<times> u16 \<rightharpoonup> mapping_id"
  n_inbound :: "map_proto \<times> bool \<times> u16 \<rightharpoonup> mapping_id"
  n_counts :: "peer_id \<times> map_proto \<rightharpoonup> nat"
  n_ports :: "bool \<Rightarrow> map_proto \<Rightarrow> port_allocator"
  n_expiry :: "(instant \<times> mapping_id) list"
  n_next_id :: mapping_id
  n_counters :: counters
  n_rng :: 'g

record 'g world =
  w_engine :: engine
  w_draw :: "'g draw"
  w_order :: "mapping_id list \<Rightarrow> mapping_id list"

text \<open>The index of the first element that satisfies a predicate, as \<open>Iterator::position\<close>.\<close>

fun position :: "('a \<Rightarrow> bool) \<Rightarrow> 'a list \<Rightarrow> nat option" where
  "position P [] = None"
| "position P (x # xs) = (if P x then Some 0 else map_option Suc (position P xs))"

definition remote_index :: "mapping \<Rightarrow> ip_addr \<Rightarrow> u16 \<Rightarrow> nat option" where
  "remote_index m addr port = position (\<lambda>r. rf_addr r = addr \<and> rf_port r = port) (m_remotes m)"

definition with_rng :: "nat_config \<Rightarrow> 'g \<Rightarrow> 'g napt" where
  "with_rng config rng =
     \<lparr>n_config = config, n_ownership = (\<lambda>_. None), n_exit = None, n_epoch = None, n_v4 = None, n_v6 = None,
      n_mappings = Map.empty, n_recency = Map.empty, n_outbound = Map.empty, n_inbound = Map.empty,
      n_counts = Map.empty,
      n_ports = (\<lambda>v6 proto. case proto of Icmp \<Rightarrow> identifiers | _ \<Rightarrow> pa_ports (fst (nc_pool config)) (snd (nc_pool config))),
      n_expiry = [], n_next_id = 1, n_counters = snapshot_default, n_rng = rng\<rparr>"

section \<open>Flows\<close>

definition advance :: "remote_flow \<Rightarrow> map_proto \<Rightarrow> u8 \<Rightarrow> bool \<Rightarrow> remote_flow \<times> bool" where
  "advance flow proto flags uplink =
     (let was_open = (rf_state flow \<noteq> TcpClosed) in
      case proto of
        Udp \<Rightarrow>
          let flow = (if \<not> uplink then flow\<lparr>rf_state := UdpAnswered\<rparr> else flow)
          in (flow, was_open \<and> rf_state flow = TcpClosed)
      | Icmp \<Rightarrow> let flow = flow\<lparr>rf_state := IcmpFlow\<rparr> in (flow, was_open \<and> rf_state flow = TcpClosed)
      | Tcp \<Rightarrow>
          if flags AND TCP_RST \<noteq> 0 then (flow\<lparr>rf_state := TcpClosed\<rparr>, was_open)
          else
            let flow = (if flags AND TCP_SYN \<noteq> 0 \<and> flags AND TCP_ACK \<noteq> 0 \<and> \<not> uplink
                        then flow\<lparr>rf_state := TcpEstablished\<rparr>
                        else if flags AND TCP_SYN \<noteq> 0 \<and> flags AND TCP_ACK = 0 \<and> uplink
                        then flow\<lparr>rf_state := TcpSyn, rf_fin_up := False, rf_fin_down := False\<rparr>
                        else flow);
                flow = (if flags AND TCP_FIN \<noteq> 0
                        then (if uplink then flow\<lparr>rf_fin_up := True\<rparr> else flow\<lparr>rf_fin_down := True\<rparr>)
                        else flow);
                flow = (if rf_fin_up flow \<and> rf_fin_down flow then flow\<lparr>rf_state := TcpClosed\<rparr> else flow)
            in (flow, was_open \<and> rf_state flow = TcpClosed))"

text \<open>The first of the least recently seen remotes, as \<open>min_by_key\<close> picks it.\<close>

fun oldest_from :: "nat \<Rightarrow> nat \<Rightarrow> instant \<Rightarrow> remote_flow list \<Rightarrow> nat" where
  "oldest_from i best t [] = best"
| "oldest_from i best t (r # rs) =
     (if rf_last_seen r < t then oldest_from (Suc i) i (rf_last_seen r) rs else oldest_from (Suc i) best t rs)"

fun oldest_remote :: "remote_flow list \<Rightarrow> nat option" where
  "oldest_remote [] = None"
| "oldest_remote (r # rs) = Some (oldest_from 1 0 (rf_last_seen r) rs)"

definition map_proto_of :: "u8 \<Rightarrow> bool \<Rightarrow> map_proto option" where
  "map_proto_of protocol v6 =
     (if protocol = PROTO_TCP then Some Tcp
      else if protocol = PROTO_UDP then Some Udp
      else if \<not> v6 \<and> protocol = PROTO_ICMPV4 \<or> v6 \<and> protocol = PROTO_ICMPV6 then Some Icmp
      else None)"

fun flow_timeout :: "nat_config \<Rightarrow> flow_state \<Rightarrow> duration" where
  "flow_timeout c UdpOneWay = nc_udp_initial c"
| "flow_timeout c UdpAnswered = nc_udp_established c"
| "flow_timeout c TcpSyn = nc_tcp_syn c"
| "flow_timeout c TcpEstablished = nc_tcp_established c"
| "flow_timeout c TcpClosed = nc_tcp_closing c"
| "flow_timeout c IcmpFlow = nc_icmp c"

fun initial_timeout :: "nat_config \<Rightarrow> map_proto \<Rightarrow> duration" where
  "initial_timeout c Tcp = nc_tcp_syn c"
| "initial_timeout c Udp = nc_udp_initial c"
| "initial_timeout c Icmp = nc_icmp c"

definition deadline_of :: "nat_config \<Rightarrow> mapping \<Rightarrow> instant" where
  "deadline_of c m =
     (if m_pinned m then m_last_seen m + secs 86400
      else foldl (\<lambda>deadline flow. max deadline (rf_last_seen flow + flow_timeout c (rf_state flow)))
             (m_last_seen m + initial_timeout c (m_proto m)) (m_remotes m))"

section \<open>The recency list\<close>

definition upd_mapping :: "mapping_id \<Rightarrow> (mapping \<Rightarrow> mapping) \<Rightarrow> 'g napt \<Rightarrow> 'g napt" where
  "upd_mapping mid f s =
     (case n_mappings s mid of None \<Rightarrow> s | Some m \<Rightarrow> s\<lparr>n_mappings := (n_mappings s)(mid \<mapsto> f m)\<rparr>)"

definition oldest_of :: "peer_id \<Rightarrow> map_proto \<Rightarrow> 'g napt \<Rightarrow> mapping_id option" where
  "oldest_of peer proto s = map_option fst (n_recency s (peer, proto))"

definition link_newest :: "mapping_id \<Rightarrow> 'g napt \<Rightarrow> 'g napt" where
  "link_newest mid s =
     (case n_mappings s mid of
        None \<Rightarrow> s
      | Some m \<Rightarrow>
          if m_pinned m then s
          else
            let key = (m_owner m, m_proto m);
                (previous, s) =
                  (case n_recency s key of
                     Some (oldest, newest) \<Rightarrow> (Some newest, s\<lparr>n_recency := (n_recency s)(key \<mapsto> (oldest, mid))\<rparr>)
                   | None \<Rightarrow> (None, s\<lparr>n_recency := (n_recency s)(key \<mapsto> (mid, mid))\<rparr>));
                s = (case previous of None \<Rightarrow> s | Some p \<Rightarrow> upd_mapping p (\<lambda>m. m\<lparr>m_newer := Some mid\<rparr>) s)
            in upd_mapping mid (\<lambda>m. m\<lparr>m_older := previous, m_newer := None\<rparr>) s)"

text \<open>The second half of \<open>unlink\<close>, which repairs the newer side.\<close>

definition unlink_newer ::
  "peer_id \<times> map_proto \<Rightarrow> mapping_id option \<Rightarrow> mapping_id option \<Rightarrow> 'g napt \<Rightarrow> 'g napt" where
  "unlink_newer key older newer s =
     (case newer of
        Some nw \<Rightarrow> upd_mapping nw (\<lambda>m. m\<lparr>m_older := older\<rparr>) s
      | None \<Rightarrow>
          (case (n_recency s key, older) of
             (Some (oldest, _), Some old) \<Rightarrow> s\<lparr>n_recency := (n_recency s)(key \<mapsto> (oldest, old))\<rparr>
           | _ \<Rightarrow> s))"

definition unlink :: "mapping_id \<Rightarrow> 'g napt \<Rightarrow> 'g napt" where
  "unlink mid s =
     (case n_mappings s mid of
        None \<Rightarrow> s
      | Some m \<Rightarrow>
          if m_pinned m then s
          else
            let key = (m_owner m, m_proto m); older = m_older m; newer = m_newer m;
                s = upd_mapping mid (\<lambda>m. m\<lparr>m_older := None, m_newer := None\<rparr>) s
            in (case older of
                  Some old \<Rightarrow> unlink_newer key older newer (upd_mapping old (\<lambda>m. m\<lparr>m_newer := newer\<rparr>) s)
                | None \<Rightarrow>
                    (case n_recency s key of
                       Some (_, newest) \<Rightarrow>
                         (case newer of
                            Some nw \<Rightarrow> unlink_newer key older newer (s\<lparr>n_recency := (n_recency s)(key \<mapsto> (nw, newest))\<rparr>)
                          | None \<Rightarrow> s\<lparr>n_recency := (n_recency s)(key := None)\<rparr>)
                     | None \<Rightarrow> unlink_newer key older newer s)))"

definition touch_recency :: "mapping_id \<Rightarrow> 'g napt \<Rightarrow> 'g napt" where
  "touch_recency mid s =
     (case n_mappings s mid of
        None \<Rightarrow> s
      | Some m \<Rightarrow> if m_pinned m \<or> m_newer m = None then s else link_newest mid (unlink mid s))"

section \<open>Mappings\<close>

definition out_key :: "mapping \<Rightarrow> map_proto \<times> ip_addr \<times> u16" where
  "out_key m = (m_proto m, fst (m_internal m), snd (m_internal m))"

definition in_key :: "mapping \<Rightarrow> map_proto \<times> bool \<times> u16" where
  "in_key m = (m_proto m, is_ipv6 (fst (m_internal m)), m_external_port m)"

definition set_allocator :: "map_proto \<Rightarrow> bool \<Rightarrow> port_allocator \<Rightarrow> 'g napt \<Rightarrow> 'g napt" where
  "set_allocator proto v6 a s = s\<lparr>n_ports := (n_ports s)(v6 := (n_ports s v6)(proto := a))\<rparr>"

definition insert_mapping :: "mapping \<Rightarrow> 'g napt \<Rightarrow> 'g napt \<times> mapping_id" where
  "insert_mapping m s =
     (let mid = n_next_id s in
      (s\<lparr>n_next_id := n_next_id s + 1, n_outbound := (n_outbound s)(out_key m \<mapsto> mid),
         n_inbound := (n_inbound s)(in_key m \<mapsto> mid), n_mappings := (n_mappings s)(mid \<mapsto> m)\<rparr>, mid))"

definition remove_mapping :: "mapping_id \<Rightarrow> 'g napt \<Rightarrow> 'g napt" where
  "remove_mapping mid s0 =
     (let s = unlink mid s0 in
      case n_mappings s mid of
        None \<Rightarrow> s
      | Some m \<Rightarrow>
          let v6 = is_ipv6 (fst (m_internal m));
              s = s\<lparr>n_mappings := (n_mappings s)(mid := None), n_outbound := (n_outbound s)(out_key m := None),
                    n_inbound := (n_inbound s)(in_key m := None)\<rparr>
          in if m_pinned m then s
             else
               let s = set_allocator (m_proto m) v6 (release (n_ports s v6 (m_proto m)) (m_external_port m)) s
               in (case n_counts s (m_owner m, m_proto m) of
                     None \<Rightarrow> s
                   | Some count \<Rightarrow> s\<lparr>n_counts := (n_counts s)((m_owner m, m_proto m) \<mapsto> count - 1)\<rparr>))"

definition push_expiry :: "instant \<times> mapping_id \<Rightarrow> 'g napt \<Rightarrow> 'g napt" where
  "push_expiry e s = s\<lparr>n_expiry := insort e (n_expiry s)\<rparr>"

definition create_mapping ::
  "'g world \<Rightarrow> peer_id \<Rightarrow> map_proto \<Rightarrow> socket_addr \<Rightarrow> instant \<Rightarrow> 'g napt \<Rightarrow>
     'g napt \<times> (nat_drop, mapping_id) res" where
  "create_mapping w peer proto internal now s =
     (let cap = (if proto = Icmp then nc_per_peer_identifiers (n_config s) else nc_per_peer_mappings (n_config s));
          full = (cap \<le> (case n_counts s (peer, proto) of None \<Rightarrow> 0 | Some n \<Rightarrow> n));
          victim = oldest_of peer proto s
      in if full \<and> (proto = Tcp \<or> victim = None) then (s, Err PeerCap)
         else
           let s = (if full then (case victim of None \<Rightarrow> s | Some v \<Rightarrow> remove_mapping v s) else s);
               v6 = is_ipv6 (fst internal);
               (a, g, port) = alloc (w_draw w) (n_ports s v6 proto) (Some (snd internal)) (n_rng s);
               s = (set_allocator proto v6 a s)\<lparr>n_rng := g\<rparr>
           in (case port of
                 None \<Rightarrow> (s, Err PortExhausted)
               | Some external_port \<Rightarrow>
                   let (s, mid) = insert_mapping
                         \<lparr>m_owner = peer, m_proto = proto, m_internal = internal, m_external_port = external_port,
                          m_remotes = [], m_last_seen = now, m_pinned = False, m_older = None, m_newer = None\<rparr> s;
                       s = link_newest mid s;
                       s = s\<lparr>n_counts := (n_counts s)((peer, proto) \<mapsto>
                             (case n_counts s (peer, proto) of None \<Rightarrow> 0 | Some n \<Rightarrow> n) + 1)\<rparr>;
                       s = push_expiry (now + initial_timeout (n_config s) proto, mid) s
                   in (s, Ok mid)))"

definition mapping_for_uplink ::
  "'g world \<Rightarrow> peer_id \<Rightarrow> map_proto \<Rightarrow> socket_addr \<Rightarrow> instant \<Rightarrow> 'g napt \<Rightarrow>
     'g napt \<times> (nat_drop, mapping_id) res" where
  "mapping_for_uplink w peer proto internal now s =
     (case n_outbound s (proto, fst internal, snd internal) of
        Some mid \<Rightarrow>
          (case n_mappings s mid of
             None \<Rightarrow> (s, Err NoMapping)
           | Some m \<Rightarrow> if m_owner m \<noteq> peer then (s, Err SourceNotOwned) else (s, Ok mid))
      | None \<Rightarrow> create_mapping w peer proto internal now s)"

section \<open>What a packet says about its flow\<close>

fun initial_state :: "map_proto \<Rightarrow> flow_state" where
  "initial_state Tcp = TcpSyn"
| "initial_state Udp = UdpOneWay"
| "initial_state Icmp = IcmpFlow"

text \<open>The two arms of the match on \<open>remote_index\<close>, the same code in both directions.\<close>

definition seen_remote :: "nat \<Rightarrow> u8 \<Rightarrow> bool \<Rightarrow> instant \<Rightarrow> mapping \<Rightarrow> mapping \<times> bool" where
  "seen_remote at flags uplink now m =
     (case nth_get (m_remotes m) at of
        None \<Rightarrow> (m, False)
      | Some flow \<Rightarrow>
          let (flow, closed) = advance (flow\<lparr>rf_last_seen := now\<rparr>) (m_proto m) flags uplink
          in (m\<lparr>m_remotes := (m_remotes m)[at := flow]\<rparr>, closed))"

definition new_remote :: "nat \<Rightarrow> ip_addr \<Rightarrow> u16 \<Rightarrow> u8 \<Rightarrow> bool \<Rightarrow> instant \<Rightarrow> mapping \<Rightarrow> mapping \<times> bool" where
  "new_remote cap remote port flags uplink now m =
     (let m = (if cap \<le> length (m_remotes m)
               then (case oldest_remote (m_remotes m) of
                       None \<Rightarrow> m
                     | Some at \<Rightarrow> m\<lparr>m_remotes := swap_remove (m_remotes m) at\<rparr>)
               else m);
          (flow, closed) = advance
            \<lparr>rf_addr = remote, rf_port = port, rf_state = initial_state (m_proto m), rf_fin_up = False,
             rf_fin_down = False, rf_last_seen = now\<rparr> (m_proto m) flags uplink
      in (m\<lparr>m_remotes := m_remotes m @ [flow]\<rparr>, closed))"

text \<open>The common end of both: the mapping is stored, moved to the recent end, and a close is queued.\<close>

definition store_touched :: "mapping_id \<Rightarrow> mapping \<Rightarrow> bool \<Rightarrow> instant \<Rightarrow> 'g napt \<Rightarrow> 'g napt" where
  "store_touched mid m closed now s =
     (let s = touch_recency mid (s\<lparr>n_mappings := (n_mappings s)(mid \<mapsto> m)\<rparr>)
      in if closed then push_expiry (now + nc_tcp_closing (n_config s), mid) s else s)"

definition touch_uplink ::
  "mapping_id \<Rightarrow> ip_addr \<Rightarrow> u16 \<Rightarrow> u8 \<Rightarrow> instant \<Rightarrow> 'g napt \<Rightarrow> 'g napt" where
  "touch_uplink mid remote port flags now s =
     (case n_mappings s mid of
        None \<Rightarrow> s
      | Some m \<Rightarrow>
          let m = m\<lparr>m_last_seen := now\<rparr>;
              (m, closed) =
                (case remote_index m remote port of
                   Some at \<Rightarrow> seen_remote at flags True now m
                 | None \<Rightarrow> new_remote (nc_remotes_per_mapping (n_config s)) remote port flags True now m)
          in store_touched mid m closed now s)"

definition accept_downlink ::
  "mapping_id \<Rightarrow> ip_addr \<Rightarrow> u16 \<Rightarrow> u8 \<Rightarrow> instant \<Rightarrow> 'g napt \<Rightarrow> 'g napt \<times> (nat_drop, socket_addr) res" where
  "accept_downlink mid remote port flags now s =
     (case n_mappings s mid of
        None \<Rightarrow> (s, Err NoMapping)
      | Some m \<Rightarrow>
          (case remote_index m remote port of
             Some at \<Rightarrow>
               let (m', closed) = seen_remote at flags False now m
               in (store_touched mid (m'\<lparr>m_last_seen := now\<rparr>) closed now s, Ok (m_internal m))
           | None \<Rightarrow>
               if \<not> m_pinned m then (s, Err NoMapping)
               else
                 let (m', closed) = new_remote (nc_remotes_per_mapping (n_config s)) remote port flags False now m
                 in (store_touched mid (m'\<lparr>m_last_seen := now\<rparr>) closed now s, Ok (m_internal m))))"

section \<open>Management\<close>

definition mapping_ids :: "'g napt \<Rightarrow> mapping_id list" where
  "mapping_ids s = filter (\<lambda>i. n_mappings s i \<noteq> None) [0..<n_next_id s]"

definition mapping_count :: "'g napt \<Rightarrow> nat" where
  "mapping_count s = length (mapping_ids s)"

definition doomed :: "'g world \<Rightarrow> (mapping \<Rightarrow> bool) \<Rightarrow> 'g napt \<Rightarrow> mapping_id list" where
  "doomed w P s = filter (\<lambda>i. case n_mappings s i of None \<Rightarrow> False | Some m \<Rightarrow> P m) (w_order w (mapping_ids s))"

definition flush_peer :: "'g world \<Rightarrow> peer_id \<Rightarrow> 'g napt \<Rightarrow> 'g napt" where
  "flush_peer w peer s = fold remove_mapping (doomed w (\<lambda>m. m_owner m = peer \<and> \<not> m_pinned m) s) s"

definition flush_family :: "'g world \<Rightarrow> bool \<Rightarrow> 'g napt \<Rightarrow> 'g napt" where
  "flush_family w v6 s =
     fold remove_mapping (doomed w (\<lambda>m. is_ipv6 (fst (m_internal m)) = v6 \<and> \<not> m_pinned m) s) s"

definition set_ownership :: "ownership \<Rightarrow> 'g napt \<Rightarrow> 'g napt" where
  "set_ownership own s = s\<lparr>n_ownership := own\<rparr>"

definition set_external :: "'g world \<Rightarrow> epoch_id \<Rightarrow> u32 \<Rightarrow> u128 option \<Rightarrow> 'g napt \<Rightarrow> 'g napt" where
  "set_external w epoch v4 v6 s =
     (let same_exit = (n_exit s = Some (ep_exit epoch));
          s = (if \<not> (same_exit \<and> n_v4 s = Some v4) then flush_family w False s else s);
          s = (if \<not> (same_exit \<and> n_v6 s = v6) then flush_family w True s else s)
      in s\<lparr>n_exit := Some (ep_exit epoch), n_epoch := Some epoch, n_v4 := Some v4, n_v6 := v6\<rparr>)"

definition remove_at :: "mapping_id option \<Rightarrow> 'g napt \<Rightarrow> 'g napt" where
  "remove_at i s = (case i of None \<Rightarrow> s | Some mid \<Rightarrow> remove_mapping mid s)"

definition add_static :: "static_dnat \<Rightarrow> instant \<Rightarrow> 'g napt \<Rightarrow> 'g napt \<times> (core_error, mapping_id) res" where
  "add_static dnat now s =
     (case n_ownership s (fst (sd_target dnat)) of
        None \<Rightarrow> (s, Err TargetNotOwned)
      | Some owner \<Rightarrow>
          let v6 = is_ipv6 (fst (sd_target dnat)); a = n_ports s v6 (sd_proto dnat);
              port = sd_external_port dnat
          in (case (if contains a port then reserve a port else Ok a) of
                Panic \<Rightarrow> (s, Panic)
              | Err (e, a) \<Rightarrow> (set_allocator (sd_proto dnat) v6 a s, Err e)
              | Ok a \<Rightarrow>
                  let s = set_allocator (sd_proto dnat) v6 a s;
                      s = remove_at (n_outbound s (sd_proto dnat, fst (sd_target dnat), snd (sd_target dnat))) s;
                      s = remove_at (n_inbound s (sd_proto dnat, v6, port)) s;
                      (s, mid) = insert_mapping
                        \<lparr>m_owner = owner, m_proto = sd_proto dnat, m_internal = sd_target dnat, m_external_port = port,
                         m_remotes = [], m_last_seen = now, m_pinned = True, m_older = None, m_newer = None\<rparr> s
                  in (s, Ok mid)))"

definition remove_static :: "map_proto \<Rightarrow> u16 \<Rightarrow> bool \<Rightarrow> 'g napt \<Rightarrow> 'g napt \<times> bool" where
  "remove_static proto port v6 s =
     (case n_inbound s (proto, v6, port) of
        None \<Rightarrow> (s, False)
      | Some mid \<Rightarrow>
          if \<not> (case n_mappings s mid of None \<Rightarrow> False | Some m \<Rightarrow> m_pinned m) then (s, False)
          else
            let s = remove_mapping mid s; (a, _) = unreserve (n_ports s v6 proto) port
            in (set_allocator proto v6 a s, True))"

section \<open>Translation\<close>

definition external_addr :: "bool \<Rightarrow> 'g napt \<Rightarrow> ip_addr option" where
  "external_addr v6 s = (if v6 then map_option V6 (n_v6 s) else map_option V4 (n_v4 s))"

definition external_port :: "mapping_id \<Rightarrow> 'g napt \<Rightarrow> (nat_drop, u16) res" where
  "external_port mid s = ok_or (map_option m_external_port (n_mappings s mid)) NoMapping"

definition translated_to :: "mapping_id \<Rightarrow> socket_addr \<Rightarrow> 'g napt \<Rightarrow> (nat_drop, translated) res" where
  "translated_to mid internal s =
     ok_or (map_option (\<lambda>m. \<lparr>tr_peer = m_owner m, tr_destination = fst internal\<rparr>) (n_mappings s mid)) NoMapping"

text \<open>
  \<open>and_then s pkt m k\<close> is the \<open>?\<close> of a translation: an error ends it with the state and the packet
  as they are at that point.  \<open>rewriting\<close> is the same for a call that writes to the packet, whose
  error carries the packet it leaves.
\<close>

definition and_then ::
  "'s \<Rightarrow> bytes \<Rightarrow> (nat_drop, 'a) res \<Rightarrow> ('a \<Rightarrow> 's \<times> (nat_drop \<times> bytes, 'b) res) \<Rightarrow>
     's \<times> (nat_drop \<times> bytes, 'b) res" where
  "and_then s pkt m k = (case m of Ok a \<Rightarrow> k a | Err d \<Rightarrow> (s, Err (d, pkt)) | Panic \<Rightarrow> (s, Panic))"

definition rewriting ::
  "'s \<Rightarrow> (packet_error \<times> bytes, bytes) res \<Rightarrow> (bytes \<Rightarrow> 's \<times> (nat_drop \<times> bytes, 'b) res) \<Rightarrow>
     's \<times> (nat_drop \<times> bytes, 'b) res" where
  "rewriting s m k =
     (case m of Ok pkt \<Rightarrow> k pkt | Err (err, pkt) \<Rightarrow> (s, Err (drop_from err, pkt)) | Panic \<Rightarrow> (s, Panic))"

fun dropped :: "(packet_error, 'a) res \<Rightarrow> (nat_drop, 'a) res" where
  "dropped (Ok a) = Ok a"
| "dropped (Err err) = Err (drop_from err)"
| "dropped Panic = Panic"

definition transport_flags :: "bytes \<Rightarrow> ip_header \<Rightarrow> map_proto \<Rightarrow> (nat_drop, u8) res" where
  "transport_flags pkt hdr proto = (if proto = Tcp then dropped (tcp_flags pkt (ip_l4_offset hdr)) else Ok 0)"

definition uplink_error ::
  "'g world \<Rightarrow> peer_id \<Rightarrow> bytes \<Rightarrow> ip_header \<Rightarrow> ip_addr \<Rightarrow> 'g napt \<Rightarrow>
     'g napt \<times> (nat_drop \<times> bytes, bytes) res" where
  "uplink_error w peer pkt hdr external s =
     and_then s pkt (dropped (parse_error_quote pkt hdr)) (\<lambda>quote.
     and_then s pkt (ok_or (map_proto_of (ip_protocol (eq_inner quote)) (is_v6 (eq_inner quote))) UnsupportedProtocolDrop) (\<lambda>proto.
     and_then s pkt (ok_or (quote_port quote Destination) MalformedDrop) (\<lambda>port.
     and_then s pkt (ok_or (n_outbound s (proto, ip_dst (eq_inner quote), port)) NoMapping) (\<lambda>mid.
     and_then s pkt (ok_or (n_mappings s mid) NoMapping) (\<lambda>m.
     if m_owner m \<noteq> peer then (s, Err (SourceNotOwned, pkt))
     else
       rewriting s (rewrite_endpoint (eng_inc (w_engine w)) pkt hdr Source external None) (\<lambda>pkt.
       rewriting s (rewrite_error_quote (w_engine w) pkt hdr quote Destination external (Some (m_external_port m))) (\<lambda>pkt.
       (s, Ok pkt))))))))"

definition uplink_flow ::
  "'g world \<Rightarrow> peer_id \<Rightarrow> bytes \<Rightarrow> ip_header \<Rightarrow> ip_addr \<Rightarrow> map_proto \<Rightarrow> u16 \<Rightarrow> u16 \<Rightarrow> u8 \<Rightarrow> instant \<Rightarrow>
     'g napt \<Rightarrow> 'g napt \<times> (nat_drop \<times> bytes, bytes) res" where
  "uplink_flow w peer pkt hdr external proto sport dport flags now s =
     (let (s, r) = mapping_for_uplink w peer proto (ip_src hdr, sport) now s in
      and_then s pkt r (\<lambda>mid.
        let s = touch_uplink mid (ip_dst hdr) dport flags now s in
        and_then s pkt (external_port mid s) (\<lambda>port.
        rewriting s (rewrite_endpoint (eng_inc (w_engine w)) pkt hdr Source external (Some port)) (\<lambda>pkt. (s, Ok pkt)))))"

definition uplink ::
  "'g world \<Rightarrow> peer_id \<Rightarrow> bytes \<Rightarrow> instant \<Rightarrow> 'g napt \<Rightarrow> 'g napt \<times> (nat_drop \<times> bytes, bytes) res" where
  "uplink w peer pkt now s =
     and_then s pkt (dropped (parse_ip pkt)) (\<lambda>hdr.
     and_then s pkt (ok_or (external_addr (is_v6 hdr) s) FamilyUnavailable) (\<lambda>external.
     if n_ownership s (ip_src hdr) \<noteq> Some peer then (s, Err (SourceNotOwned, pkt))
     else if ip_protocol hdr = PROTO_TCP \<or> ip_protocol hdr = PROTO_UDP then
       let proto = (if ip_protocol hdr = PROTO_TCP then Tcp else Udp) in
       and_then s pkt (dropped (read_ports pkt (ip_l4_offset hdr))) (\<lambda>(sport, dport).
       and_then s pkt (transport_flags pkt hdr proto) (\<lambda>flags.
       uplink_flow w peer pkt hdr external proto sport dport flags now s))
     else if \<not> is_v6 hdr \<and> ip_protocol hdr = PROTO_ICMPV4 \<or> is_v6 hdr \<and> ip_protocol hdr = PROTO_ICMPV6 then
       and_then s pkt (dropped (read_icmp pkt (ip_l4_offset hdr))) (\<lambda>icmp.
       if is_echo (ip_protocol hdr) (icmp_kind icmp) then
         and_then s pkt (ok_or (icmp_echo_id icmp) MalformedDrop) (\<lambda>echo_id.
         uplink_flow w peer pkt hdr external Icmp echo_id 0 0 now s)
       else if is_icmp_error (ip_protocol hdr) (icmp_kind icmp) then uplink_error w peer pkt hdr external s
       else (s, Err (UnsupportedProtocolDrop, pkt)))
     else (s, Err (UnsupportedProtocolDrop, pkt))))"

definition downlink_error ::
  "'g world \<Rightarrow> bytes \<Rightarrow> ip_header \<Rightarrow> ip_addr \<Rightarrow> 'g napt \<Rightarrow>
     'g napt \<times> (nat_drop \<times> bytes, bytes \<times> translated) res" where
  "downlink_error w pkt hdr external s =
     and_then s pkt (dropped (parse_error_quote pkt hdr)) (\<lambda>quote.
     if ip_src (eq_inner quote) \<noteq> external then (s, Err (NoMapping, pkt))
     else
       and_then s pkt (ok_or (map_proto_of (ip_protocol (eq_inner quote)) (is_v6 (eq_inner quote))) UnsupportedProtocolDrop) (\<lambda>proto.
       and_then s pkt (ok_or (quote_port quote Source) MalformedDrop) (\<lambda>port.
       and_then s pkt (ok_or (n_inbound s (proto, is_v6 hdr, port)) NoMapping) (\<lambda>mid.
       and_then s pkt (ok_or (n_mappings s mid) NoMapping) (\<lambda>m.
       let internal = m_internal m in
       rewriting s (rewrite_endpoint (eng_inc (w_engine w)) pkt hdr Destination (fst internal) None) (\<lambda>pkt.
       rewriting s (rewrite_error_quote (w_engine w) pkt hdr quote Source (fst internal) (Some (snd internal))) (\<lambda>pkt.
       and_then s pkt (translated_to mid internal s) (\<lambda>out. (s, Ok (pkt, out))))))))))"

definition downlink_flow ::
  "'g world \<Rightarrow> bytes \<Rightarrow> ip_header \<Rightarrow> map_proto \<Rightarrow> u16 \<Rightarrow> u16 \<Rightarrow> u8 \<Rightarrow> instant \<Rightarrow>
     'g napt \<Rightarrow> 'g napt \<times> (nat_drop \<times> bytes, bytes \<times> translated) res" where
  "downlink_flow w pkt hdr proto dport sport flags now s =
     and_then s pkt (ok_or (n_inbound s (proto, is_v6 hdr, dport)) NoMapping) (\<lambda>mid.
     let (s, r) = accept_downlink mid (ip_src hdr) sport flags now s in
     and_then s pkt r (\<lambda>internal.
     rewriting s (rewrite_endpoint (eng_inc (w_engine w)) pkt hdr Destination (fst internal) (Some (snd internal))) (\<lambda>pkt.
     and_then s pkt (translated_to mid internal s) (\<lambda>out. (s, Ok (pkt, out))))))"

definition downlink ::
  "'g world \<Rightarrow> bytes \<Rightarrow> instant \<Rightarrow> 'g napt \<Rightarrow> 'g napt \<times> (nat_drop \<times> bytes, bytes \<times> translated) res" where
  "downlink w pkt now s =
     and_then s pkt (dropped (parse_ip pkt)) (\<lambda>hdr.
     and_then s pkt (ok_or (external_addr (is_v6 hdr) s) FamilyUnavailable) (\<lambda>external.
     if ip_dst hdr \<noteq> external then (s, Err (NoMapping, pkt))
     else if ip_protocol hdr = PROTO_TCP \<or> ip_protocol hdr = PROTO_UDP then
       let proto = (if ip_protocol hdr = PROTO_TCP then Tcp else Udp) in
       and_then s pkt (dropped (read_ports pkt (ip_l4_offset hdr))) (\<lambda>(sport, dport).
       and_then s pkt (transport_flags pkt hdr proto) (\<lambda>flags.
       downlink_flow w pkt hdr proto dport sport flags now s))
     else if \<not> is_v6 hdr \<and> ip_protocol hdr = PROTO_ICMPV4 \<or> is_v6 hdr \<and> ip_protocol hdr = PROTO_ICMPV6 then
       and_then s pkt (dropped (read_icmp pkt (ip_l4_offset hdr))) (\<lambda>icmp.
       if is_echo (ip_protocol hdr) (icmp_kind icmp) then
         and_then s pkt (ok_or (icmp_echo_id icmp) MalformedDrop) (\<lambda>echo_id.
         downlink_flow w pkt hdr Icmp echo_id 0 0 now s)
       else if is_icmp_error (ip_protocol hdr) (icmp_kind icmp) then downlink_error w pkt hdr external s
       else (s, Err (UnsupportedProtocolDrop, pkt)))
     else (s, Err (UnsupportedProtocolDrop, pkt))))"

definition translate_uplink ::
  "'g world \<Rightarrow> peer_id \<Rightarrow> bytes \<Rightarrow> instant \<Rightarrow> 'g napt \<Rightarrow> 'g napt \<times> (nat_drop \<times> bytes, bytes) res" where
  "translate_uplink w peer pkt now s =
     (case uplink w peer pkt now s of
        (s, Ok pkt) \<Rightarrow> (s\<lparr>n_counters := count_uplink_translated (n_counters s)\<rparr>, Ok pkt)
      | (s, Err (d, pkt)) \<Rightarrow> (s\<lparr>n_counters := count_uplink_dropped d (n_counters s)\<rparr>, Err (d, pkt))
      | (s, Panic) \<Rightarrow> (s, Panic))"

definition translate_downlink ::
  "'g world \<Rightarrow> bytes \<Rightarrow> instant \<Rightarrow> 'g napt \<Rightarrow> 'g napt \<times> (nat_drop \<times> bytes, bytes \<times> translated) res" where
  "translate_downlink w pkt now s =
     (case downlink w pkt now s of
        (s, Ok out) \<Rightarrow> (s\<lparr>n_counters := count_downlink_translated (n_counters s)\<rparr>, Ok out)
      | (s, Err (d, pkt)) \<Rightarrow> (s\<lparr>n_counters := count_downlink_dropped d (n_counters s)\<rparr>, Err (d, pkt))
      | (s, Panic) \<Rightarrow> (s, Panic))"

section \<open>The sweep\<close>

text \<open>
  The loop pops one entry per turn and only ever pushes one that lies in the future, so the number
  of entries that are due goes down.
\<close>

lemma n_expiry_upd [simp]: "n_expiry (upd_mapping i f s) = n_expiry s"
  by (simp add: upd_mapping_def split: option.split)

lemma n_expiry_unlink [simp]: "n_expiry (unlink i s) = n_expiry s"
  by (simp add: unlink_def unlink_newer_def Let_def split: option.split)

lemma n_expiry_remove [simp]: "n_expiry (remove_mapping i s) = n_expiry s"
  by (simp add: remove_mapping_def set_allocator_def Let_def split: option.split)

definition due :: "instant \<Rightarrow> 'g napt \<Rightarrow> nat" where
  "due now s = length (filter (\<lambda>(t, _). t \<le> now) (n_expiry s))"

lemma due_push [simp]: "now < t \<Longrightarrow> due now (push_expiry (t, i) s) = due now s"
  by (simp add: due_def push_expiry_def filter_insort_triv)

function sweep :: "instant \<Rightarrow> 'g napt \<Rightarrow> 'g napt \<times> nat" where
  "sweep now s =
     (case n_expiry s of
        [] \<Rightarrow> (s, 0)
      | (deadline, mid) # rest \<Rightarrow>
          if now < deadline then (s, 0)
          else
            let s = s\<lparr>n_expiry := rest\<rparr> in
            (case n_mappings s mid of
               None \<Rightarrow> sweep now s
             | Some m \<Rightarrow>
                 let real = deadline_of (n_config s) m in
                 if now < real then sweep now (push_expiry (real, mid) s)
                 else let (s, removed) = sweep now (remove_mapping mid s) in (s, removed + 1)))"
  by pat_completeness auto
termination sweep
  by (relation "measure (\<lambda>(now, s). due now s)") (auto simp: due_def push_expiry_def filter_insort_triv)

declare sweep.simps [simp del]

end
