(* ===== verification/Recency.thy ===== *)
theory Recency
  imports Napt
begin

text \<open>
  The recency lists of the translator: per peer and protocol the dynamic mappings form a doubly
  linked list threaded through the table, with its two ends in \<open>n_recency\<close>.  This theory shows that
  \<open>link_newest\<close>, \<open>unlink\<close> and \<open>touch_recency\<close> implement appending, deleting and moving to the end on
  plain lists, and that they leave everything else of the state as it was.
\<close>

section \<open>Pointer chains\<close>

definition first_of :: "mapping_id option \<Rightarrow> mapping_id list \<Rightarrow> mapping_id option" where
  "first_of n xs = (case xs of [] \<Rightarrow> n | x # _ \<Rightarrow> Some x)"

definition last_of :: "mapping_id option \<Rightarrow> mapping_id list \<Rightarrow> mapping_id option" where
  "last_of p xs = (if xs = [] then p else Some (last xs))"

lemma first_of_simps [simp]: "first_of n [] = n" "first_of n (x # xs) = Some x"
  by (simp_all add: first_of_def)

lemma last_of_simps [simp]: "last_of p [] = p" "last_of p (xs @ [x]) = Some x" "last_of p (x # xs) = last_of (Some x) xs"
  by (simp_all add: last_of_def)

fun linked ::
  "(mapping_id \<Rightarrow> mapping_id option) \<Rightarrow> (mapping_id \<Rightarrow> mapping_id option) \<Rightarrow>
     mapping_id option \<Rightarrow> mapping_id list \<Rightarrow> mapping_id option \<Rightarrow> bool" where
  "linked od nw p [] n = True"
| "linked od nw p (x # xs) n \<longleftrightarrow> od x = p \<and> nw x = first_of n xs \<and> linked od nw (Some x) xs n"

lemma linked_append:
  "linked od nw p (xs @ ys) n \<longleftrightarrow> linked od nw p xs (first_of n ys) \<and> linked od nw (last_of p xs) ys n"
proof (induction xs arbitrary: p)
  case (Cons x xs)
  have "first_of n (xs @ ys) = first_of (first_of n ys) xs" by (cases xs) simp_all
  then show ?case using Cons by simp
qed simp

lemma linked_cong:
  assumes "\<And>x. x \<in> set xs \<Longrightarrow> od x = od' x \<and> nw x = nw' x"
  shows "linked od nw p xs n = linked od' nw' p xs n"
  using assms by (induction xs arbitrary: p) auto

lemma linked_new_last:
  assumes "linked od nw p xs n" and "distinct xs" and "xs \<noteq> []"
  shows "linked od (nw(last xs := n')) p xs n'"
proof -
  obtain ys y where xs: "xs = ys @ [y]" using assms(3) by (cases xs rule: rev_cases) auto
  have "linked od nw p ys (Some y)" "od y = last_of p ys" using assms(1) by (simp_all add: xs linked_append)
  moreover have "linked od (nw(y := n')) p ys (Some y) = linked od nw p ys (Some y)"
    using assms(2) by (intro linked_cong) (auto simp: xs)
  ultimately show ?thesis by (simp add: xs linked_append)
qed

lemma linked_new_first:
  assumes "linked od nw p xs n" and "distinct xs" and "xs \<noteq> []"
  shows "linked (od(hd xs := p')) nw p' xs n"
proof -
  obtain y ys where xs: "xs = y # ys" using assms(3) by (cases xs) auto
  have "linked (od(y := p')) nw (Some y) ys n = linked od nw (Some y) ys n"
    using assms(2) by (intro linked_cong) (auto simp: xs)
  then show ?thesis using assms(1) by (simp add: xs)
qed

section \<open>The table without its pointers\<close>

definition strip :: "mapping \<Rightarrow> mapping" where
  "strip m = m\<lparr>m_older := None, m_newer := None\<rparr>"

definition table :: "'g napt \<Rightarrow> mapping_id \<rightharpoonup> mapping" where
  "table s i = map_option strip (n_mappings s i)"

lemma strip_simps [simp]:
  "m_owner (strip m) = m_owner m" "m_proto (strip m) = m_proto m" "m_internal (strip m) = m_internal m"
  "m_external_port (strip m) = m_external_port m" "m_remotes (strip m) = m_remotes m"
  "m_last_seen (strip m) = m_last_seen m" "m_pinned (strip m) = m_pinned m"
  "strip (m\<lparr>m_older := a\<rparr>) = strip m" "strip (m\<lparr>m_newer := a\<rparr>) = strip m"
  "out_key (strip m) = out_key m" "in_key (strip m) = in_key m"
  by (simp_all add: strip_def out_key_def in_key_def)

lemma table_upd [simp]: "(\<And>m. strip (f m) = strip m) \<Longrightarrow> table (upd_mapping i f s) = table s"
  by (auto simp: table_def upd_mapping_def fun_eq_iff split: option.split)

lemma table_recency [simp]: "table (s\<lparr>n_recency := r\<rparr>) = table s"
  by (simp add: table_def fun_eq_iff)

lemma upd_fields [simp]:
  "n_config (upd_mapping i f s) = n_config s" "n_ownership (upd_mapping i f s) = n_ownership s"
  "n_exit (upd_mapping i f s) = n_exit s" "n_epoch (upd_mapping i f s) = n_epoch s"
  "n_v4 (upd_mapping i f s) = n_v4 s" "n_v6 (upd_mapping i f s) = n_v6 s"
  "n_recency (upd_mapping i f s) = n_recency s"
  "n_outbound (upd_mapping i f s) = n_outbound s" "n_inbound (upd_mapping i f s) = n_inbound s"
  "n_counts (upd_mapping i f s) = n_counts s" "n_ports (upd_mapping i f s) = n_ports s"
  "n_next_id (upd_mapping i f s) = n_next_id s" "n_counters (upd_mapping i f s) = n_counters s"
  "n_rng (upd_mapping i f s) = n_rng s"
  by (simp_all add: upd_mapping_def split: option.split)

text \<open>What an operation on the lists leaves alone.\<close>

definition only_lists :: "'g napt \<Rightarrow> 'g napt \<Rightarrow> bool" where
  "only_lists s s' \<longleftrightarrow> table s' = table s \<and> s' = s\<lparr>n_mappings := n_mappings s', n_recency := n_recency s'\<rparr>"

lemma only_lists_refl [simp]: "only_lists s s"
  by (simp add: only_lists_def)

lemma only_lists_trans: "only_lists s t \<Longrightarrow> only_lists t u \<Longrightarrow> only_lists s u"
  unfolding only_lists_def by (metis (no_types, lifting) napt.surjective napt.update_convs(7,8))

lemma only_lists_upd [simp]: "(\<And>m. strip (f m) = strip m) \<Longrightarrow> only_lists s (upd_mapping i f s)"
  by (auto simp: only_lists_def)

lemma only_lists_recency [simp]: "only_lists s (s\<lparr>n_recency := r\<rparr>)"
  by (simp add: only_lists_def)

lemma only_lists_fields:
  assumes "only_lists s s'"
  shows "n_config s' = n_config s" "n_ownership s' = n_ownership s" "n_exit s' = n_exit s" "n_epoch s' = n_epoch s"
    "n_v4 s' = n_v4 s" "n_v6 s' = n_v6 s" "n_outbound s' = n_outbound s" "n_inbound s' = n_inbound s"
    "n_counts s' = n_counts s" "n_ports s' = n_ports s" "n_expiry s' = n_expiry s" "n_next_id s' = n_next_id s"
    "n_counters s' = n_counters s" "n_rng s' = n_rng s" "table s' = table s"
proof -
  have e: "s' = s\<lparr>n_mappings := n_mappings s', n_recency := n_recency s'\<rparr>" and t: "table s' = table s"
    using assms by (simp_all add: only_lists_def)
  show "n_config s' = n_config s" "n_ownership s' = n_ownership s" "n_exit s' = n_exit s" "n_epoch s' = n_epoch s"
    "n_v4 s' = n_v4 s" "n_v6 s' = n_v6 s" "n_outbound s' = n_outbound s" "n_inbound s' = n_inbound s"
    "n_counts s' = n_counts s" "n_ports s' = n_ports s" "n_expiry s' = n_expiry s" "n_next_id s' = n_next_id s"
    "n_counters s' = n_counters s" "n_rng s' = n_rng s" by (subst e, simp)+
  show "table s' = table s" by (rule t)
qed

lemma unlink_newer_only: "only_lists s (unlink_newer key older newer s)"
  by (auto simp: unlink_newer_def split: option.split)

lemma unlink_only: "only_lists s (unlink i s)"
  unfolding unlink_def Let_def
  by (auto split: option.split intro!: only_lists_trans [OF _ unlink_newer_only]
      intro: only_lists_trans [OF only_lists_upd only_lists_upd] only_lists_trans [OF only_lists_upd only_lists_recency])

lemma link_newest_only: "only_lists s (link_newest i s)"
  unfolding link_newest_def Let_def
  by (auto split: option.split prod.split intro!: only_lists_trans [OF _ only_lists_upd]
      intro: only_lists_trans [OF only_lists_recency only_lists_upd])

lemma touch_recency_only: "only_lists s (touch_recency i s)"
  by (auto simp: touch_recency_def split: option.split intro: only_lists_trans [OF unlink_only link_newest_only])

lemmas unlink_fields [simp] = only_lists_fields [OF unlink_only]
lemmas link_newest_fields [simp] = only_lists_fields [OF link_newest_only]
lemmas touch_recency_fields [simp] = only_lists_fields [OF touch_recency_only]

lemma table_eq_None: "table s i = None \<longleftrightarrow> n_mappings s i = None"
  by (simp add: table_def)

lemma table_SomeE:
  assumes "table s i = Some m"
  obtains m' where "n_mappings s i = Some m'" "m = strip m'"
  using assms by (auto simp: table_def)

lemma table_Some: "n_mappings s i = Some m \<Longrightarrow> table s i = Some (strip m)"
  by (simp add: table_def)

section \<open>The lists of a state\<close>

type_synonym lru_key = "peer_id \<times> map_proto"

definition older_of :: "'g napt \<Rightarrow> mapping_id \<Rightarrow> mapping_id option" where
  "older_of s i = Option.bind (n_mappings s i) m_older"

definition newer_of :: "'g napt \<Rightarrow> mapping_id \<Rightarrow> mapping_id option" where
  "newer_of s i = Option.bind (n_mappings s i) m_newer"

text \<open>The dynamic mappings of one peer and protocol.\<close>

definition dyn :: "'g napt \<Rightarrow> lru_key \<Rightarrow> mapping_id set" where
  "dyn s key = {i. \<exists>m. table s i = Some m \<and> \<not> m_pinned m \<and> (m_owner m, m_proto m) = key}"

definition lists_ok :: "'g napt \<Rightarrow> (lru_key \<Rightarrow> mapping_id list) \<Rightarrow> bool" where
  "lists_ok s L \<longleftrightarrow> (\<forall>key. distinct (L key) \<and> set (L key) \<subseteq> dyn s key \<and>
     linked (older_of s) (newer_of s) None (L key) None \<and>
     n_recency s key = (if L key = [] then None else Some (hd (L key), last (L key))))"

lemma lists_okD:
  assumes "lists_ok s L"
  shows "distinct (L key)" "set (L key) \<subseteq> dyn s key" "linked (older_of s) (newer_of s) None (L key) None"
    "n_recency s key = (if L key = [] then None else Some (hd (L key), last (L key)))"
  using assms unfolding lists_ok_def by blast+

lemma dyn_disjoint: "i \<in> dyn s key \<Longrightarrow> i \<in> dyn s key' \<Longrightarrow> key = key'"
  by (auto simp: dyn_def)

lemma dynD: "i \<in> dyn s key \<Longrightarrow> \<exists>m. n_mappings s i = Some m \<and> \<not> m_pinned m \<and> (m_owner m, m_proto m) = key"
  by (auto simp: dyn_def table_def)

lemma dyn_only: "only_lists s s' \<Longrightarrow> dyn s' key = dyn s key"
  by (simp add: dyn_def only_lists_fields)

lemma dom_upd [simp]: "dom (n_mappings (upd_mapping i f s)) = dom (n_mappings s)"
  by (auto simp: upd_mapping_def split: option.splits)

lemma ptr_upd [simp]:
  "older_of (upd_mapping i (\<lambda>m. m\<lparr>m_newer := x\<rparr>) s) = older_of s"
  "newer_of (upd_mapping i (\<lambda>m. m\<lparr>m_older := x\<rparr>) s) = newer_of s"
  "i \<in> dom (n_mappings s) \<Longrightarrow> older_of (upd_mapping i (\<lambda>m. m\<lparr>m_older := x\<rparr>) s) = (older_of s)(i := x)"
  "i \<in> dom (n_mappings s) \<Longrightarrow> newer_of (upd_mapping i (\<lambda>m. m\<lparr>m_newer := x\<rparr>) s) = (newer_of s)(i := x)"
  "i \<in> dom (n_mappings s) \<Longrightarrow> older_of (upd_mapping i (\<lambda>m. m\<lparr>m_older := x, m_newer := y\<rparr>) s) = (older_of s)(i := x)"
  "i \<in> dom (n_mappings s) \<Longrightarrow> newer_of (upd_mapping i (\<lambda>m. m\<lparr>m_older := x, m_newer := y\<rparr>) s) = (newer_of s)(i := y)"
  by (auto simp: older_of_def newer_of_def upd_mapping_def fun_eq_iff split: option.splits)

lemma ptr_recency [simp]: "older_of (s\<lparr>n_recency := r\<rparr>) = older_of s" "newer_of (s\<lparr>n_recency := r\<rparr>) = newer_of s"
  by (simp_all add: older_of_def newer_of_def fun_eq_iff)

section \<open>Deleting from a list\<close>

lemma unlink_ptrs:
  assumes m: "n_mappings s i = Some m" "\<not> m_pinned m" "(m_owner m, m_proto m) = key"
    and ptr: "m_older m = last_of None ys" "m_newer m = first_of None zs"
    and dist: "distinct (ys @ i # zs)" and dom: "set ys \<union> set zs \<subseteq> dom (n_mappings s)"
    and rec: "n_recency s key = Some (hd (ys @ i # zs), last (ys @ i # zs))"
  shows "older_of (unlink i s) = (if zs = [] then (older_of s)(i := None) else (older_of s)(i := None, hd zs := last_of None ys))"
    and "newer_of (unlink i s) = (if ys = [] then (newer_of s)(i := None) else (newer_of s)(i := None, last ys := first_of None zs))"
    and "n_recency (unlink i s) = (n_recency s)(key := if ys @ zs = [] then None else Some (hd (ys @ zs), last (ys @ zs)))"
proof -
  have in_: "i \<in> dom (n_mappings s)" "ys \<noteq> [] \<Longrightarrow> last ys \<in> dom (n_mappings s)" "zs \<noteq> [] \<Longrightarrow> hd zs \<in> dom (n_mappings s)"
    using dom m(1) last_in_set [of ys] hd_in_set [of zs] by blast+
  have first: "first_of None zs = (if zs = [] then None else Some (hd zs))" by (cases zs) simp_all
  have last: "last_of None ys = (if ys = [] then None else Some (last ys))" by (simp add: last_of_def)
  have "older_of (unlink i s) = (if zs = [] then (older_of s)(i := None) else (older_of s)(i := None, hd zs := last_of None ys)) \<and>
      newer_of (unlink i s) = (if ys = [] then (newer_of s)(i := None) else (newer_of s)(i := None, last ys := first_of None zs)) \<and>
      n_recency (unlink i s) = (n_recency s)(key := if ys @ zs = [] then None else Some (hd (ys @ zs), last (ys @ zs)))"
    by (cases "ys = []"; cases "zs = []")
      (simp_all add: in_ unlink_def unlink_newer_def Let_def m ptr first last rec map_upd_triv)
  then show "older_of (unlink i s) = (if zs = [] then (older_of s)(i := None) else (older_of s)(i := None, hd zs := last_of None ys))"
    "newer_of (unlink i s) = (if ys = [] then (newer_of s)(i := None) else (newer_of s)(i := None, last ys := first_of None zs))"
    "n_recency (unlink i s) = (n_recency s)(key := if ys @ zs = [] then None else Some (hd (ys @ zs), last (ys @ zs)))"
    by blast+
qed

text \<open>Relinking the two neighbours of a deleted element makes one list of the rest.\<close>

lemma linked_delete:
  assumes l: "linked od nw None (ys @ i # zs) None" and d: "distinct (ys @ i # zs)"
  defines "od' \<equiv> (if zs = [] then od(i := None) else od(i := None, hd zs := last_of None ys))"
    and "nw' \<equiv> (if ys = [] then nw(i := None) else nw(i := None, last ys := first_of None zs))"
  shows "linked od' nw' None (ys @ zs) None"
proof -
  have y: "linked od nw None ys (Some i)" and z: "linked od nw (Some i) zs None" using l by (simp_all add: linked_append)
  have out: "i \<notin> set ys" "i \<notin> set zs" "ys = [] \<or> last ys \<notin> set zs" "zs = [] \<or> hd zs \<notin> set ys"
    using d last_in_set [of ys] hd_in_set [of zs] by (auto simp del: last_in_set hd_in_set)
  have "linked od' nw' None ys (first_of None zs)"
  proof (cases "ys = []")
    case False
    have "linked od (nw(last ys := first_of None zs)) None ys (first_of None zs)"
      using y d False by (intro linked_new_last) auto
    moreover have "od' x = od x \<and> nw' x = (nw(last ys := first_of None zs)) x" if "x \<in> set ys" for x
      using that out False by (cases "zs = []") (auto simp: od'_def nw'_def)
    ultimately show ?thesis using linked_cong [of ys od' od nw'] by blast
  qed simp
  moreover have "linked od' nw' (last_of None ys) zs None"
  proof (cases "zs = []")
    case False
    have "linked (od(hd zs := last_of None ys)) nw (last_of None ys) zs None"
      using z d False by (intro linked_new_first) auto
    moreover have "od' x = (od(hd zs := last_of None ys)) x \<and> nw' x = nw x" if "x \<in> set zs" for x
      using that out False by (cases "ys = []") (auto simp: od'_def nw'_def)
    ultimately show ?thesis using linked_cong [of zs od' _ nw' nw] by blast
  qed simp
  ultimately show ?thesis by (simp add: linked_append)
qed

lemma linked_ends:
  assumes "linked od nw None (ys @ i # zs) None"
  shows "od i = last_of None ys" "nw i = first_of None zs"
  using assms by (simp_all add: linked_append)

lemma unlink_lists:
  assumes ok: "lists_ok s L" and i: "i \<in> set (L key)"
  shows "lists_ok (unlink i s) (L(key := remove1 i (L key)))"
proof -
  have k: "distinct (L k)" "set (L k) \<subseteq> dyn s k" "linked (older_of s) (newer_of s) None (L k) None"
      "n_recency s k = (if L k = [] then None else Some (hd (L k), last (L k)))" for k
    using lists_okD [OF ok] by blast+
  obtain ys zs where xs: "L key = ys @ i # zs" using i by (meson split_list)
  have d: "distinct (ys @ i # zs)" using k(1) [of key] xs by simp
  have rem: "remove1 i (L key) = ys @ zs" using d by (simp add: xs remove1_append)
  obtain m where m: "n_mappings s i = Some m" "\<not> m_pinned m" "(m_owner m, m_proto m) = key"
    using dynD [of i s key] i k(2) by blast
  have ends: "m_older m = last_of None ys" "m_newer m = first_of None zs"
    using linked_ends [OF k(3) [of key, unfolded xs]] m(1) by (simp_all add: older_of_def newer_of_def)
  have dom: "set ys \<union> set zs \<subseteq> dom (n_mappings s)" using k(2) [of key] dynD by (fastforce simp: xs)
  have rec: "n_recency s key = Some (hd (ys @ i # zs), last (ys @ i # zs))" using k(4) [of key] by (simp add: xs)
  note p = unlink_ptrs [OF m ends d dom rec]
  show ?thesis unfolding lists_ok_def
  proof (intro allI)
    fix k'
    have dyn': "dyn (unlink i s) k = dyn s k" for k by (rule dyn_only [OF unlink_only])
    show "distinct ((L(key := remove1 i (L key))) k') \<and> set ((L(key := remove1 i (L key))) k') \<subseteq> dyn (unlink i s) k' \<and>
        linked (older_of (unlink i s)) (newer_of (unlink i s)) None ((L(key := remove1 i (L key))) k') None \<and>
        n_recency (unlink i s) k' = (if (L(key := remove1 i (L key))) k' = [] then None
          else Some (hd ((L(key := remove1 i (L key))) k'), last ((L(key := remove1 i (L key))) k')))"
    proof (cases "k' = key")
      case True
      have "linked (older_of (unlink i s)) (newer_of (unlink i s)) None (ys @ zs) None"
        unfolding p(1,2) by (rule linked_delete [OF k(3) [of key, unfolded xs] d])
      then show ?thesis using True d k(2) [of key, unfolded xs] by (simp add: rem dyn' p(3))
    next
      case False
      have "x \<notin> set (L key)" if "x \<in> set (L k')" for x
        using that False k(2) [of key] k(2) [of k'] dyn_disjoint by blast
      then have out: "x \<noteq> i" "ys = [] \<or> x \<noteq> last ys" "zs = [] \<or> x \<noteq> hd zs" if "x \<in> set (L k')" for x
        using that last_in_set [of ys] hd_in_set [of zs] unfolding xs by (force simp del: last_in_set hd_in_set)+
      have "older_of (unlink i s) x = older_of s x \<and> newer_of (unlink i s) x = newer_of s x" if "x \<in> set (L k')" for x
        using out [OF that] unfolding p(1,2) by (cases "ys = []"; cases "zs = []") simp_all
      then have "linked (older_of (unlink i s)) (newer_of (unlink i s)) None (L k') None"
        using k(3) [of k'] linked_cong [of "L k'" "older_of (unlink i s)" "older_of s" "newer_of (unlink i s)" "newer_of s"] by blast
      then show ?thesis using False k [of k'] by (simp add: dyn' p(3))
    qed
  qed
qed

section \<open>Appending to a list\<close>

lemma link_ptrs:
  assumes m: "n_mappings s i = Some m" "\<not> m_pinned m" "(m_owner m, m_proto m) = key"
    and i: "i \<notin> set xs" and dom: "set xs \<subseteq> dom (n_mappings s)"
    and rec: "n_recency s key = (if xs = [] then None else Some (hd xs, last xs))"
  shows "older_of (link_newest i s) = (older_of s)(i := last_of None xs)"
    and "newer_of (link_newest i s) = (if xs = [] then (newer_of s)(i := None) else (newer_of s)(last xs := Some i, i := None))"
    and "n_recency (link_newest i s) = (n_recency s)(key \<mapsto> (hd (xs @ [i]), i))"
proof -
  have in_: "i \<in> dom (n_mappings s)" "xs \<noteq> [] \<Longrightarrow> last xs \<in> dom (n_mappings s)"
    using dom m(1) last_in_set [of xs] by blast+
  show "older_of (link_newest i s) = (older_of s)(i := last_of None xs)"
    "newer_of (link_newest i s) = (if xs = [] then (newer_of s)(i := None) else (newer_of s)(last xs := Some i, i := None))"
    "n_recency (link_newest i s) = (n_recency s)(key \<mapsto> (hd (xs @ [i]), i))"
    by (cases "xs = []"; simp add: in_ link_newest_def Let_def m rec last_of_def)+
qed

lemma link_lists:
  assumes ok: "lists_ok s L" and i: "i \<in> dyn s key" "i \<notin> set (L key)"
  shows "lists_ok (link_newest i s) (L(key := L key @ [i]))"
proof -
  note k = lists_okD [OF ok]
  let ?s = "link_newest i s" and ?xs = "L key"
  obtain m where m: "n_mappings s i = Some m" "\<not> m_pinned m" "(m_owner m, m_proto m) = key" using dynD [OF i(1)] by blast
  have dom: "set ?xs \<subseteq> dom (n_mappings s)" using k(2) [of key] dynD by fastforce
  note p = link_ptrs [OF m i(2) dom k(4)]
  have dyn': "dyn ?s k = dyn s k" for k by (rule dyn_only [OF link_newest_only])
  have last: "?xs = [] \<or> last ?xs \<in> set ?xs" using last_in_set by blast
  show ?thesis unfolding lists_ok_def
  proof (intro allI)
    fix k'
    show "distinct ((L(key := ?xs @ [i])) k') \<and> set ((L(key := ?xs @ [i])) k') \<subseteq> dyn ?s k' \<and>
        linked (older_of ?s) (newer_of ?s) None ((L(key := ?xs @ [i])) k') None \<and>
        n_recency ?s k' = (if (L(key := ?xs @ [i])) k' = [] then None
          else Some (hd ((L(key := ?xs @ [i])) k'), last ((L(key := ?xs @ [i])) k')))"
    proof (cases "k' = key")
      case True
      have "linked (older_of ?s) (newer_of ?s) None ?xs (Some i)"
      proof (cases "?xs = []")
        case False
        then have "linked (older_of s) ((newer_of s)(last ?xs := Some i)) None ?xs (Some i)"
          using k(1,3) [of key] by (intro linked_new_last)
        moreover have "older_of ?s x = older_of s x \<and> newer_of ?s x = ((newer_of s)(last ?xs := Some i)) x" if "x \<in> set ?xs" for x
          using that i(2) False unfolding p(1,2) by auto
        ultimately show ?thesis using linked_cong [of ?xs "older_of ?s" "older_of s" "newer_of ?s"] by blast
      qed simp
      moreover have "older_of ?s i = last_of None ?xs" "newer_of ?s i = None" unfolding p(1,2) by simp_all
      ultimately have "linked (older_of ?s) (newer_of ?s) None (?xs @ [i]) None" by (simp add: linked_append)
      then show ?thesis using True i k(1,2) [of key] by (simp add: dyn' p(3))
    next
      case False
      have out: "x \<noteq> i" "x \<notin> set ?xs" if "x \<in> set (L k')" for x
        using that False k(2) [of key] k(2) [of k'] i(1) dyn_disjoint by blast+
      have "older_of ?s x = older_of s x \<and> newer_of ?s x = newer_of s x" if "x \<in> set (L k')" for x
        using out [OF that] last unfolding p(1,2) by (cases "?xs = []") auto
      then have "linked (older_of ?s) (newer_of ?s) None (L k') None"
        using k(3) [of k'] linked_cong [of "L k'" "older_of ?s" "older_of s" "newer_of ?s" "newer_of s"] by blast
      then show ?thesis using False k [of k'] by (simp add: dyn' p(3))
    qed
  qed
qed

section \<open>Moving to the end\<close>

lemma newer_None_last:
  assumes "linked od nw p xs None" and "i \<in> set xs" and "nw i = None"
  shows "\<exists>ys. xs = ys @ [i]"
proof -
  obtain ys zs where xs: "xs = ys @ i # zs" using assms(2) by (meson split_list)
  then have "first_of None zs = None" using assms(1,3) by (simp add: linked_append)
  then show ?thesis using xs by (cases zs) auto
qed

lemma touch_lists:
  assumes ok: "lists_ok s L" and i: "i \<in> set (L key)"
  shows "lists_ok (touch_recency i s) (L(key := remove1 i (L key) @ [i]))"
proof -
  note k = lists_okD [OF ok]
  obtain m where m: "n_mappings s i = Some m" "\<not> m_pinned m" using dynD [of i s key] i k(2) [of key] by blast
  show ?thesis
  proof (cases "m_newer m = None")
    case True
    then obtain ys where "L key = ys @ [i]"
      using newer_None_last [OF k(3) i] m by (auto simp: newer_of_def)
    then have "remove1 i (L key) @ [i] = L key" using k(1) [of key] by (simp add: remove1_append)
    then show ?thesis using ok m True by (simp add: touch_recency_def fun_upd_idem)
  next
    case False
    let ?s = "unlink i s" and ?L = "L(key := remove1 i (L key))"
    have "lists_ok (link_newest i ?s) (?L(key := ?L key @ [i]))"
      using i k(1,2) [of key] dyn_only [OF unlink_only, of i s]
      by (intro link_lists [OF unlink_lists [OF ok i]]) auto
    then show ?thesis using m False by (auto simp: touch_recency_def)
  qed
qed

lemma oldest_of_lists: "lists_ok s L \<Longrightarrow> oldest_of peer proto s = first_of None (L (peer, proto))"
  using lists_okD(4) [of s L "(peer, proto)"] by (cases "L (peer, proto)") (simp_all add: oldest_of_def)

section \<open>The contract of a recency order\<close>

text \<open>
  What the eviction relies on, stated for any implementation: the abstraction of a state is a list
  per key, and the front of a key's list is its least recently used member.
\<close>

locale recency_order =
  fixes ok :: "'s \<Rightarrow> ('k \<Rightarrow> mapping_id list) \<Rightarrow> bool"
    and has :: "'s \<Rightarrow> 'k \<Rightarrow> mapping_id set"
    and link :: "mapping_id \<Rightarrow> 's \<Rightarrow> 's" and drop_link :: "mapping_id \<Rightarrow> 's \<Rightarrow> 's" and touch :: "mapping_id \<Rightarrow> 's \<Rightarrow> 's"
    and front :: "'k \<Rightarrow> 's \<Rightarrow> mapping_id option"
  assumes inside: "ok s L \<Longrightarrow> set (L k) \<subseteq> has s k \<and> distinct (L k)"
    and linking: "ok s L \<Longrightarrow> i \<in> has s k \<Longrightarrow> i \<notin> set (L k) \<Longrightarrow> ok (link i s) (L(k := L k @ [i]))"
    and unlinking: "ok s L \<Longrightarrow> i \<in> set (L k) \<Longrightarrow> ok (drop_link i s) (L(k := remove1 i (L k)))"
    and touching: "ok s L \<Longrightarrow> i \<in> set (L k) \<Longrightarrow> ok (touch i s) (L(k := remove1 i (L k) @ [i]))"
    and front: "ok s L \<Longrightarrow> front k s = first_of None (L k)"
begin

text \<open>After any uses of some members, the members not used keep their order at the old end.\<close>

lemma uses:
  assumes "ok s L" and "set is \<subseteq> set (L k)"
  shows "\<exists>ys. ok (fold touch is s) (L(k := filter (\<lambda>x. x \<notin> set is) (L k) @ ys)) \<and> set ys = set is"
  using assms(2)
proof (induction "is" rule: rev_induct)
  case Nil
  then show ?case using assms(1) by (intro exI [of _ "[]"]) simp
next
  case (snoc i js)
  have "set js \<subseteq> set (L k)" using snoc.prems by simp
  then obtain ys where ys: "ok (fold touch js s) (L(k := filter (\<lambda>x. x \<notin> set js) (L k) @ ys))" "set ys = set js"
    using snoc.IH by blast
  let ?xs = "filter (\<lambda>x. x \<notin> set js) (L k)"
  have i: "i \<in> set (?xs @ ys)" using snoc.prems ys(2) by auto
  have d: "distinct (?xs @ ys)" using inside [OF ys(1), of k] by simp
  have "ok (fold touch (js @ [i]) s) (L(k := remove1 i (?xs @ ys) @ [i]))"
    using touching [OF ys(1), of i k] i by simp
  moreover have "remove1 i (?xs @ ys) = filter (\<lambda>x. x \<notin> set (js @ [i])) (L k) @ remove1 i ys"
  proof (cases "i \<in> set ?xs")
    case True
    then have "remove1 i ys = ys" using d by (auto intro: remove1_idem)
    then show ?thesis using True d by (simp add: remove1_append distinct_remove1_removeAll removeAll_filter_not_eq conj_commute eq_commute)
  next
    case False
    then have "i \<in> set js" using i ys(2) by auto
    then have "(\<lambda>x. x \<notin> set (js @ [i])) = (\<lambda>x. x \<notin> set js)" by auto
    then show ?thesis using False by (auto simp: remove1_append)
  qed
  moreover have "set (remove1 i ys @ [i]) = set (js @ [i])" using ys(2) d by auto
  ultimately show ?case by (metis append.assoc)
qed

lemma front_is_least_recent:
  assumes "ok s L" and "set is \<subseteq> set (L k)" and "L k = as @ x # bs" and "set as \<subseteq> set is" and "x \<notin> set is"
  shows "front k (fold touch is s) = Some x"
proof -
  obtain ys where "ok (fold touch is s) (L(k := filter (\<lambda>x. x \<notin> set is) (L k) @ ys))" using uses [OF assms(1,2)] by blast
  moreover have "filter (\<lambda>x. x \<notin> set is) as = []" using assms(4) by (auto simp: filter_empty_conv)
  ultimately show ?thesis using front assms(3,5) by simp
qed

end

interpretation lru: recency_order lists_ok dyn link_newest unlink touch_recency "\<lambda>(peer, proto). oldest_of peer proto"
proof unfold_locales
  fix s :: "'g napt" and L k i
  assume ok: "lists_ok s L"
  show "set (L k) \<subseteq> dyn s k \<and> distinct (L k)" using lists_okD [OF ok] by blast
  show "lists_ok (link_newest i s) (L(k := L k @ [i]))" if "i \<in> dyn s k" "i \<notin> set (L k)" by (rule link_lists [OF ok that])
  show "lists_ok (unlink i s) (L(k := remove1 i (L k)))" if "i \<in> set (L k)" by (rule unlink_lists [OF ok that])
  show "lists_ok (touch_recency i s) (L(k := remove1 i (L k) @ [i]))" if "i \<in> set (L k)" by (rule touch_lists [OF ok that])
  show "(case k of (peer, proto) \<Rightarrow> oldest_of peer proto) s = first_of None (L k)"
    using oldest_of_lists [OF ok] by (cases k) simp
qed

end
