(* ===== verification/Napt_Table.thy ===== *)
theory Napt_Table
  imports Recency
begin

text \<open>
  The invariant of the translation table and its preservation by every operation of \<open>nat.rs\<close>: the
  two indexes are exact inverses of the table, identifiers are never reused, the per-peer counts
  count, the recency lists hold exactly the dynamic mappings, and the allocators hold exactly the
  ports that dynamic mappings use.
\<close>

section \<open>The invariant\<close>

definition fam :: "mapping \<Rightarrow> bool" where
  "fam m = is_ipv6 (fst (m_internal m))"

definition ids_ok :: "'g napt \<Rightarrow> bool" where
  "ids_ok s \<longleftrightarrow> (\<forall>i. table s i \<noteq> None \<longrightarrow> i < n_next_id s)"

text \<open>An index is the inverse of a table under the key of its entries.\<close>

definition inverse_of :: "('k \<rightharpoonup> 'i) \<Rightarrow> ('m \<Rightarrow> 'k) \<Rightarrow> ('i \<rightharpoonup> 'm) \<Rightarrow> bool" where
  "inverse_of ix key tb \<longleftrightarrow> (\<forall>k i. ix k = Some i \<longleftrightarrow> (\<exists>m. tb i = Some m \<and> key m = k))"

lemma inverse_of_unique: "inverse_of ix key tb \<Longrightarrow> tb i = Some m \<Longrightarrow> tb j = Some m' \<Longrightarrow> key m = key m' \<Longrightarrow> i = j"
  unfolding inverse_of_def by (metis option.inject)

lemma inverse_of_lookup: "inverse_of ix key tb \<Longrightarrow> tb i = Some m \<Longrightarrow> ix (key m) = Some i"
  unfolding inverse_of_def by blast

lemma inverse_of_found: "inverse_of ix key tb \<Longrightarrow> ix k = Some i \<Longrightarrow> \<exists>m. tb i = Some m \<and> key m = k"
  unfolding inverse_of_def by blast

lemma inverse_of_delete:
  assumes "inverse_of ix key tb" and "tb i = Some m"
  shows "inverse_of (ix(key m := None)) key (tb(i := None))"
  unfolding inverse_of_def
proof (intro allI)
  fix k j
  show "(ix(key m := None)) k = Some j \<longleftrightarrow> (\<exists>m'. (tb(i := None)) j = Some m' \<and> key m' = k)"
  proof (cases "k = key m")
    case True
    have "\<nexists>m'. (tb(i := None)) j = Some m' \<and> key m' = k"
      using inverse_of_unique [OF assms] True by (auto split: if_splits)
    then show ?thesis using True by simp
  next
    case False
    then have "ix k = Some j \<longleftrightarrow> (\<exists>m'. (tb(i := None)) j = Some m' \<and> key m' = k)"
      using assms unfolding inverse_of_def by (metis fun_upd_apply option.inject option.distinct(1))
    then show ?thesis using False by simp
  qed
qed

lemma inverse_of_insert:
  assumes "inverse_of ix key tb" and "tb i = None" and "ix (key m) = None"
  shows "inverse_of (ix(key m \<mapsto> i)) key (tb(i \<mapsto> m))"
proof -
  have "key m' \<noteq> key m" if "tb j = Some m'" for j m' using inverse_of_lookup [OF assms(1) that] assms(3) by auto
  then show ?thesis using assms(1,2) unfolding inverse_of_def by (auto simp: fun_upd_apply)
qed

lemma inverse_of_update:
  assumes "inverse_of ix key tb" and "tb i = Some m" and "key m' = key m"
  shows "inverse_of ix key (tb(i \<mapsto> m'))"
  using assms unfolding inverse_of_def by (auto simp: fun_upd_apply)

definition index_ok :: "'g napt \<Rightarrow> bool" where
  "index_ok s \<longleftrightarrow> inverse_of (n_outbound s) out_key (table s) \<and> inverse_of (n_inbound s) in_key (table s)"

definition count_of :: "'g napt \<Rightarrow> lru_key \<Rightarrow> nat" where
  "count_of s key = (case n_counts s key of None \<Rightarrow> 0 | Some n \<Rightarrow> n)"

definition counts_ok :: "'g napt \<Rightarrow> bool" where
  "counts_ok s \<longleftrightarrow> (\<forall>key. count_of s key = card (dyn s key))"

definition lru_ok :: "'g napt \<Rightarrow> bool" where
  "lru_ok s \<longleftrightarrow> (\<exists>L. lists_ok s L \<and> (\<forall>key. set (L key) = dyn s key))"

definition used_ports :: "'g napt \<Rightarrow> bool \<Rightarrow> map_proto \<Rightarrow> u16 set" where
  "used_ports s v6 proto =
     {p. \<exists>i m. table s i = Some m \<and> \<not> m_pinned m \<and> fam m = v6 \<and> m_proto m = proto \<and> m_external_port m = p}"

definition ports_ok :: "'g napt \<Rightarrow> bool" where
  "ports_ok s \<longleftrightarrow> (\<forall>v6 proto. pa_inv (n_ports s v6 proto) \<and>
     pa.held (n_ports s v6 proto) = used_ports s v6 proto \<and>
     (\<forall>i m. table s i = Some m \<longrightarrow> m_pinned m \<longrightarrow> fam m = v6 \<longrightarrow> m_proto m = proto \<longrightarrow>
        m_external_port m \<in> pa_space (n_ports s v6 proto) \<longrightarrow> m_external_port m \<in> pa_pinned (n_ports s v6 proto)))"

definition peer_cap :: "nat_config \<Rightarrow> map_proto \<Rightarrow> nat" where
  "peer_cap c proto = (if proto = Icmp then nc_per_peer_identifiers c else nc_per_peer_mappings c)"

definition caps_ok :: "'g napt \<Rightarrow> bool" where
  "caps_ok s \<longleftrightarrow> (\<forall>peer proto. card (dyn s (peer, proto)) \<le> peer_cap (n_config s) proto)"

definition remote_key :: "remote_flow \<Rightarrow> ip_addr \<times> u16" where
  "remote_key r = (rf_addr r, rf_port r)"

definition flows_ok :: "'g napt \<Rightarrow> bool" where
  "flows_ok s \<longleftrightarrow> (\<forall>i m. table s i = Some m \<longrightarrow>
     distinct (map remote_key (m_remotes m)) \<and> length (m_remotes m) \<le> max 1 (nc_remotes_per_mapping (n_config s)))"

definition nat_inv :: "'g napt \<Rightarrow> bool" where
  "nat_inv s \<longleftrightarrow> ids_ok s \<and> index_ok s \<and> counts_ok s \<and> lru_ok s \<and> ports_ok s \<and> caps_ok s \<and> flows_ok s"

lemma nat_invD:
  assumes "nat_inv s"
  shows "ids_ok s" "index_ok s" "counts_ok s" "lru_ok s" "ports_ok s" "caps_ok s" "flows_ok s"
  using assms by (auto simp: nat_inv_def)

lemma fam_strip [simp]: "fam (strip m) = fam m"
  by (simp add: fam_def)

lemma keys_split: "out_key m = (m_proto m, fst (m_internal m), snd (m_internal m))" "in_key m = (m_proto m, fam m, m_external_port m)"
  by (simp_all add: out_key_def in_key_def fam_def)

lemma finite_dyn: "ids_ok s \<Longrightarrow> finite (dyn s key)"
  by (rule finite_subset [of _ "{..<n_next_id s}"]) (auto simp: dyn_def ids_ok_def)

section \<open>Removing a mapping\<close>

lemma set_allocator_fields [simp]:
  "n_config (set_allocator p v a s) = n_config s" "n_ownership (set_allocator p v a s) = n_ownership s"
  "n_exit (set_allocator p v a s) = n_exit s" "n_epoch (set_allocator p v a s) = n_epoch s"
  "n_v4 (set_allocator p v a s) = n_v4 s" "n_v6 (set_allocator p v a s) = n_v6 s"
  "n_mappings (set_allocator p v a s) = n_mappings s" "n_recency (set_allocator p v a s) = n_recency s"
  "n_outbound (set_allocator p v a s) = n_outbound s" "n_inbound (set_allocator p v a s) = n_inbound s"
  "n_counts (set_allocator p v a s) = n_counts s" "n_expiry (set_allocator p v a s) = n_expiry s"
  "n_next_id (set_allocator p v a s) = n_next_id s" "n_counters (set_allocator p v a s) = n_counters s"
  "n_rng (set_allocator p v a s) = n_rng s"
  "n_ports (set_allocator p v a s) = (n_ports s)(v := (n_ports s v)(p := a))"
  by (simp_all add: set_allocator_def)

lemma n_mappings_unlink: "table s i = Some m \<Longrightarrow> \<exists>m'. n_mappings (unlink i s) i = Some m' \<and> strip m' = m"
  using only_lists_fields(15) [OF unlink_only, of i s] by (metis table_SomeE)

lemma n_mappings_unlink_None: "table s i = None \<Longrightarrow> n_mappings (unlink i s) i = None"
  using only_lists_fields(15) [OF unlink_only, of i s] by (metis table_eq_None)

lemma remove_mapping_eq:
  assumes "table s i = Some m"
  shows "remove_mapping i s =
    (let u = unlink i s;
         s1 = u\<lparr>n_mappings := (n_mappings u)(i := None), n_outbound := (n_outbound s)(out_key m := None),
                n_inbound := (n_inbound s)(in_key m := None)\<rparr>
     in if m_pinned m then s1
        else s1\<lparr>n_ports := (n_ports s)(fam m := (n_ports s (fam m))(m_proto m :=
                  release (n_ports s (fam m) (m_proto m)) (m_external_port m))),
                n_counts := (case n_counts s (m_owner m, m_proto m) of None \<Rightarrow> n_counts s
                   | Some n \<Rightarrow> (n_counts s)((m_owner m, m_proto m) \<mapsto> n - 1))\<rparr>)"
proof -
  obtain m' where "n_mappings (unlink i s) i = Some m'" "m = strip m'" using n_mappings_unlink [OF assms] by blast
  then show ?thesis
    by (auto simp: remove_mapping_def Let_def set_allocator_def fam_def split: option.split)
qed

lemma remove_mapping_None: "table s i = None \<Longrightarrow> remove_mapping i s = s"
  by (simp add: table_eq_None remove_mapping_def unlink_def)

lemma remove_mapping_fields [simp]:
  "n_config (remove_mapping i s) = n_config s" "n_ownership (remove_mapping i s) = n_ownership s"
  "n_exit (remove_mapping i s) = n_exit s" "n_epoch (remove_mapping i s) = n_epoch s"
  "n_v4 (remove_mapping i s) = n_v4 s" "n_v6 (remove_mapping i s) = n_v6 s"
  "n_next_id (remove_mapping i s) = n_next_id s" "n_counters (remove_mapping i s) = n_counters s"
  "n_rng (remove_mapping i s) = n_rng s"
  by (simp_all add: remove_mapping_def Let_def split: option.split)

lemma table_remove [simp]: "table (remove_mapping i s) = (table s)(i := None)"
proof (cases "table s i")
  case (Some m)
  have "map_option strip (n_mappings (unlink i s) x) = map_option strip (n_mappings s x)" for x
    using only_lists_fields(15) [OF unlink_only, of i s] by (metis table_def)
  then show ?thesis
    by (auto simp: remove_mapping_eq [OF Some] Let_def table_def fun_eq_iff)
next
  case None
  then show ?thesis by (simp add: remove_mapping_None fun_upd_idem)
qed

lemma dyn_remove [simp]: "dyn (remove_mapping i s) key = dyn s key - {i}"
  by (auto simp: dyn_def split: if_splits)

lemma remove_index:
  assumes "table s i = Some m"
  shows "n_outbound (remove_mapping i s) = (n_outbound s)(out_key m := None)"
    "n_inbound (remove_mapping i s) = (n_inbound s)(in_key m := None)"
  by (simp_all add: remove_mapping_eq [OF assms] Let_def)

lemma remove_dynamic:
  assumes "table s i = Some m" and "\<not> m_pinned m"
  shows "n_ports (remove_mapping i s) = (n_ports s)(fam m := (n_ports s (fam m))(m_proto m :=
      release (n_ports s (fam m) (m_proto m)) (m_external_port m)))"
    "count_of (remove_mapping i s) key = (if key = (m_owner m, m_proto m) then count_of s key - 1 else count_of s key)"
  using assms(2) by (auto simp: remove_mapping_eq [OF assms(1)] Let_def count_of_def split: option.split)

lemma remove_pinned:
  assumes "table s i = Some m" and "m_pinned m"
  shows "n_ports (remove_mapping i s) = n_ports s" "n_counts (remove_mapping i s) = n_counts s"
    "n_recency (remove_mapping i s) = n_recency s"
    "j \<noteq> i \<Longrightarrow> n_mappings (remove_mapping i s) j = n_mappings s j"
proof -
  obtain m' where "n_mappings s i = Some m'" "m_pinned m'" using assms by (auto elim: table_SomeE)
  then have "unlink i s = s" by (simp add: unlink_def)
  then show "n_ports (remove_mapping i s) = n_ports s" "n_counts (remove_mapping i s) = n_counts s"
    "n_recency (remove_mapping i s) = n_recency s" "j \<noteq> i \<Longrightarrow> n_mappings (remove_mapping i s) j = n_mappings s j"
    using assms(2) by (simp_all add: remove_mapping_eq [OF assms(1)] Let_def)
qed

lemma index_remove:
  assumes "index_ok s"
  shows "index_ok (remove_mapping i s)"
proof (cases "table s i")
  case (Some m)
  then show ?thesis using assms
    unfolding index_ok_def remove_index [OF Some] table_remove by (blast intro: inverse_of_delete)
qed (simp add: assms remove_mapping_None)

lemma counts_remove:
  assumes "counts_ok s" and "ids_ok s"
  shows "counts_ok (remove_mapping i s)"
proof (cases "table s i")
  case (Some m)
  show ?thesis
  proof (cases "m_pinned m")
    case True
    then have "i \<notin> dyn s key" for key using Some by (auto simp: dyn_def)
    then show ?thesis using assms(1) remove_pinned(2) [OF Some True] by (simp add: counts_ok_def count_of_def)
  next
    case False
    have "i \<in> dyn s key \<longleftrightarrow> key = (m_owner m, m_proto m)" for key using Some False by (auto simp: dyn_def)
    then show ?thesis using assms(1) finite_dyn [OF assms(2)] remove_dynamic(2) [OF Some False]
      by (auto simp: counts_ok_def card_Diff_singleton_if)
  qed
qed (simp add: assms remove_mapping_None)

text \<open>The lists depend on the pointers of their members and on nothing else.\<close>

lemma lists_ok_cong:
  assumes "lists_ok s L" and "n_recency s' = n_recency s"
    and "\<And>key x. x \<in> set (L key) \<Longrightarrow> older_of s' x = older_of s x \<and> newer_of s' x = newer_of s x \<and> x \<in> dyn s' key"
  shows "lists_ok s' L"
  unfolding lists_ok_def
proof (intro allI)
  fix key
  note k = lists_okD [OF assms(1), of key]
  have "linked (older_of s') (newer_of s') None (L key) None"
    using k(3) assms(3) [of _ key] linked_cong [of "L key" "older_of s'" "older_of s" "newer_of s'" "newer_of s"] by blast
  moreover have "set (L key) \<subseteq> dyn s' key" using assms(3) by blast
  ultimately show "distinct (L key) \<and> set (L key) \<subseteq> dyn s' key \<and> linked (older_of s') (newer_of s') None (L key) None \<and>
      n_recency s' key = (if L key = [] then None else Some (hd (L key), last (L key)))"
    using k(1,4) assms(2) by simp
qed

lemma ptr_cong: "n_mappings s' x = n_mappings s x \<Longrightarrow> older_of s' x = older_of s x \<and> newer_of s' x = newer_of s x"
  by (simp add: older_of_def newer_of_def)

lemma lru_remove:
  assumes "lru_ok s"
  shows "lru_ok (remove_mapping i s)"
proof (cases "table s i")
  case (Some m)
  obtain L where L: "lists_ok s L" "\<And>key. set (L key) = dyn s key" using assms by (auto simp: lru_ok_def)
  show ?thesis
  proof (cases "m_pinned m")
    case True
    then have i: "i \<notin> dyn s key" for key using Some by (auto simp: dyn_def)
    have "lists_ok (remove_mapping i s) L"
    proof (rule lists_ok_cong [OF L(1) remove_pinned(3) [OF Some True]])
      fix key x assume "x \<in> set (L key)"
      then have "x \<in> dyn s key" "x \<noteq> i" using L(2) i by blast+
      then show "older_of (remove_mapping i s) x = older_of s x \<and> newer_of (remove_mapping i s) x = newer_of s x \<and>
          x \<in> dyn (remove_mapping i s) key"
        using ptr_cong [OF remove_pinned(4) [OF Some True]] by simp
    qed
    moreover have "set (L key) = dyn (remove_mapping i s) key" for key using L(2) i by simp
    ultimately show ?thesis unfolding lru_ok_def by blast
  next
    case False
    define k0 where "k0 = (m_owner m, m_proto m)"
    have i: "i \<in> dyn s key \<longleftrightarrow> key = k0" for key using Some False by (auto simp: dyn_def k0_def)
    let ?L = "L(k0 := remove1 i (L k0))"
    have mem: "set (?L key) = dyn s key - {i}" for key
      using L(2) i lists_okD(1) [OF L(1)] by (cases "key = k0") (simp_all add: set_remove1_eq)
    have un: "lists_ok (unlink i s) ?L" using L(2) i by (intro unlink_lists [OF L(1)]) simp
    have same: "n_recency (remove_mapping i s) = n_recency (unlink i s)"
      "j \<noteq> i \<Longrightarrow> n_mappings (remove_mapping i s) j = n_mappings (unlink i s) j" for j
      using False by (simp_all add: remove_mapping_eq [OF Some] Let_def)
    have "lists_ok (remove_mapping i s) ?L"
    proof (rule lists_ok_cong [OF un same(1)])
      fix key x assume "x \<in> set (?L key)"
      then have "x \<in> dyn s key - {i}" by (simp only: mem)
      then have "x \<in> dyn s key" "x \<noteq> i" by simp_all
      then show "older_of (remove_mapping i s) x = older_of (unlink i s) x \<and>
          newer_of (remove_mapping i s) x = newer_of (unlink i s) x \<and> x \<in> dyn (remove_mapping i s) key"
        using ptr_cong [OF same(2)] by simp
    qed
    moreover have "\<forall>key. set (?L key) = dyn (remove_mapping i s) key" by (simp only: mem dyn_remove simp_thms)
    ultimately show ?thesis unfolding lru_ok_def by blast
  qed
qed (simp add: assms remove_mapping_None)

lemma ports_okD:
  assumes "ports_ok s"
  shows "pa_inv (n_ports s v6 proto)" "pa.held (n_ports s v6 proto) = used_ports s v6 proto"
    "table s i = Some m \<Longrightarrow> m_pinned m \<Longrightarrow> m_external_port m \<in> pa_space (n_ports s (fam m) (m_proto m)) \<Longrightarrow>
       m_external_port m \<in> pa_pinned (n_ports s (fam m) (m_proto m))"
  using assms unfolding ports_ok_def by blast+

lemma ports_remove:
  assumes ok: "ports_ok s" and ix: "index_ok s"
  shows "ports_ok (remove_mapping i s)"
proof (cases "table s i")
  case (Some m)
  note P = ports_okD [OF ok]
  show ?thesis
  proof (cases "m_pinned m")
    case True
    have "used_ports (remove_mapping i s) v6 proto = used_ports s v6 proto" for v6 proto
      unfolding used_ports_def table_remove by (rule Collect_cong) (metis Some True fun_upd_apply option.distinct(1) option.inject)
    then show ?thesis using P remove_pinned(1) [OF Some True]
      unfolding ports_ok_def by (auto split: if_splits)
  next
    case False
    let ?a = "n_ports s (fam m) (m_proto m)" and ?p = "m_external_port m"
    have uniq: "m_external_port m' \<noteq> ?p"
      if "table s j = Some m'" "j \<noteq> i" "fam m' = fam m" "m_proto m' = m_proto m" for j m'
      using inverse_of_unique [of "n_inbound s" in_key "table s" j m' i m] ix that Some
      by (auto simp: index_ok_def keys_split)
    have used: "used_ports (remove_mapping i s) v6 proto =
        (if v6 = fam m \<and> proto = m_proto m then used_ports s v6 proto - {?p} else used_ports s v6 proto)" for v6 proto
    proof (intro set_eqI iffI)
      fix p assume "p \<in> used_ports (remove_mapping i s) v6 proto"
      then obtain j m' where "table s j = Some m'" "j \<noteq> i" "\<not> m_pinned m'" "fam m' = v6" "m_proto m' = proto" "p = m_external_port m'"
        by (auto simp: used_ports_def split: if_splits)
      then show "p \<in> (if v6 = fam m \<and> proto = m_proto m then used_ports s v6 proto - {?p} else used_ports s v6 proto)"
        using uniq [of j m'] by (auto simp: used_ports_def)
    next
      fix p assume "p \<in> (if v6 = fam m \<and> proto = m_proto m then used_ports s v6 proto - {?p} else used_ports s v6 proto)"
      then obtain j m' where j: "table s j = Some m'" "\<not> m_pinned m'" "fam m' = v6" "m_proto m' = proto" "p = m_external_port m'"
          "\<not> (v6 = fam m \<and> proto = m_proto m \<and> p = ?p)"
        by (auto simp: used_ports_def split: if_splits)
      then have "j \<noteq> i" using Some by auto
      then have "((table s)(i := None)) j = Some m'" using j(1) by simp
      then show "p \<in> used_ports (remove_mapping i s) v6 proto" unfolding used_ports_def table_remove using j(2-5) by blast
    qed
    have ports: "n_ports (remove_mapping i s) v6 proto =
        (if v6 = fam m \<and> proto = m_proto m then release ?a ?p else n_ports s v6 proto)" for v6 proto
      using remove_dynamic(1) [OF Some False] by simp
    note rel = pa.back_held_iff [OF P(1) [of "fam m" "m_proto m"], of ?p]
    show ?thesis unfolding ports_ok_def
    proof (intro allI conjI impI)
      fix v6 proto
      show "pa_inv (n_ports (remove_mapping i s) v6 proto)" using rel(3) P(1) by (simp add: ports)
      show "pa.held (n_ports (remove_mapping i s) v6 proto) = used_ports (remove_mapping i s) v6 proto"
        using rel(1) P(2) by (simp add: ports used)
      fix j m' assume j: "table (remove_mapping i s) j = Some m'" "m_pinned m'" "fam m' = v6" "m_proto m' = proto"
        and sp: "m_external_port m' \<in> pa_space (n_ports (remove_mapping i s) v6 proto)"
      have "pa_space (n_ports (remove_mapping i s) v6 proto) = pa_space (n_ports s v6 proto)"
        "pa_pinned (n_ports (remove_mapping i s) v6 proto) = pa_pinned (n_ports s v6 proto)"
        using rel(2,4) by (simp_all add: ports)
      moreover have "table s j = Some m'" using j(1) by (cases "j = i") simp_all
      ultimately show "m_external_port m' \<in> pa_pinned (n_ports (remove_mapping i s) v6 proto)"
        using P(3) [of j m'] j(2-4) sp by simp
    qed
  qed
qed (simp add: ok remove_mapping_None)

lemma inv_remove:
  assumes "nat_inv s"
  shows "nat_inv (remove_mapping i s)"
proof -
  note I = nat_invD [OF assms]
  have sub: "table (remove_mapping i s) j = Some m \<Longrightarrow> table s j = Some m" for j m by (simp split: if_splits)
  have "ids_ok (remove_mapping i s)" using I(1) by (simp add: ids_ok_def)
  moreover have "caps_ok (remove_mapping i s)"
    using I(6) card_mono [OF finite_dyn [OF I(1)], of "dyn (remove_mapping i s) _"]
    unfolding caps_ok_def by (simp add: Diff_subset le_trans [OF card_Diff1_le])
  moreover have "flows_ok (remove_mapping i s)" 
    using I(7) sub unfolding flows_ok_def remove_mapping_fields by blast
  ultimately show ?thesis
    using index_remove [OF I(2)] counts_remove [OF I(3,1)] lru_remove [OF I(4)] ports_remove [OF I(5,2)]
    by (simp add: nat_inv_def)
qed

lemma inv_removes: "nat_inv s \<Longrightarrow> nat_inv (fold remove_mapping is s)"
  by (induction "is" arbitrary: s) (simp_all add: inv_remove)

lemma removes_fields [simp]:
  "table (fold remove_mapping is s) i = (if i \<in> set is then None else table s i)"
  "n_config (fold remove_mapping is s) = n_config s" "n_next_id (fold remove_mapping is s) = n_next_id s"
  "n_ownership (fold remove_mapping is s) = n_ownership s" "n_expiry (fold remove_mapping is s) = n_expiry s"
  "n_exit (fold remove_mapping is s) = n_exit s" "n_v4 (fold remove_mapping is s) = n_v4 s"
  "n_v6 (fold remove_mapping is s) = n_v6 s" "n_counters (fold remove_mapping is s) = n_counters s"
  "n_rng (fold remove_mapping is s) = n_rng s"
  by (induction "is" arbitrary: s) simp_all

section \<open>Fields the invariant does not read\<close>

lemma table_irrelevant [simp]:
  "table (s\<lparr>n_expiry := x1\<rparr>) = table s" "table (s\<lparr>n_counters := x2\<rparr>) = table s" "table (s\<lparr>n_rng := x3\<rparr>) = table s"
  "table (s\<lparr>n_ownership := x4\<rparr>) = table s" "table (s\<lparr>n_exit := x5\<rparr>) = table s" "table (s\<lparr>n_epoch := x6\<rparr>) = table s"
  "table (s\<lparr>n_v4 := x7\<rparr>) = table s" "table (s\<lparr>n_v6 := x8\<rparr>) = table s" "table (s\<lparr>n_counts := x9\<rparr>) = table s"
  "table (s\<lparr>n_ports := x10\<rparr>) = table s" "table (s\<lparr>n_outbound := x11\<rparr>) = table s"
  "table (s\<lparr>n_inbound := x12\<rparr>) = table s" "table (s\<lparr>n_next_id := x13\<rparr>) = table s"
  "table (set_allocator p v a s) = table s" "table (push_expiry e s) = table s"
  by (simp_all add: table_def fun_eq_iff push_expiry_def)

lemma push_expiry_fields [simp]:
  "n_config (push_expiry e s) = n_config s" "n_ownership (push_expiry e s) = n_ownership s"
  "n_exit (push_expiry e s) = n_exit s" "n_epoch (push_expiry e s) = n_epoch s"
  "n_v4 (push_expiry e s) = n_v4 s" "n_v6 (push_expiry e s) = n_v6 s"
  "n_mappings (push_expiry e s) = n_mappings s" "n_recency (push_expiry e s) = n_recency s"
  "n_outbound (push_expiry e s) = n_outbound s" "n_inbound (push_expiry e s) = n_inbound s"
  "n_counts (push_expiry e s) = n_counts s" "n_ports (push_expiry e s) = n_ports s"
  "n_next_id (push_expiry e s) = n_next_id s" "n_counters (push_expiry e s) = n_counters s"
  "n_rng (push_expiry e s) = n_rng s" "n_expiry (push_expiry e s) = insort e (n_expiry s)"
  by (simp_all add: push_expiry_def)

lemma same_mappings_lists:
  assumes "n_mappings t = n_mappings s" and "n_recency t = n_recency s"
  shows "lists_ok t L = lists_ok s L" and "dyn t = dyn s" and "table t = table s"
proof -
  show tb: "table t = table s" using assms(1) by (simp add: table_def fun_eq_iff)
  then show d: "dyn t = dyn s" by (simp add: dyn_def fun_eq_iff)
  have "older_of t = older_of s" "newer_of t = newer_of s" using assms(1) by (simp_all add: older_of_def newer_of_def fun_eq_iff)
  then show "lists_ok t L = lists_ok s L" using assms(2) d unfolding lists_ok_def by simp
qed

lemma lru_same: "n_mappings t = n_mappings s \<Longrightarrow> n_recency t = n_recency s \<Longrightarrow> lru_ok t = lru_ok s"
  using same_mappings_lists [of t s] by (simp add: lru_ok_def)

lemma inv_irrelevant:
  assumes "nat_inv s" and "n_mappings t = n_mappings s" "n_recency t = n_recency s" "n_outbound t = n_outbound s"
    "n_inbound t = n_inbound s" "n_counts t = n_counts s" "n_ports t = n_ports s" "n_next_id t = n_next_id s"
    "n_config t = n_config s"
  shows "nat_inv t"
proof -
  note l = same_mappings_lists [OF assms(2,3)]
  show ?thesis using assms(1)
    unfolding nat_inv_def ids_ok_def index_ok_def counts_ok_def count_of_def lru_ok_def ports_ok_def used_ports_def
      caps_ok_def flows_ok_def l assms(4-9) .
qed

section \<open>Inserting a mapping\<close>

lemma insert_mapping_eq:
  "insert_mapping m s = (s\<lparr>n_next_id := n_next_id s + 1, n_outbound := (n_outbound s)(out_key m \<mapsto> n_next_id s),
      n_inbound := (n_inbound s)(in_key m \<mapsto> n_next_id s), n_mappings := (n_mappings s)(n_next_id s \<mapsto> m)\<rparr>, n_next_id s)"
  by (simp add: insert_mapping_def Let_def)

lemma table_insert: "table (fst (insert_mapping m s)) = (table s)(n_next_id s \<mapsto> strip m)"
  by (simp add: insert_mapping_eq table_def fun_eq_iff)

lemma insert_fields [simp]:
  "n_config (fst (insert_mapping m s)) = n_config s" "n_ownership (fst (insert_mapping m s)) = n_ownership s"
  "n_exit (fst (insert_mapping m s)) = n_exit s" "n_epoch (fst (insert_mapping m s)) = n_epoch s"
  "n_v4 (fst (insert_mapping m s)) = n_v4 s" "n_v6 (fst (insert_mapping m s)) = n_v6 s"
  "n_recency (fst (insert_mapping m s)) = n_recency s"
  "n_outbound (fst (insert_mapping m s)) = (n_outbound s)(out_key m \<mapsto> n_next_id s)"
  "n_inbound (fst (insert_mapping m s)) = (n_inbound s)(in_key m \<mapsto> n_next_id s)"
  "n_counts (fst (insert_mapping m s)) = n_counts s" "n_ports (fst (insert_mapping m s)) = n_ports s"
  "n_expiry (fst (insert_mapping m s)) = n_expiry s" "n_next_id (fst (insert_mapping m s)) = Suc (n_next_id s)"
  "n_counters (fst (insert_mapping m s)) = n_counters s" "n_rng (fst (insert_mapping m s)) = n_rng s"
  "snd (insert_mapping m s) = n_next_id s"
  by (simp_all add: insert_mapping_eq)

lemma fresh_id: "ids_ok s \<Longrightarrow> table s (n_next_id s) = None"
  by (auto simp: ids_ok_def)

lemma dyn_insert:
  assumes "ids_ok s" and "table t = (table s)(n_next_id s \<mapsto> m)"
  shows "dyn t key = (if \<not> m_pinned m \<and> key = (m_owner m, m_proto m) then insert (n_next_id s) (dyn s key) else dyn s key)"
    and "n_next_id s \<notin> dyn s key"
  using fresh_id [OF assms(1)] by (auto simp: dyn_def assms(2))

lemma inv_insert:
  assumes inv: "nat_inv s" and t: "table t = (table s)(n_next_id s \<mapsto> m)"
    and out: "n_outbound t = (n_outbound s)(out_key m \<mapsto> n_next_id s)" "n_outbound s (out_key m) = None"
    and in_: "n_inbound t = (n_inbound s)(in_key m \<mapsto> n_next_id s)" "n_inbound s (in_key m) = None"
    and cnt: "\<And>key. count_of t key = count_of s key + (if \<not> m_pinned m \<and> key = (m_owner m, m_proto m) then 1 else 0)"
    and nxt: "n_next_id t = Suc (n_next_id s)" and cfg: "n_config t = n_config s"
    and lru: "lru_ok t" and ports: "ports_ok t" and rem: "m_remotes m = []"
    and cap: "\<not> m_pinned m \<Longrightarrow> card (dyn s (m_owner m, m_proto m)) < peer_cap (n_config s) (m_proto m)"
  shows "nat_inv t"
proof -
  note I = nat_invD [OF inv]
  note d = dyn_insert [OF I(1) t]
  have "ids_ok t" using I(1) nxt by (auto simp: ids_ok_def t less_Suc_eq)
  moreover have "index_ok t"
    using I(2) fresh_id [OF I(1)] out in_ unfolding index_ok_def t by (auto intro: inverse_of_insert)
  moreover have "counts_ok t"
    using I(3) finite_dyn [OF I(1)] d(2) unfolding counts_ok_def cnt d(1) by simp
  moreover have "caps_ok t" unfolding caps_ok_def cfg d(1)
    using I(6) finite_dyn [OF I(1)] d(2) cap by (auto simp: caps_ok_def Suc_le_eq)
  moreover have "flows_ok t" using I(7) rem unfolding flows_ok_def cfg t by auto
  ultimately show ?thesis using lru ports by (simp add: nat_inv_def)
qed

lemma used_ports_insert:
  assumes "table t = (table s)(i \<mapsto> m)" and "table s i = None"
  shows "used_ports t v6 proto =
    (if \<not> m_pinned m \<and> fam m = v6 \<and> m_proto m = proto then insert (m_external_port m) (used_ports s v6 proto)
     else used_ports s v6 proto)"
proof (intro set_eqI iffI)
  fix p assume "p \<in> used_ports t v6 proto"
  then show "p \<in> (if \<not> m_pinned m \<and> fam m = v6 \<and> m_proto m = proto
      then insert (m_external_port m) (used_ports s v6 proto) else used_ports s v6 proto)"
    by (auto simp: used_ports_def assms(1) split: if_splits)
next
  fix p assume p: "p \<in> (if \<not> m_pinned m \<and> fam m = v6 \<and> m_proto m = proto
      then insert (m_external_port m) (used_ports s v6 proto) else used_ports s v6 proto)"
  show "p \<in> used_ports t v6 proto"
  proof (cases "p \<in> used_ports s v6 proto")
    case True
    then obtain j m' where j: "table s j = Some m'" "\<not> m_pinned m'" "fam m' = v6" "m_proto m' = proto" "m_external_port m' = p"
      by (auto simp: used_ports_def)
    then have "table t j = Some m'" using assms by auto
    then show ?thesis using j unfolding used_ports_def by blast
  next
    case False
    moreover have "table t i = Some m" using assms(1) by simp
    ultimately show ?thesis using p unfolding used_ports_def by (auto split: if_splits)
  qed
qed

lemma ports_insert:
  assumes ok: "ports_ok s" and t: "table t = (table s)(i \<mapsto> m)" "table s i = None"
    and p: "n_ports t = (n_ports s)(fam m := (n_ports s (fam m))(m_proto m := a))"
    and a: "pa_inv a" "pa_space a = pa_space (n_ports s (fam m) (m_proto m))"
      "pa.held a = (if m_pinned m then used_ports s (fam m) (m_proto m)
                    else insert (m_external_port m) (used_ports s (fam m) (m_proto m)))"
      "pa_pinned (n_ports s (fam m) (m_proto m)) \<subseteq> pa_pinned a"
      "m_pinned m \<Longrightarrow> m_external_port m \<in> pa_space a \<Longrightarrow> m_external_port m \<in> pa_pinned a"
  shows "ports_ok t"
  unfolding ports_ok_def
proof (intro allI conjI impI)
  fix v6 proto
  note P = ports_okD [OF ok]
  show "pa_inv (n_ports t v6 proto)" using P(1) a(1) by (simp add: p)
  show "pa.held (n_ports t v6 proto) = used_ports t v6 proto"
    using P(2) a(3) by (simp add: p used_ports_insert [OF t])
  fix j m' assume j: "table t j = Some m'" "m_pinned m'" "fam m' = v6" "m_proto m' = proto"
    and sp: "m_external_port m' \<in> pa_space (n_ports t v6 proto)"
  show "m_external_port m' \<in> pa_pinned (n_ports t v6 proto)"
  proof (cases "j = i")
    case True
    then have "m' = m" using j(1) t(1) by simp
    then show ?thesis using a(5) j sp by (simp add: p)
  next
    case False
    then have "table s j = Some m'" using j(1) t(1) by simp
    then show ?thesis using P(3) [of j m'] a(2,4) j sp by (auto simp: p split: if_splits)
  qed
qed

lemma lru_insert:
  assumes "lru_ok s" and ids: "ids_ok s" and m: "t = fst (insert_mapping m u)"
    and u: "n_mappings u = n_mappings s" "n_recency u = n_recency s" "n_next_id u = n_next_id s"
  shows "m_pinned m \<Longrightarrow> lru_ok t" and "\<not> m_pinned m \<Longrightarrow> lru_ok (link_newest (n_next_id s) t)"
proof -
  obtain L where L: "lists_ok s L" "\<And>key. set (L key) = dyn s key" using assms(1) by (auto simp: lru_ok_def)
  have "table u = table s" using u by (rule_tac same_mappings_lists)
  then have tb: "table t = (table s)(n_next_id s \<mapsto> strip m)" using u(3) by (simp add: m table_insert)
  note d = dyn_insert [OF ids tb]
  have rec: "n_recency t = n_recency s" using u(2) by (simp add: m)
  have t: "lists_ok t L"
  proof (rule lists_ok_cong [OF L(1) rec])
    fix key x assume x: "x \<in> set (L key)"
    then have "x \<noteq> n_next_id s" using L(2) d(2) by blast
    then have "n_mappings t x = n_mappings s x" using u by (simp add: m insert_mapping_eq)
    then show "older_of t x = older_of s x \<and> newer_of t x = newer_of s x \<and> x \<in> dyn t key"
      using ptr_cong [of t x s] x L(2) d(1) by auto
  qed
  show "lru_ok t" if "m_pinned m" using t L(2) d(1) that unfolding lru_ok_def by auto
  show "lru_ok (link_newest (n_next_id s) t)" if "\<not> m_pinned m"
  proof -
    let ?k = "(m_owner m, m_proto m)" and ?i = "n_next_id s"
    have "lists_ok (link_newest ?i t) (L(?k := L ?k @ [?i]))"
      using t L(2) d that by (intro link_lists) simp_all
    moreover have "set ((L(?k := L ?k @ [?i])) key) = dyn (link_newest ?i t) key" for key
      using L(2) d(1) [of key] that dyn_only [OF link_newest_only, of ?i t key] by auto
    ultimately show ?thesis unfolding lru_ok_def by blast
  qed
qed

text \<open>A port the allocator could give is not in use by any mapping of its family and protocol.\<close>

lemma free_port_unused:
  assumes ok: "ports_ok s" and ix: "index_ok s" and free: "p \<in> pa_free_set (n_ports s v6 proto)"
  shows "n_inbound s (proto, v6, p) = None"
proof (rule ccontr)
  assume "n_inbound s (proto, v6, p) \<noteq> None"
  then obtain i m where m: "table s i = Some m" "in_key m = (proto, v6, p)"
    using ix unfolding index_ok_def by (blast dest: inverse_of_found)
  then have k: "fam m = v6" "m_proto m = proto" "m_external_port m = p" by (auto simp: keys_split)
  note P = ports_okD [OF ok]
  have "p \<notin> pa.held (n_ports s v6 proto)" using free by (auto simp: pa.held_def)
  moreover have "p \<in> used_ports s v6 proto" if "\<not> m_pinned m" using m(1) k that unfolding used_ports_def by blast
  ultimately have "m_pinned m" using P(2) by blast
  then show False using P(3) [OF m(1)] k free pa.part [OF P(1), of v6 proto] by auto
qed

section \<open>Creating a mapping\<close>

definition at_cap :: "peer_id \<Rightarrow> map_proto \<Rightarrow> 'g napt \<Rightarrow> bool" where
  "at_cap peer proto s \<longleftrightarrow> peer_cap (n_config s) proto \<le> count_of s (peer, proto)"

definition evict :: "peer_id \<Rightarrow> map_proto \<Rightarrow> 'g napt \<Rightarrow> 'g napt" where
  "evict peer proto s = (if at_cap peer proto s then remove_at (oldest_of peer proto s) s else s)"

definition fresh_mapping :: "peer_id \<Rightarrow> map_proto \<Rightarrow> socket_addr \<Rightarrow> u16 \<Rightarrow> instant \<Rightarrow> bool \<Rightarrow> mapping" where
  "fresh_mapping peer proto internal port now pinned =
     \<lparr>m_owner = peer, m_proto = proto, m_internal = internal, m_external_port = port,
      m_remotes = [], m_last_seen = now, m_pinned = pinned, m_older = None, m_newer = None\<rparr>"

lemma fresh_mapping_simps [simp]:
  "m_owner (fresh_mapping peer proto internal port now pinned) = peer"
  "m_proto (fresh_mapping peer proto internal port now pinned) = proto"
  "m_internal (fresh_mapping peer proto internal port now pinned) = internal"
  "m_external_port (fresh_mapping peer proto internal port now pinned) = port"
  "m_remotes (fresh_mapping peer proto internal port now pinned) = []"
  "m_last_seen (fresh_mapping peer proto internal port now pinned) = now"
  "m_pinned (fresh_mapping peer proto internal port now pinned) = pinned"
  "strip (fresh_mapping peer proto internal port now pinned) = fresh_mapping peer proto internal port now pinned"
  "fam (fresh_mapping peer proto internal port now pinned) = is_ipv6 (fst internal)"
  by (simp_all add: fresh_mapping_def strip_def fam_def)

text \<open>The state after a mapping was made with the allocator and the generator as the draw left them.\<close>

definition installed ::
  "mapping \<Rightarrow> port_allocator \<Rightarrow> 'g \<Rightarrow> instant \<Rightarrow> 'g napt \<Rightarrow> 'g napt" where
  "installed m a g now s =
     (let key = (m_owner m, m_proto m);
          s1 = link_newest (n_next_id s) (fst (insert_mapping m ((set_allocator (m_proto m) (fam m) a s)\<lparr>n_rng := g\<rparr>)));
          s2 = s1\<lparr>n_counts := (n_counts s1)(key \<mapsto> count_of s1 key + 1)\<rparr>
      in push_expiry (now + initial_timeout (n_config s) (m_proto m), n_next_id s) s2)"

lemma create_mapping_eq:
  "create_mapping w peer proto internal now s =
     (if at_cap peer proto s \<and> (proto = Tcp \<or> oldest_of peer proto s = None) then (s, Err PeerCap)
      else
        let s1 = evict peer proto s; v6 = is_ipv6 (fst internal);
            (a, g, port) = alloc (w_draw w) (n_ports s1 v6 proto) (Some (snd internal)) (n_rng s1)
        in (case port of
              None \<Rightarrow> ((set_allocator proto v6 a s1)\<lparr>n_rng := g\<rparr>, Err PortExhausted)
            | Some p \<Rightarrow> (installed (fresh_mapping peer proto internal p now False) a g now s1, Ok (n_next_id s1))))"
proof -
  let ?cap = "if proto = Icmp then nc_per_peer_identifiers (n_config s) else nc_per_peer_mappings (n_config s)"
  let ?n = "case n_counts s (peer, proto) of None \<Rightarrow> 0 | Some n \<Rightarrow> n" and ?v6 = "is_ipv6 (fst internal)"
  have cap: "?cap \<le> ?n \<longleftrightarrow> at_cap peer proto s" by (simp add: at_cap_def peer_cap_def count_of_def)
  have ev: "(if at_cap peer proto s then case oldest_of peer proto s of None \<Rightarrow> s | Some v \<Rightarrow> remove_mapping v s else s) =
      evict peer proto s" by (simp add: evict_def remove_at_def)
  obtain a g port where al: "alloc (w_draw w) (n_ports (evict peer proto s) ?v6 proto) (Some (snd internal))
      (n_rng (evict peer proto s)) = (a, g, port)" by (metis prod_cases3)
  show ?thesis
  proof (cases port)
    case None
    then show ?thesis unfolding create_mapping_def Let_def cap ev al prod.case option.case by simp
  next
    case (Some p)
    have f: "\<lparr>m_owner = peer, m_proto = proto, m_internal = internal, m_external_port = p, m_remotes = [],
        m_last_seen = now, m_pinned = False, m_older = None, m_newer = None\<rparr> = fresh_mapping peer proto internal p now False"
      by (simp add: fresh_mapping_def)
    show ?thesis unfolding create_mapping_def Let_def cap ev al prod.case Some option.case f insert_mapping_eq installed_def
      by (simp add: count_of_def)
  qed
qed

lemma installed_fields [simp]:
  "n_config (installed m a g now s) = n_config s" "n_ownership (installed m a g now s) = n_ownership s"
  "n_exit (installed m a g now s) = n_exit s" "n_epoch (installed m a g now s) = n_epoch s"
  "n_v4 (installed m a g now s) = n_v4 s" "n_v6 (installed m a g now s) = n_v6 s"
  "n_outbound (installed m a g now s) = (n_outbound s)(out_key m \<mapsto> n_next_id s)"
  "n_inbound (installed m a g now s) = (n_inbound s)(in_key m \<mapsto> n_next_id s)"
  "n_ports (installed m a g now s) = (n_ports s)(fam m := (n_ports s (fam m))(m_proto m := a))"
  "n_next_id (installed m a g now s) = Suc (n_next_id s)" "n_counters (installed m a g now s) = n_counters s"
  "n_rng (installed m a g now s) = g"
  "n_expiry (installed m a g now s) = insort (now + initial_timeout (n_config s) (m_proto m), n_next_id s) (n_expiry s)"
  "table (installed m a g now s) = (table s)(n_next_id s \<mapsto> strip m)"
  "count_of (installed m a g now s) key = count_of s key + (if key = (m_owner m, m_proto m) then 1 else 0)"
  by (simp_all add: installed_def Let_def table_insert count_of_def)

lemma inv_installed:
  assumes inv: "nat_inv s" and d: "draw_in_range d"
    and al: "alloc d (n_ports s (fam m) (m_proto m)) pref g0 = (a, g, Some (m_external_port m))"
    and m: "strip m = m" "\<not> m_pinned m" "m_remotes m = []" and out: "n_outbound s (out_key m) = None"
    and cap: "card (dyn s (m_owner m, m_proto m)) < peer_cap (n_config s) (m_proto m)"
  shows "nat_inv (installed m a g now s)"
proof -
  note I = nat_invD [OF inv] and P = ports_okD [OF nat_invD(5) [OF inv]]
  note give = pa.give_Some [OF P(1) d al] pa.give_fresh [OF P(1) d al]
  have in_: "n_inbound s (in_key m) = None"
    using free_port_unused [OF I(5,2)] give(1) by (simp add: keys_split)
  have tb: "table (installed m a g now s) = (table s)(n_next_id s \<mapsto> m)" using m(1) by simp
  have "ports_ok (installed m a g now s)"
    using give m(2) P(2) fresh_id [OF I(1)] by (intro ports_insert [OF I(5) tb]) auto
  moreover have "lru_ok (installed m a g now s)"
  proof -
    let ?t = "fst (insert_mapping m ((set_allocator (m_proto m) (fam m) a s)\<lparr>n_rng := g\<rparr>))"
    have "lru_ok (link_newest (n_next_id s) ?t)"
      by (rule lru_insert(2) [OF I(4,1) refl _ _ _ m(2)]) simp_all
    then show ?thesis
      using lru_same [of "installed m a g now s" "link_newest (n_next_id s) ?t"] by (simp add: installed_def Let_def)
  qed
  ultimately show ?thesis
    using in_ out m(2,3) cap by (intro inv_insert [OF inv tb]) simp_all
qed

lemma oldest_in_dyn:
  assumes "lru_ok s" and "oldest_of peer proto s = Some v"
  shows "v \<in> dyn s (peer, proto)"
proof -
  obtain L where L: "lists_ok s L" "\<And>key. set (L key) = dyn s key" using assms(1) by (auto simp: lru_ok_def)
  then have "first_of None (L (peer, proto)) = Some v" using assms(2) oldest_of_lists [OF L(1)] by simp
  then have "v \<in> set (L (peer, proto))" by (cases "L (peer, proto)") auto
  then show ?thesis using L(2) by simp
qed

lemma oldest_None:
  assumes "lru_ok s" and "oldest_of peer proto s = None"
  shows "dyn s (peer, proto) = {}"
proof -
  obtain L where L: "lists_ok s L" "\<And>key. set (L key) = dyn s key" using assms(1) by (auto simp: lru_ok_def)
  then have "first_of None (L (peer, proto)) = None" using assms(2) oldest_of_lists [OF L(1)] by simp
  then have "L (peer, proto) = []" by (cases "L (peer, proto)") auto
  then show ?thesis using L(2) [of "(peer, proto)"] by simp
qed

lemma evict_fields [simp]:
  "n_config (evict peer proto s) = n_config s" "n_ownership (evict peer proto s) = n_ownership s"
  "n_exit (evict peer proto s) = n_exit s" "n_epoch (evict peer proto s) = n_epoch s"
  "n_v4 (evict peer proto s) = n_v4 s" "n_v6 (evict peer proto s) = n_v6 s"
  "n_next_id (evict peer proto s) = n_next_id s" "n_counters (evict peer proto s) = n_counters s"
  "n_rng (evict peer proto s) = n_rng s" "n_expiry (evict peer proto s) = n_expiry s"
  by (simp_all add: evict_def remove_at_def split: option.split)

lemma evict_table:
  "table (evict peer proto s) i = (if at_cap peer proto s \<and> oldest_of peer proto s = Some i then None else table s i)"
  by (auto simp: evict_def remove_at_def split: option.split)

lemma inv_evict: "nat_inv s \<Longrightarrow> nat_inv (evict peer proto s)"
  by (simp add: evict_def remove_at_def inv_remove split: option.split)

lemma evict_room:
  assumes inv: "nat_inv s" and go: "\<not> (at_cap peer proto s \<and> oldest_of peer proto s = None)"
  shows "card (dyn (evict peer proto s) (peer, proto)) < peer_cap (n_config s) proto"
proof (cases "at_cap peer proto s")
  case True
  then obtain v where v: "oldest_of peer proto s = Some v" using go by auto
  note I = nat_invD [OF inv]
  have d: "v \<in> dyn s (peer, proto)" by (rule oldest_in_dyn [OF I(4) v])
  have "dyn (evict peer proto s) (peer, proto) = dyn s (peer, proto) - {v}"
    using True v by (simp add: evict_def remove_at_def)
  moreover have "card (dyn s (peer, proto)) \<le> peer_cap (n_config s) proto" using I(6) by (simp add: caps_ok_def)
  ultimately show ?thesis using card_Diff1_less [OF finite_dyn [OF I(1)] d] by simp
next
  case False
  then show ?thesis using nat_invD(3) [OF inv] by (simp add: evict_def at_cap_def counts_ok_def not_le)
qed

lemma evict_outbound:
  assumes "nat_inv s" and "n_outbound s k = None"
  shows "n_outbound (evict peer proto s) k = None"
proof (rule ccontr)
  assume "n_outbound (evict peer proto s) k \<noteq> None"
  then obtain i m where "table (evict peer proto s) i = Some m" "out_key m = k"
    using nat_invD(2) [OF inv_evict [OF assms(1)]] unfolding index_ok_def by (blast dest: inverse_of_found)
  moreover from this have "table s i = Some m" by (auto simp: evict_table split: if_splits)
  ultimately show False using nat_invD(2) [OF assms(1)] assms(2) unfolding index_ok_def by (metis inverse_of_lookup option.distinct(1))
qed

lemma create_cases:
  assumes inv: "nat_inv s" and d: "draw_in_range (w_draw w)" and out: "n_outbound s (proto, fst internal, snd internal) = None"
  obtains (cap) "create_mapping w peer proto internal now s = (s, Err PeerCap)" "at_cap peer proto s"
  | (full) a g where "create_mapping w peer proto internal now s =
        ((set_allocator proto (is_ipv6 (fst internal)) a (evict peer proto s))\<lparr>n_rng := g\<rparr>, Err PortExhausted)"
      "nat_inv ((set_allocator proto (is_ipv6 (fst internal)) a (evict peer proto s))\<lparr>n_rng := g\<rparr>)"
      "a = n_ports (evict peer proto s) (is_ipv6 (fst internal)) proto"
  | (made) a g p where "create_mapping w peer proto internal now s =
        (installed (fresh_mapping peer proto internal p now False) a g now (evict peer proto s), Ok (n_next_id s))"
      "nat_inv (installed (fresh_mapping peer proto internal p now False) a g now (evict peer proto s))"
      "\<not> (at_cap peer proto s \<and> (proto = Tcp \<or> oldest_of peer proto s = None))"
      "pa_space a = pa_space (n_ports (evict peer proto s) (is_ipv6 (fst internal)) proto)"
proof -
  let ?e = "evict peer proto s" and ?v6 = "is_ipv6 (fst internal)"
  note E = inv_evict [OF inv, of peer proto]
  note P = ports_okD [OF nat_invD(5) [OF E]]
  show thesis
  proof (cases "at_cap peer proto s \<and> (proto = Tcp \<or> oldest_of peer proto s = None)")
    case True
    then show thesis by (intro cap) (simp_all add: create_mapping_eq)
  next
    case False
    obtain a g port where al: "alloc (w_draw w) (n_ports ?e ?v6 proto) (Some (snd internal)) (n_rng ?e) = (a, g, port)"
      by (metis prod_cases3)
    show thesis
    proof (cases port)
      case None
      then have "a = n_ports ?e ?v6 proto" using pa.give_None [OF P(1) d] al by simp
      then have "nat_inv ((set_allocator proto ?v6 a ?e)\<lparr>n_rng := g\<rparr>)" by (intro inv_irrelevant [OF E]) simp_all
      then show thesis using False al None \<open>a = _\<close> by (rule_tac full) (simp_all add: create_mapping_eq Let_def)
    next
      case (Some p)
      have "nat_inv (installed (fresh_mapping peer proto internal p now False) a g now ?e)"
        using evict_room [OF inv] evict_outbound [OF inv out] False al Some
        by (intro inv_installed [OF E d]) (simp_all add: keys_split)
      moreover have "pa_space a = pa_space (n_ports ?e ?v6 proto)" using pa.give_Some [OF P(1) d al [unfolded Some]] by simp
      ultimately show thesis using False al Some by (rule_tac made [of p a g]) (simp_all add: create_mapping_eq Let_def)
    qed
  qed
qed

section \<open>Flows\<close>

lemma advance_key [simp]:
  "rf_addr (fst (advance flow proto flags up)) = rf_addr flow" "rf_port (fst (advance flow proto flags up)) = rf_port flow"
  "rf_last_seen (fst (advance flow proto flags up)) = rf_last_seen flow"
  by (simp_all add: advance_def Let_def split: map_proto.split)

lemma position_None: "position P xs = None \<longleftrightarrow> (\<forall>x\<in>set xs. \<not> P x)"
  by (induction xs) auto

lemma position_Some: "position P xs = Some i \<Longrightarrow> i < length xs \<and> P (xs ! i)"
  by (induction xs arbitrary: i) (auto split: if_splits)

lemma oldest_from_less: "best < i \<Longrightarrow> oldest_from i best t rs < i + length rs"
proof (induction rs arbitrary: i best t)
  case (Cons r rs)
  show ?case using Cons.IH [of i "Suc i" "rf_last_seen r"] Cons.IH [of best "Suc i" t] Cons.prems by auto
qed simp

lemma oldest_remote_less: "oldest_remote rs = Some at \<Longrightarrow> at < length rs"
  using oldest_from_less [of 0 1] by (cases rs) auto

lemma remote_index_key: "remote_index m addr port = position (\<lambda>r. remote_key r = (addr, port)) (m_remotes m)"
  by (simp add: remote_index_def remote_key_def)

lemma map_swap_remove: "i < length xs \<Longrightarrow> map f (swap_remove xs i) = swap_remove (map f xs) i"
  by (cases "xs = []") (simp_all add: swap_remove_def map_butlast map_update last_map)

lemma distinct_swap_remove:
  assumes "i < length xs" and "distinct (map f xs)"
  shows "distinct (map f (swap_remove xs i))" "f ` set (swap_remove xs i) \<subseteq> f ` set xs"
proof -
  have "i < length (map f xs)" using assms(1) by simp
  note d = swap_remove_distinct [OF assms(2) this]
  show "distinct (map f (swap_remove xs i))" using d(1) assms(1) by (simp add: map_swap_remove)
  show "f ` set (swap_remove xs i) \<subseteq> f ` set xs"
    using d(2) map_swap_remove [OF assms(1), of f] by (metis Diff_subset list.set_map)
qed

text \<open>What a touched mapping keeps: everything but its remotes and the time it was last seen.\<close>

definition flows_fit :: "nat \<Rightarrow> remote_flow list \<Rightarrow> bool" where
  "flows_fit cap rs \<longleftrightarrow> distinct (map remote_key rs) \<and> length rs \<le> max 1 cap"

lemma seen_remote_eq:
  assumes "seen_remote at flags up now m = (m', closed)"
  shows "\<exists>rs. m' = m\<lparr>m_remotes := rs\<rparr> \<and> map remote_key rs = map remote_key (m_remotes m)"
proof (cases "nth_get (m_remotes m) at")
  case None
  then have "m' = m" using assms by (simp add: seen_remote_def)
  then show ?thesis by (intro exI [of _ "m_remotes m"]) simp
next
  case (Some flow)
  then have at: "at < length (m_remotes m)" "flow = m_remotes m ! at" by (auto simp: nth_get_def split: if_splits)
  obtain fl cl where adv: "advance (flow\<lparr>rf_last_seen := now\<rparr>) (m_proto m) flags up = (fl, cl)" by (metis prod.exhaust)
  then have "remote_key fl = remote_key flow"
    using advance_key(1,2) [of "flow\<lparr>rf_last_seen := now\<rparr>" "m_proto m" flags up, unfolded adv] by (simp add: remote_key_def)
  then have "map remote_key ((m_remotes m)[at := fl]) = map remote_key (m_remotes m)"
    using at by (simp add: map_update list_update_same_conv)
  then show ?thesis using assms adv Some by (auto simp: seen_remote_def)
qed

lemma new_remote_eq:
  assumes n: "new_remote cap addr port flags up now m = (m', closed)" and no: "remote_index m addr port = None"
    and fit: "flows_fit cap (m_remotes m)"
  shows "\<exists>rs. m' = m\<lparr>m_remotes := rs\<rparr> \<and> flows_fit cap rs"
proof -
  let ?rs = "m_remotes m"
  define kept where "kept = (if cap \<le> length ?rs then (case oldest_remote ?rs of None \<Rightarrow> ?rs | Some at \<Rightarrow> swap_remove ?rs at) else ?rs)"
  define f0 where "f0 = \<lparr>rf_addr = addr, rf_port = port, rf_state = initial_state (m_proto m), rf_fin_up = False,
    rf_fin_down = False, rf_last_seen = now\<rparr>"
  obtain fl cl where adv: "advance f0 (m_proto m) flags up = (fl, cl)" by (metis prod.exhaust)
  have key: "remote_key fl = (addr, port)"
    using advance_key(1,2) [of f0 "m_proto m" flags up, unfolded adv] by (simp add: remote_key_def f0_def)
  have m': "m' = m\<lparr>m_remotes := kept @ [fl]\<rparr>"
    using n adv unfolding new_remote_def Let_def kept_def f0_def by (auto split: option.splits if_splits)
  have kept: "distinct (map remote_key kept) \<and> remote_key ` set kept \<subseteq> remote_key ` set ?rs \<and> length kept < max 1 cap"
  proof (cases "cap \<le> length ?rs \<and> ?rs \<noteq> []")
    case True
    then obtain at where at: "oldest_remote ?rs = Some at" by (cases ?rs) auto
    note less = oldest_remote_less [OF at]
    have "length ?rs \<le> max 1 cap" "0 < length ?rs" using fit True by (auto simp: flows_fit_def)
    then have "length (swap_remove ?rs at) < max 1 cap" using less by simp
    then show ?thesis using True at fit distinct_swap_remove [OF less, of remote_key] by (simp add: kept_def flows_fit_def)
  next
    case False
    then have "kept = ?rs" by (cases ?rs) (auto simp: kept_def)
    then show ?thesis using False fit by (cases "?rs = []") (auto simp: flows_fit_def)
  qed
  have "(addr, port) \<notin> remote_key ` set ?rs" using no by (auto simp: remote_index_key position_None)
  then have "flows_fit cap (kept @ [fl])" using kept key by (auto simp: flows_fit_def)
  then show ?thesis using m' by blast
qed

end
