(* ===== verification/Napt_Steps.thy ===== *)
theory Napt_Steps
  imports Napt_Table
begin

text \<open>
  The operations of the translator as steps of a machine: each one preserves the table invariant,
  so every reachable state has it, and each one's effect on the table is stated without the
  pointers of the recency lists.
\<close>

section \<open>Touching a mapping\<close>

lemma inv_only_lists:
  assumes "nat_inv s" and "only_lists s t" and "lru_ok t"
  shows "nat_inv t"
proof -
  note f = only_lists_fields [OF assms(2)]
  have d: "dyn t = dyn s" using dyn_only [OF assms(2)] by (simp add: fun_eq_iff)
  have "nat_inv s \<longleftrightarrow> ids_ok t \<and> index_ok t \<and> counts_ok t \<and> lru_ok s \<and> ports_ok t \<and> caps_ok t \<and> flows_ok t"
    unfolding nat_inv_def ids_ok_def index_ok_def counts_ok_def count_of_def ports_ok_def used_ports_def caps_ok_def
      flows_ok_def d f ..
  then show ?thesis using assms(1,3) by (simp add: nat_inv_def)
qed

lemma inv_touch_recency:
  assumes "nat_inv s"
  shows "nat_inv (touch_recency i s)"
proof (cases "\<exists>key. i \<in> dyn s key")
  case True
  then obtain key where i: "i \<in> dyn s key" by blast
  obtain L where L: "lists_ok s L" "\<And>key. set (L key) = dyn s key"
    using nat_invD(4) [OF assms] by (auto simp: lru_ok_def)
  have "lists_ok (touch_recency i s) (L(key := remove1 i (L key) @ [i]))"
    using i L(2) by (intro touch_lists [OF L(1)]) simp
  moreover have "set ((L(key := remove1 i (L key) @ [i])) k) = dyn (touch_recency i s) k" for k
    using L(2) [of k] i lists_okD(1) [OF L(1), of key] dyn_only [OF touch_recency_only, of i s k]
    by (cases "k = key") (auto simp: set_remove1_eq)
  ultimately have "lru_ok (touch_recency i s)" unfolding lru_ok_def by blast
  then show ?thesis by (rule inv_only_lists [OF assms touch_recency_only])
next
  case False
  have "touch_recency i s = s"
  proof (cases "n_mappings s i")
    case (Some m)
    then have "i \<in> dyn s (m_owner m, m_proto m)" if "\<not> m_pinned m" using that by (simp add: dyn_def table_Some)
    then have "m_pinned m" using False by blast
    then show ?thesis using Some by (simp add: touch_recency_def)
  qed (simp add: touch_recency_def)
  then show ?thesis using assms by simp
qed

lemma ex_updated:
  assumes "tb i = Some m" and "P m' \<longleftrightarrow> P m"
  shows "(\<exists>j n. (tb(i \<mapsto> m')) j = Some n \<and> P n) \<longleftrightarrow> (\<exists>j n. tb j = Some n \<and> P n)" (is "?l = ?r")
proof
  assume ?l
  then show ?r using assms by (auto split: if_splits)
next
  assume ?r
  then obtain j n where "tb j = Some n" "P n" by blast
  then show ?l using assms by (cases "j = i") auto
qed

text \<open>Storing a mapping that differs in its flows alone.\<close>

lemma inv_reflow:
  assumes inv: "nat_inv s" and m: "n_mappings s i = Some m" and m': "m' = m\<lparr>m_remotes := rs, m_last_seen := t\<rparr>"
    and fit: "flows_fit (nc_remotes_per_mapping (n_config s)) rs"
  defines "s' \<equiv> s\<lparr>n_mappings := (n_mappings s)(i \<mapsto> m')\<rparr>"
  shows "nat_inv s'" and "table s' = (table s)(i \<mapsto> strip m')"
proof -
  note I = nat_invD [OF inv]
  have ti: "table s i = Some (strip m)" by (rule table_Some [OF m])
  show tb: "table s' = (table s)(i \<mapsto> strip m')" by (auto simp: s'_def table_def fun_eq_iff)
  have same: "m_owner m' = m_owner m" "m_proto m' = m_proto m" "m_pinned m' = m_pinned m" "fam m' = fam m"
      "m_external_port m' = m_external_port m" "out_key m' = out_key m" "in_key m' = in_key m"
    by (simp_all add: m' fam_def keys_split)
  have d: "dyn s' key = dyn s key" for key using ti same by (auto simp: dyn_def tb)
  have u: "used_ports s' v6 proto = used_ports s v6 proto" for v6 proto
    unfolding used_ports_def tb using same ti
    by (intro Collect_cong ex_updated [where m = "strip m" and P = "\<lambda>n. \<not> m_pinned n \<and> fam n = v6 \<and> m_proto n = proto \<and> m_external_port n = p" for p]) auto
  obtain L where L: "lists_ok s L" "\<And>key. set (L key) = dyn s key" using I(4) by (auto simp: lru_ok_def)
  have "older_of s' x = older_of s x" "newer_of s' x = newer_of s x" for x
    using m by (auto simp: s'_def older_of_def newer_of_def m')
  then have "lists_ok s' L" using L(2) d by (intro lists_ok_cong [OF L(1)]) (auto simp: s'_def)
  then have "lru_ok s'" using L(2) d unfolding lru_ok_def by auto
  moreover have "ids_ok s'" using I(1) ti unfolding ids_ok_def tb by (auto simp: s'_def)
  moreover have "index_ok s'" using I(2) same ti unfolding index_ok_def tb
    by (auto simp: s'_def intro!: inverse_of_update)
  moreover have "counts_ok s'" using I(3) by (simp add: counts_ok_def d) (simp add: count_of_def s'_def)
  moreover have "ports_ok s'"
    using I(5) ports_okD(3) [OF I(5) ti] same unfolding ports_ok_def u tb by (simp add: s'_def)
  moreover have "caps_ok s'" using I(6) by (simp add: caps_ok_def d) (simp add: s'_def)
  moreover have "flows_ok s'" using I(7) fit unfolding flows_ok_def tb by (auto simp: s'_def m' flows_fit_def)
  ultimately show "nat_inv s'" by (simp add: nat_inv_def)
qed


lemma inv_push [simp]: "nat_inv (push_expiry e s) \<longleftrightarrow> nat_inv s"
proof
  assume "nat_inv (push_expiry e s)"
  then show "nat_inv s" by (rule inv_irrelevant) (simp_all add: push_expiry_def)
next
  assume "nat_inv s"
  then show "nat_inv (push_expiry e s)" by (rule inv_irrelevant) (simp_all add: push_expiry_def)
qed

lemma inv_store:
  assumes "nat_inv s" and "n_mappings s i = Some m" and "m' = m\<lparr>m_remotes := rs, m_last_seen := t\<rparr>"
    and "flows_fit (nc_remotes_per_mapping (n_config s)) rs"
  shows "nat_inv (store_touched i m' closed now s)"
    and "table (store_touched i m' closed now s) = (table s)(i \<mapsto> strip m')"
  using inv_reflow [OF assms] by (simp_all add: store_touched_def Let_def inv_touch_recency)

text \<open>Everything of a state that is neither a mapping nor an index of mappings.\<close>

definition env_of ::
  "'g napt \<Rightarrow> nat_config \<times> ownership \<times> exit_id option \<times> epoch_id option \<times> u32 option \<times> u128 option \<times> counters" where
  "env_of s = (n_config s, n_ownership s, n_exit s, n_epoch s, n_v4 s, n_v6 s, n_counters s)"

lemma env_ofD:
  assumes "env_of t = env_of s"
  shows "n_config t = n_config s" "n_ownership t = n_ownership s" "n_exit t = n_exit s" "n_epoch t = n_epoch s"
    "n_v4 t = n_v4 s" "n_v6 t = n_v6 s" "n_counters t = n_counters s"
  using assms by (simp_all add: env_of_def)

lemma env_of_keeps [simp]:
  "env_of (s\<lparr>n_rng := g\<rparr>) = env_of s" "env_of (set_allocator proto v6 a s) = env_of s"
  "env_of (installed m a g now s) = env_of s" "env_of (evict peer proto s) = env_of s"
  "env_of (remove_mapping i s) = env_of s" "env_of (push_expiry e s) = env_of s"
  "env_of (fst (insert_mapping m s)) = env_of s" "env_of (remove_at at s) = env_of s"
  by (simp_all add: env_of_def set_allocator_def remove_at_def split: option.split)

lemma env_of_removes [simp]: "env_of (fold remove_mapping is s) = env_of s"
  by (induction "is" arbitrary: s) simp_all

lemma store_fields [simp]:
  "env_of (store_touched i m closed now s) = env_of s"
  "n_outbound (store_touched i m closed now s) = n_outbound s" "n_inbound (store_touched i m closed now s) = n_inbound s"
  "n_ports (store_touched i m closed now s) = n_ports s"
  by (simp_all add: store_touched_def Let_def env_of_def)

text \<open>
  What a packet in either direction does to a mapping: its flows and its time change, and the
  remote end of the packet is one of its flows.
\<close>

definition touched :: "mapping_id \<Rightarrow> ip_addr \<times> u16 \<Rightarrow> instant \<Rightarrow> 'g napt \<Rightarrow> 'g napt \<Rightarrow> bool" where
  "touched i k now s t \<longleftrightarrow>
     (\<exists>m rs. table s i = Some m \<and> table t = (table s)(i \<mapsto> m\<lparr>m_remotes := rs, m_last_seen := now\<rparr>) \<and>
        k \<in> remote_key ` set rs \<and> (\<forall>r\<in>set rs. r \<in> set (m_remotes m) \<or> rf_last_seen r = now)) \<and>
     (n_expiry t = n_expiry s \<or> (\<exists>e. n_expiry t = insort e (n_expiry s))) \<and>
     env_of t = env_of s \<and> n_outbound t = n_outbound s \<and> n_inbound t = n_inbound s \<and> n_ports t = n_ports s"

lemma touched_store:
  assumes "nat_inv s" and "n_mappings s i = Some m" and "m' = m\<lparr>m_remotes := rs, m_last_seen := now\<rparr>"
    and "flows_fit (nc_remotes_per_mapping (n_config s)) rs" and "k \<in> remote_key ` set rs"
    and "\<forall>r\<in>set rs. r \<in> set (m_remotes m) \<or> rf_last_seen r = now"
  shows "nat_inv (store_touched i m' closed now s) \<and> touched i k now s (store_touched i m' closed now s)"
proof -
  have "strip m' = (strip m)\<lparr>m_remotes := rs, m_last_seen := now\<rparr>" by (simp add: assms(3) strip_def)
  moreover have "n_expiry (store_touched i m' closed now s) = n_expiry s \<or>
      (\<exists>e. n_expiry (store_touched i m' closed now s) = insort e (n_expiry s))"
    by (auto simp: store_touched_def Let_def)
  ultimately show ?thesis using inv_store [OF assms(1-4)] table_Some [OF assms(2)] assms(5,6) by (auto simp: touched_def)
qed

lemma flows_fit_of:
  assumes "nat_inv s" and "n_mappings s i = Some m"
  shows "flows_fit (nc_remotes_per_mapping (n_config s)) (m_remotes m)"
  using nat_invD(7) [OF assms(1)] table_Some [OF assms(2)] by (fastforce simp: flows_ok_def flows_fit_def)

lemma remote_index_mem: "remote_index m addr port \<noteq> None \<longleftrightarrow> (addr, port) \<in> remote_key ` set (m_remotes m)"
  unfolding remote_index_key position_None image_iff by metis

lemma new_remote_key:
  assumes "new_remote cap addr port flags up now m = (m', closed)"
  shows "(addr, port) \<in> remote_key ` set (m_remotes m')"
  using assms unfolding new_remote_def Let_def case_prod_beta by (auto simp: remote_key_def)

lemma set_swap_remove: "set (swap_remove xs i) \<subseteq> set xs"
proof (cases "xs = []")
  case False
  have "set (swap_remove xs i) \<subseteq> insert (last xs) (set xs)"
    unfolding swap_remove_def using set_update_subset_insert [of xs i "last xs"] by (auto dest: in_set_butlastD)
  then show ?thesis using False by (simp add: insert_absorb)
qed (simp add: swap_remove_def)

lemma flow_times:
  "m_remotes (fst (seen_remote at flags up now m)) = m_remotes m \<or>
     (\<exists>r. rf_last_seen r = now \<and> m_remotes (fst (seen_remote at flags up now m)) = (m_remotes m)[at := r])"
  "\<exists>r. rf_last_seen r = now \<and> set (m_remotes (fst (new_remote cap addr port flags up now m))) \<subseteq> insert r (set (m_remotes m))"
proof -
  show "m_remotes (fst (seen_remote at flags up now m)) = m_remotes m \<or>
     (\<exists>r. rf_last_seen r = now \<and> m_remotes (fst (seen_remote at flags up now m)) = (m_remotes m)[at := r])"
    by (auto simp: seen_remote_def case_prod_beta intro!: exI [of _ "fst (advance _ _ _ _)"] split: option.split)
  let ?f = "fst (advance \<lparr>rf_addr = addr, rf_port = port, rf_state = initial_state (m_proto m), rf_fin_up = False,
             rf_fin_down = False, rf_last_seen = now\<rparr> (m_proto m) flags up)"
  show "\<exists>r. rf_last_seen r = now \<and> set (m_remotes (fst (new_remote cap addr port flags up now m))) \<subseteq> insert r (set (m_remotes m))"
    by (intro exI [of _ ?f]) (auto simp: new_remote_def Let_def case_prod_beta dest: set_swap_remove [THEN subsetD] split: option.split)
qed

lemma flow_after:
  assumes fit: "flows_fit cap (m_remotes m)"
    and r: "(case remote_index m addr port of Some at \<Rightarrow> seen_remote at flags up now m
             | None \<Rightarrow> new_remote cap addr port flags up now m) = (m', closed)"
  shows "\<exists>rs. m' = m\<lparr>m_remotes := rs\<rparr> \<and> flows_fit cap rs \<and> (addr, port) \<in> remote_key ` set rs \<and>
    (\<forall>r\<in>set rs. r \<in> set (m_remotes m) \<or> rf_last_seen r = now)"
proof (cases "remote_index m addr port")
  case None
  then have n: "new_remote cap addr port flags up now m = (m', closed)" using r by simp
  then have "\<forall>r\<in>set (m_remotes m'). r \<in> set (m_remotes m) \<or> rf_last_seen r = now"
    using flow_times(2) [of now cap addr port flags up m] by auto
  moreover obtain rs where "m' = m\<lparr>m_remotes := rs\<rparr>" "flows_fit cap rs" using new_remote_eq [OF n None fit] by blast
  ultimately show ?thesis using new_remote_key [OF n] by (intro exI [of _ rs]) simp
next
  case (Some at)
  then obtain rs where "m' = m\<lparr>m_remotes := rs\<rparr>" and rs: "map remote_key rs = map remote_key (m_remotes m)"
    using r seen_remote_eq [of at flags up now m m' closed] by auto
  moreover have "remote_key ` set rs = remote_key ` set (m_remotes m)" "length rs = length (m_remotes m)"
    using arg_cong [OF rs, of set] arg_cong [OF rs, of length] by simp_all
  moreover have "\<forall>r\<in>set (m_remotes m'). r \<in> set (m_remotes m) \<or> rf_last_seen r = now"
    using flow_times(1) [of at flags up now m] r Some by (auto dest: set_update_subset_insert [THEN subsetD])
  ultimately show ?thesis using fit rs Some remote_index_mem [of m addr port] unfolding flows_fit_def by auto
qed

lemma touch_uplink_touched:
  assumes inv: "nat_inv s" and m: "n_mappings s i = Some m"
  shows "nat_inv (touch_uplink i addr port flags now s) \<and> touched i (addr, port) now s (touch_uplink i addr port flags now s)"
proof -
  let ?m = "m\<lparr>m_last_seen := now\<rparr>" and ?cap = "nc_remotes_per_mapping (n_config s)"
  obtain m' closed where r: "(case remote_index ?m addr port of Some at \<Rightarrow> seen_remote at flags True now ?m
      | None \<Rightarrow> new_remote ?cap addr port flags True now ?m) = (m', closed)" by (metis prod.exhaust)
  have "flows_fit ?cap (m_remotes ?m)" using flows_fit_of [OF inv m] by simp
  from flow_after [OF this r] obtain rs where "m' = ?m\<lparr>m_remotes := rs\<rparr>" and rs: "flows_fit ?cap rs"
      "(addr, port) \<in> remote_key ` set rs" "\<forall>r\<in>set rs. r \<in> set (m_remotes m) \<or> rf_last_seen r = now" by auto
  then have "m' = m\<lparr>m_remotes := rs, m_last_seen := now\<rparr>" by simp
  from touched_store [OF inv m this rs] show ?thesis using m r by (simp add: touch_uplink_def)
qed

lemma accept_downlink_cases:
  assumes inv: "nat_inv s" and m: "n_mappings s i = Some m"
  obtains (refused) "accept_downlink i addr port flags now s = (s, Err NoMapping)"
      "\<not> m_pinned m" "(addr, port) \<notin> remote_key ` set (m_remotes m)"
  | (accepted) t where "accept_downlink i addr port flags now s = (t, Ok (m_internal m))"
      "m_pinned m \<or> (addr, port) \<in> remote_key ` set (m_remotes m)" "nat_inv t" "touched i (addr, port) now s t"
proof -
  let ?cap = "nc_remotes_per_mapping (n_config s)"
  obtain m' closed where r: "(case remote_index m addr port of Some at \<Rightarrow> seen_remote at flags False now m
      | None \<Rightarrow> new_remote ?cap addr port flags False now m) = (m', closed)" by (metis prod.exhaust)
  from flow_after [OF flows_fit_of [OF inv m] r] obtain rs
    where "m'\<lparr>m_last_seen := now\<rparr> = m\<lparr>m_remotes := rs, m_last_seen := now\<rparr>" "flows_fit ?cap rs"
      "(addr, port) \<in> remote_key ` set rs" "\<forall>r\<in>set rs. r \<in> set (m_remotes m) \<or> rf_last_seen r = now" by auto
  note stored = touched_store [OF inv m this, of closed]
  show thesis
  proof (cases "m_pinned m \<or> remote_index m addr port \<noteq> None")
    case True
    then have "accept_downlink i addr port flags now s =
        (store_touched i (m'\<lparr>m_last_seen := now\<rparr>) closed now s, Ok (m_internal m))"
      using m r by (auto simp: accept_downlink_def split: option.splits)
    then show thesis using stored True remote_index_mem by (intro accepted) auto
  next
    case False
    then show thesis using m remote_index_mem [of m addr port] by (intro refused) (auto simp: accept_downlink_def)
  qed
qed

section \<open>Port spaces\<close>

definition spaces :: "'g napt \<Rightarrow> bool \<Rightarrow> map_proto \<Rightarrow> u16 set" where
  "spaces s v6 proto = pa_space (n_ports s v6 proto)"

definition pins :: "'g napt \<Rightarrow> bool \<Rightarrow> map_proto \<Rightarrow> u16 set" where
  "pins s v6 proto = pa_pinned (n_ports s v6 proto)"

lemma spaces_pins_cong: "n_ports t = n_ports s \<Longrightarrow> spaces t = spaces s \<and> pins t = pins s"
  by (simp add: spaces_def pins_def fun_eq_iff)

lemma remove_pins:
  assumes "nat_inv s"
  shows "spaces (remove_mapping i s) = spaces s" and "pins (remove_mapping i s) = pins s"
proof -
  have P: "pa_inv (n_ports s v6 proto)" for v6 proto using ports_okD(1) [OF nat_invD(5) [OF assms]] .
  have "spaces (remove_mapping i s) = spaces s \<and> pins (remove_mapping i s) = pins s"
  proof (cases "table s i")
    case (Some m)
    then show ?thesis using pa.back_held_iff(2,4) [OF P] by (auto simp: remove_mapping_eq [OF Some] Let_def spaces_def pins_def fun_eq_iff)
  qed (simp add: remove_mapping_None)
  then show "spaces (remove_mapping i s) = spaces s" "pins (remove_mapping i s) = pins s" by simp_all
qed

lemma removes_pins: "nat_inv s \<Longrightarrow> spaces (fold remove_mapping is s) = spaces s \<and> pins (fold remove_mapping is s) = pins s"
  by (induction "is" arbitrary: s) (simp_all add: inv_remove remove_pins)

lemma inv_remove_at:
  assumes "nat_inv s"
  shows "nat_inv (remove_at at s)" "spaces (remove_at at s) = spaces s" "pins (remove_at at s) = pins s"
  using assms by (simp_all add: remove_at_def inv_remove remove_pins split: option.split)

lemma spaces_evict: "nat_inv s \<Longrightarrow> spaces (evict peer proto s) = spaces s"
  by (simp add: evict_def inv_remove_at)

section \<open>Finding or making the mapping of an uplink packet\<close>

text \<open>A change of the table that no other peer can see.\<close>

definition only_peer :: "peer_id \<Rightarrow> 'g napt \<Rightarrow> 'g napt \<Rightarrow> bool" where
  "only_peer peer s t \<longleftrightarrow> (\<forall>i m. m_owner m \<noteq> peer \<longrightarrow> (table s i = Some m \<longleftrightarrow> table t i = Some m))"

lemma only_peer_refl [simp]: "only_peer peer s s"
  by (simp add: only_peer_def)

lemma only_peer_trans: "only_peer peer s t \<Longrightarrow> only_peer peer t u \<Longrightarrow> only_peer peer s u"
  by (simp add: only_peer_def)

lemma only_peer_evict:
  assumes "nat_inv s"
  shows "only_peer peer s (evict peer proto s)"
  using oldest_in_dyn [OF nat_invD(4) [OF assms], of peer proto]
  by (auto simp: only_peer_def evict_table dyn_def)

lemma only_peer_touched:
  assumes "touched i k now s t" and "table s i = Some m" and "m_owner m = peer"
  shows "only_peer peer s t"
  using assms by (auto simp: touched_def only_peer_def split: if_splits)

definition found_for :: "peer_id \<Rightarrow> map_proto \<Rightarrow> socket_addr \<Rightarrow> 'g napt \<Rightarrow> mapping_id \<Rightarrow> bool" where
  "found_for peer proto internal s i \<longleftrightarrow>
     (\<exists>m. table s i = Some m \<and> m_owner m = peer \<and> m_proto m = proto \<and> m_internal m = internal)"

lemma outbound_found:
  assumes "nat_inv s" and "n_outbound s (proto, addr, port) = Some i"
  obtains m where "n_mappings s i = Some m" "m_proto m = proto" "m_internal m = (addr, port)"
proof -
  have "inverse_of (n_outbound s) out_key (table s)" using nat_invD(2) [OF assms(1)] by (simp add: index_ok_def)
  from inverse_of_found [OF this assms(2)] obtain m where "table s i = Some m" "out_key m = (proto, addr, port)" by blast
  then show thesis using that by (auto simp: keys_split elim!: table_SomeE)
qed

lemma inbound_found:
  assumes "nat_inv s" and "n_inbound s (proto, v6, port) = Some i"
  obtains m where "n_mappings s i = Some m" "m_proto m = proto" "fam m = v6" "m_external_port m = port"
proof -
  have "inverse_of (n_inbound s) in_key (table s)" using nat_invD(2) [OF assms(1)] by (simp add: index_ok_def)
  from inverse_of_found [OF this assms(2)] obtain m where "table s i = Some m" "in_key m = (proto, v6, port)" by blast
  then show thesis using that by (auto simp: keys_split elim!: table_SomeE)
qed

lemma mapping_for_uplink_ok:
  assumes inv: "nat_inv s" and d: "draw_in_range (w_draw w)"
    and r: "mapping_for_uplink w peer proto internal now s = (t, r)"
  shows "nat_inv t \<and> env_of t = env_of s \<and> spaces t = spaces s \<and> only_peer peer s t \<and> r \<noteq> Panic \<and>
    (\<forall>i. r = Ok i \<longrightarrow> found_for peer proto internal t i)"
proof (cases "n_outbound s (proto, fst internal, snd internal)")
  case None
  have c: "create_mapping w peer proto internal now s = (t, r)" using r None by (simp add: mapping_for_uplink_def)
  show ?thesis
  proof (rule create_cases [OF inv d None, of peer now])
    fix a g p
    let ?m = "fresh_mapping peer proto internal p now False" and ?e = "evict peer proto s"
    assume "create_mapping w peer proto internal now s = (installed ?m a g now ?e, Ok (n_next_id s))"
      and i: "nat_inv (installed ?m a g now ?e)" and a: "pa_space a = pa_space (n_ports ?e (is_ipv6 (fst internal)) proto)"
    then have tr: "t = installed ?m a g now ?e" "r = Ok (n_next_id s)" using c by simp_all
    have "only_peer peer ?e t" using fresh_id [OF nat_invD(1) [OF inv_evict [OF inv, of peer proto]]]
      by (auto simp: tr only_peer_def)
    then have "only_peer peer s t" by (rule only_peer_trans [OF only_peer_evict [OF inv]])
    moreover have "spaces t = spaces ?e" using a by (auto simp: tr spaces_def fun_eq_iff fam_def)
    ultimately show ?thesis using i spaces_evict [OF inv] by (simp add: tr found_for_def)
  next
    fix a g
    let ?e = "evict peer proto s"
    assume f: "create_mapping w peer proto internal now s = ((set_allocator proto (is_ipv6 (fst internal)) a ?e)\<lparr>n_rng := g\<rparr>, Err PortExhausted)"
      "nat_inv ((set_allocator proto (is_ipv6 (fst internal)) a ?e)\<lparr>n_rng := g\<rparr>)" "a = n_ports ?e (is_ipv6 (fst internal)) proto"
    then have "spaces t = spaces ?e" using c by (auto simp: spaces_def fun_eq_iff)
    then show ?thesis using c f spaces_evict [OF inv, of peer proto] only_peer_evict [OF inv, of peer proto]
      by (auto simp: only_peer_def)
  qed (use c inv in simp)
next
  case (Some i)
  then obtain m where "n_mappings s i = Some m" "m_proto m = proto" "m_internal m = internal"
    using outbound_found [OF inv Some] by auto
  then show ?thesis using r Some inv by (auto simp: mapping_for_uplink_def found_for_def table_Some split: if_splits)
qed

section \<open>Management\<close>

lemma inv_set_allocator:
  assumes inv: "nat_inv s" and a: "pa_inv a" "pa.held a = pa.held (n_ports s v6 proto)"
      "pa_space a = pa_space (n_ports s v6 proto)"
    and pin: "\<And>i m. table s i = Some m \<Longrightarrow> m_pinned m \<Longrightarrow> fam m = v6 \<Longrightarrow> m_proto m = proto \<Longrightarrow>
      m_external_port m \<in> pa_pinned (n_ports s v6 proto) \<Longrightarrow> m_external_port m \<in> pa_pinned a"
  shows "nat_inv (set_allocator proto v6 a s)" and "spaces (set_allocator proto v6 a s) = spaces s"
proof -
  let ?t = "set_allocator proto v6 a s"
  note P = ports_okD [OF nat_invD(5) [OF inv]]
  have u: "used_ports ?t b q = used_ports s b q" for b q by (simp add: used_ports_def)
  have "ports_ok ?t"
    unfolding ports_ok_def u
  proof (intro allI conjI impI)
    fix b q
    show "pa_inv (n_ports ?t b q)" "pa.held (n_ports ?t b q) = used_ports s b q"
      using P(1,2) a by (auto simp: set_allocator_def)
    fix i m assume m: "table ?t i = Some m" "m_pinned m" "fam m = b" "m_proto m = q" "m_external_port m \<in> pa_space (n_ports ?t b q)"
    then have tm: "table s i = Some m" by simp
    have "m_external_port m \<in> pa_space (n_ports s b q)" using m(5) a(3) by (auto simp: set_allocator_def split: if_splits)
    then have "m_external_port m \<in> pa_pinned (n_ports s b q)" using P(3) [OF tm m(2)] m(3,4) by simp
    then show "m_external_port m \<in> pa_pinned (n_ports ?t b q)" using pin [OF tm m(2)] m(3,4) by (auto simp: set_allocator_def)
  qed
  moreover have "lists_ok ?t L = lists_ok s L" "dyn ?t = dyn s" for L
    using same_mappings_lists(1,2) [of ?t s] by (simp_all add: set_allocator_def)
  ultimately show "nat_inv ?t" using inv
    unfolding nat_inv_def ids_ok_def index_ok_def counts_ok_def count_of_def lru_ok_def caps_ok_def flows_ok_def
    by (simp add: set_allocator_def)
  show "spaces ?t = spaces s" using a(3) by (auto simp: spaces_def set_allocator_def fun_eq_iff)
qed

lemma shrinks_index:
  assumes "nat_inv s" and "nat_inv t" and "\<And>i m. table t i = Some m \<Longrightarrow> table s i = Some m"
  shows "n_outbound s k = None \<Longrightarrow> n_outbound t k = None" and "n_inbound s k' = None \<Longrightarrow> n_inbound t k' = None"
proof -
  have S: "inverse_of (n_outbound s) out_key (table s)" "inverse_of (n_inbound s) in_key (table s)"
    using nat_invD(2) [OF assms(1)] by (simp_all add: index_ok_def)
  have T: "inverse_of (n_outbound t) out_key (table t)" "inverse_of (n_inbound t) in_key (table t)"
    using nat_invD(2) [OF assms(2)] by (simp_all add: index_ok_def)
  show "n_outbound t k = None" if "n_outbound s k = None"
    using that assms(3) inverse_of_found [OF T(1), of k] inverse_of_lookup [OF S(1)] by (cases "n_outbound t k") fastforce+
  show "n_inbound t k' = None" if "n_inbound s k' = None"
    using that assms(3) inverse_of_found [OF T(2), of k'] inverse_of_lookup [OF S(2)] by (cases "n_inbound t k'") fastforce+
qed

lemma removed_index:
  assumes "nat_inv s"
  shows "n_outbound (remove_at (n_outbound s k) s) k = None" and "n_inbound (remove_at (n_inbound s k') s) k' = None"
proof -
  have S: "inverse_of (n_outbound s) out_key (table s)" "inverse_of (n_inbound s) in_key (table s)"
    using nat_invD(2) [OF assms] by (simp_all add: index_ok_def)
  have "n_outbound (remove_mapping i s) k = None" if "n_outbound s k = Some i" for i
    using inverse_of_found [OF S(1) that] by (auto simp: remove_mapping_eq Let_def)
  then show "n_outbound (remove_at (n_outbound s k) s) k = None" by (simp add: remove_at_def split: option.split)
  have "n_inbound (remove_mapping i s) k' = None" if "n_inbound s k' = Some i" for i
    using inverse_of_found [OF S(2) that] by (auto simp: remove_mapping_eq Let_def)
  then show "n_inbound (remove_at (n_inbound s k') s) k' = None" by (simp add: remove_at_def split: option.split)
qed

lemma inv_pinned:
  assumes inv: "nat_inv s" and m: "m_pinned m" "strip m = m" "m_remotes m = []"
    and out: "n_outbound s (out_key m) = None" and in_: "n_inbound s (in_key m) = None"
    and pin: "m_external_port m \<in> spaces s (fam m) (m_proto m) \<Longrightarrow> m_external_port m \<in> pins s (fam m) (m_proto m)"
  shows "nat_inv (fst (insert_mapping m s))"
proof -
  let ?t = "fst (insert_mapping m s)"
  note I = nat_invD [OF inv] and P = ports_okD [OF nat_invD(5) [OF inv]]
  have tb: "table ?t = (table s)(n_next_id s \<mapsto> m)" using m(2) by (simp add: table_insert)
  have "ports_ok ?t" using P(1,2) m(1) pin fresh_id [OF I(1)]
    by (intro ports_insert [OF I(5) tb]) (auto simp: spaces_def pins_def)
  moreover have "lru_ok ?t" by (rule lru_insert(1) [OF I(4,1) refl _ _ _ m(1)]) simp_all
  ultimately show ?thesis using m out in_
    by (intro inv_insert [OF inv tb]) (auto simp: insert_mapping_eq count_of_def)
qed

lemma reservation_cases:
  assumes "pa_inv a"
  obtains (refused) e where "(if contains a p then reserve a p else Ok a) = Err (e, a)"
  | (made) a' where "(if contains a p then reserve a p else Ok a) = Ok a'" "pa_inv a'" "pa.held a' = pa.held a"
      "pa_space a' = pa_space a" "pa_pinned a \<subseteq> pa_pinned a'" "p \<in> pa_space a' \<Longrightarrow> p \<in> pa_pinned a'"
proof (cases "p \<in> pa_space a")
  case False
  then show thesis using assms by (intro made [of a]) (auto simp: pa_space_def)
next
  case True
  then have c: "contains a p" by (simp add: pa_space_def)
  consider "p \<in> pa_pinned a" | "p \<notin> pa_pinned a" "p \<notin> pa_free_set a" | "p \<in> pa_free_set a" by blast
  then show thesis
  proof cases
    case 3
    then obtain a' where "reserve a p = Ok a'" "pa_inv a'" "pa_free_set a' = pa_free_set a - {p}"
        "pa_pinned a' = insert p (pa_pinned a)" "pa_space a' = pa_space a" using pa.pin_free [OF assms] by blast
    then show thesis using c True 3 by (intro made [of a']) (auto simp: pa.held_def)
  qed (use c pa.pin_again [OF assms] pa.pin_held [OF assms True] refused in auto)
qed

definition pinned_to :: "static_dnat \<Rightarrow> peer_id \<Rightarrow> instant \<Rightarrow> mapping" where
  "pinned_to dnat owner now = fresh_mapping owner (sd_proto dnat) (sd_target dnat) (sd_external_port dnat) now True"

definition repinned :: "static_dnat \<Rightarrow> port_allocator \<Rightarrow> 'g napt \<Rightarrow> 'g napt" where
  "repinned dnat a s =
     (let v6 = is_ipv6 (fst (sd_target dnat)); s = set_allocator (sd_proto dnat) v6 a s;
          s = remove_at (n_outbound s (sd_proto dnat, fst (sd_target dnat), snd (sd_target dnat))) s
      in remove_at (n_inbound s (sd_proto dnat, v6, sd_external_port dnat)) s)"

lemma add_static_eq:
  "add_static dnat now s =
     (case n_ownership s (fst (sd_target dnat)) of
        None \<Rightarrow> (s, Err TargetNotOwned)
      | Some owner \<Rightarrow>
          let v6 = is_ipv6 (fst (sd_target dnat)); a = n_ports s v6 (sd_proto dnat); port = sd_external_port dnat
          in (case (if contains a port then reserve a port else Ok a) of
                Panic \<Rightarrow> (s, Panic)
              | Err (e, a) \<Rightarrow> (set_allocator (sd_proto dnat) v6 a s, Err e)
              | Ok a \<Rightarrow> (fst (insert_mapping (pinned_to dnat owner now) (repinned dnat a s)), Ok (n_next_id s))))"
  by (simp add: add_static_def repinned_def pinned_to_def fresh_mapping_def Let_def insert_mapping_eq remove_at_def
      split: option.split res.split)

lemma table_remove_at: "table (remove_at at s) i = Some m \<Longrightarrow> table s i = Some m"
  by (simp add: remove_at_def split: option.splits if_splits)

lemma inv_repinned:
  assumes inv: "nat_inv s" and a: "pa_inv a" "pa.held a = pa.held (n_ports s v6 proto)"
      "pa_space a = pa_space (n_ports s v6 proto)" "pa_pinned (n_ports s v6 proto) \<subseteq> pa_pinned a"
      "sd_external_port dnat \<in> pa_space a \<Longrightarrow> sd_external_port dnat \<in> pa_pinned a"
    and k: "v6 = is_ipv6 (fst (sd_target dnat))" "proto = sd_proto dnat"
  shows "nat_inv (fst (insert_mapping (pinned_to dnat owner now) (repinned dnat a s)))"
    and "spaces (repinned dnat a s) = spaces s"
proof -
  define s1 where "s1 = set_allocator proto v6 a s"
  define s2 where "s2 = remove_at (n_outbound s1 (proto, fst (sd_target dnat), snd (sd_target dnat))) s1"
  define s3 where "s3 = remove_at (n_inbound s2 (proto, v6, sd_external_port dnat)) s2"
  have r: "repinned dnat a s = s3" by (simp add: repinned_def s1_def s2_def s3_def k Let_def)
  have 1: "nat_inv s1" "spaces s1 = spaces s"
    using a(4) unfolding s1_def by (intro inv_set_allocator [OF inv a(1-3)]; blast)+
  note 2 = inv_remove_at [OF 1(1), of "n_outbound s1 (proto, fst (sd_target dnat), snd (sd_target dnat))", folded s2_def]
  note 3 = inv_remove_at [OF 2(1), of "n_inbound s2 (proto, v6, sd_external_port dnat)", folded s3_def]
  show "spaces (repinned dnat a s) = spaces s" using 1(2) 2(2) 3(2) r by simp
  have "n_outbound s3 (proto, fst (sd_target dnat), snd (sd_target dnat)) = None"
    using removed_index(1) [OF 1(1)] table_remove_at unfolding s3_def
    by (intro shrinks_index(1) [OF 2(1) 3(1) [unfolded s3_def]]) (auto simp: s2_def)
  moreover have "n_inbound s3 (proto, v6, sd_external_port dnat) = None"
    unfolding s3_def by (rule removed_index(2) [OF 2(1)])
  moreover have "sd_external_port dnat \<in> pins s3 v6 proto" if "sd_external_port dnat \<in> spaces s3 v6 proto"
    using that a(5) 2(2,3) 3(2,3) by (simp add: s1_def spaces_def pins_def fun_eq_iff set_allocator_def)
  ultimately show "nat_inv (fst (insert_mapping (pinned_to dnat owner now) (repinned dnat a s)))"
    unfolding r by (intro inv_pinned [OF 3(1)]) (simp_all add: pinned_to_def keys_split k fam_def)
qed

lemma add_static_ok:
  assumes inv: "nat_inv s" and r: "add_static dnat now s = (t, r)"
  shows "nat_inv t \<and> env_of t = env_of s \<and> spaces t = spaces s \<and> r \<noteq> Panic \<and>
    (\<forall>e. r = Err e \<longrightarrow> table t = table s) \<and>
    (\<forall>i. r = Ok i \<longrightarrow> (\<exists>owner. n_ownership s (fst (sd_target dnat)) = Some owner \<and> table t i = Some (pinned_to dnat owner now)))"
proof (cases "n_ownership s (fst (sd_target dnat))")
  case (Some owner)
  let ?v6 = "is_ipv6 (fst (sd_target dnat))"
  let ?a = "n_ports s ?v6 (sd_proto dnat)"
  have "pa_inv ?a" by (rule ports_okD(1) [OF nat_invD(5) [OF inv]])
  then show ?thesis
  proof (cases rule: reservation_cases [of ?a "sd_external_port dnat"])
    case (refused e)
    have same: "set_allocator (sd_proto dnat) ?v6 ?a s = s" by (simp add: set_allocator_def)
    show ?thesis using r inv by (auto simp: add_static_eq Some Let_def refused same)
  next
    case (made a')
    note i = inv_repinned [OF inv made(2-6) refl refl]
    have t: "t = fst (insert_mapping (pinned_to dnat owner now) (repinned dnat a' s))" "r = Ok (n_next_id s)"
      using r by (simp_all add: add_static_eq Some Let_def made(1))
    have e: "env_of (repinned dnat a' s) = env_of s" "n_next_id (repinned dnat a' s) = n_next_id s"
      by (simp_all add: repinned_def Let_def) (simp add: remove_at_def set_allocator_def split: option.split)
    have "spaces t = spaces (repinned dnat a' s)" by (simp add: t spaces_def fun_eq_iff)
    then show ?thesis using i(1) [of owner now] i(2) e Some by (simp add: t table_insert) (simp add: pinned_to_def)
  qed
qed (use inv r in \<open>auto simp: add_static_def\<close>)

lemma remove_static_ok:
  assumes inv: "nat_inv s" and r: "remove_static proto port v6 s = (t, b)"
  shows "nat_inv t \<and> env_of t = env_of s \<and> spaces t = spaces s \<and>
    (b \<longrightarrow> (\<exists>i m. n_inbound s (proto, v6, port) = Some i \<and> table s i = Some m \<and> m_pinned m \<and> table t = (table s)(i := None))) \<and>
    (\<not> b \<longrightarrow> t = s)"
proof (cases "b")
  case True
  then obtain i where i: "n_inbound s (proto, v6, port) = Some i" using r by (auto simp: remove_static_def split: option.splits)
  obtain m where m: "n_mappings s i = Some m" "m_proto m = proto" "fam m = v6" "m_external_port m = port"
    using inbound_found [OF inv i] by blast
  let ?s1 = "remove_mapping i s"
  let ?a = "n_ports ?s1 v6 proto"
  note inv1 = inv_remove [OF inv, of i]
  obtain a' c where u: "unreserve ?a port = (a', c)" by force
  have t: "t = set_allocator proto v6 a' ?s1" and pm: "m_pinned m"
    using r i m(1) True u by (auto simp: remove_static_def Let_def split: if_splits)
  have pinv: "pa_inv ?a" by (rule ports_okD(1) [OF nat_invD(5) [OF inv1]])
  have a': "pa_inv a'" "pa.held a' = pa.held ?a" "pa_space a' = pa_space ?a" "pa_pinned ?a - {port} \<subseteq> pa_pinned a'"
    using u pa.unpin_pinned [OF pinv, of port] pa.unpin_other [OF pinv, of port] pinv
    by (cases "port \<in> pa_pinned ?a"; auto simp: pa.held_def)+
  have pin: "m_external_port n \<in> pa_pinned a'"
    if n: "table ?s1 j = Some n" "fam n = v6" "m_proto n = proto" "m_external_port n \<in> pa_pinned ?a" for j n
  proof -
    have "table s j = Some n" "j \<noteq> i" using n(1) by (auto split: if_splits)
    then have "m_external_port n \<noteq> port"
      using inverse_of_unique [of "n_inbound s" in_key "table s" j n i "strip m"] nat_invD(2) [OF inv] m n(2,3)
      by (auto simp: index_ok_def table_Some keys_split)
    then show ?thesis using a'(4) n(4) by blast
  qed
  have "nat_inv t" "spaces t = spaces ?s1" unfolding t using pin by (intro inv_set_allocator [OF inv1 a'(1-3)]; blast)+
  then show ?thesis using True i m(1) pm remove_pins(1) [OF inv] by (auto simp: t table_Some)
next
  case False
  then have "t = s" using r by (auto simp: remove_static_def Let_def split: option.splits if_splits prod.splits)
  then show ?thesis using False inv by simp
qed

text \<open>What a flush is asked to remove, and that the order in which the map is walked does not matter.\<close>

definition walks :: "'g world \<Rightarrow> bool" where
  "walks w \<longleftrightarrow> (\<forall>xs. set (w_order w xs) = set xs)"

lemma set_mapping_ids: "nat_inv s \<Longrightarrow> set (mapping_ids s) = {i. table s i \<noteq> None}"
  using nat_invD(1) [of s] by (auto simp: mapping_ids_def ids_ok_def table_def)

lemma set_doomed:
  assumes "nat_inv s" and "walks w" and "\<And>m. P (strip m) = P m"
  shows "set (doomed w P s) = {i. \<exists>m. table s i = Some m \<and> P m}"
proof -
  have "set (w_order w (mapping_ids s)) = {i. table s i \<noteq> None}"
    using assms(1,2) set_mapping_ids by (simp add: walks_def)
  then show ?thesis using assms(3) by (auto simp: doomed_def table_def split: option.splits)
qed

lemma flush_eq:
  assumes "nat_inv s" and "walks w" and "\<And>m. P (strip m) = P m"
  shows "table (fold remove_mapping (doomed w P s) s) i =
    (case table s i of None \<Rightarrow> None | Some m \<Rightarrow> if P m then None else Some m)"
  using set_doomed [of s w P] assms by (auto split: option.split)

lemma flush_peer_ok:
  assumes "nat_inv s" and "walks w"
  shows "nat_inv (flush_peer w peer s)" and "env_of (flush_peer w peer s) = env_of s"
    and "spaces (flush_peer w peer s) = spaces s"
    and "table (flush_peer w peer s) i =
      (case table s i of None \<Rightarrow> None | Some m \<Rightarrow> if m_owner m = peer \<and> \<not> m_pinned m then None else Some m)"
  unfolding flush_peer_def
  using inv_removes [OF assms(1)] removes_pins [OF assms(1)] flush_eq [OF assms, of "\<lambda>m. m_owner m = peer \<and> \<not> m_pinned m" i]
  by simp_all

lemma flush_family_ok:
  assumes "nat_inv s" and "walks w"
  shows "nat_inv (flush_family w v6 s)" and "env_of (flush_family w v6 s) = env_of s"
    and "spaces (flush_family w v6 s) = spaces s"
    and "table (flush_family w v6 s) i =
      (case table s i of None \<Rightarrow> None | Some m \<Rightarrow> if fam m = v6 \<and> \<not> m_pinned m then None else Some m)"
  unfolding flush_family_def fam_def [symmetric]
  using inv_removes [OF assms(1)] removes_pins [OF assms(1)] flush_eq [OF assms, of "\<lambda>m. fam m = v6 \<and> \<not> m_pinned m" i]
  by simp_all

definition stale :: "epoch_id \<Rightarrow> u32 \<Rightarrow> u128 option \<Rightarrow> 'g napt \<Rightarrow> bool \<Rightarrow> bool" where
  "stale epoch v4 v6 s is6 \<longleftrightarrow>
     n_exit s \<noteq> Some (ep_exit epoch) \<or> (if is6 then n_v6 s \<noteq> v6 else n_v4 s \<noteq> Some v4)"

lemma set_external_ok:
  assumes inv: "nat_inv s" and w: "walks w" and t_def: "t = set_external w epoch v4 v6 s"
  shows "nat_inv t" and "spaces t = spaces s" and "n_config t = n_config s" and "n_ownership t = n_ownership s"
    and "n_counters t = n_counters s"
    and "table t i = (case table s i of None \<Rightarrow> None
      | Some m \<Rightarrow> if \<not> m_pinned m \<and> stale epoch v4 v6 s (fam m) then None else Some m)"
proof -
  define s1 where "s1 = (if stale epoch v4 v6 s False then flush_family w False s else s)"
  define s2 where "s2 = (if stale epoch v4 v6 s True then flush_family w True s1 else s1)"
  have 1: "nat_inv s1" "env_of s1 = env_of s" "spaces s1 = spaces s" "table s1 j = (case table s j of None \<Rightarrow> None
      | Some m \<Rightarrow> if \<not> m_pinned m \<and> \<not> fam m \<and> stale epoch v4 v6 s False then None else Some m)" for j
    using flush_family_ok [OF inv w, of False] inv by (auto simp: s1_def split: option.split)
  have 2: "nat_inv s2" "env_of s2 = env_of s" "spaces s2 = spaces s" "table s2 j = (case table s j of None \<Rightarrow> None
      | Some m \<Rightarrow> if \<not> m_pinned m \<and> stale epoch v4 v6 s (fam m) then None else Some m)" for j
    using flush_family_ok [OF 1(1) w, of True] 1 by (auto simp: s2_def split: option.split)
  have t: "t = s2\<lparr>n_exit := Some (ep_exit epoch), n_epoch := Some epoch, n_v4 := Some v4, n_v6 := v6\<rparr>"
    using env_ofD [OF 1(2)] unfolding t_def set_external_def Let_def s1_def s2_def stale_def by (auto simp: Let_def)
  show "nat_inv t" unfolding t by (rule inv_irrelevant [OF 2(1)]) simp_all
  show "spaces t = spaces s" using 2(3) by (simp add: t spaces_def fun_eq_iff)
  show "n_config t = n_config s" "n_ownership t = n_ownership s" "n_counters t = n_counters s"
    using env_ofD [OF 2(2)] by (simp_all add: t)
  show "table t i = (case table s i of None \<Rightarrow> None
      | Some m \<Rightarrow> if \<not> m_pinned m \<and> stale epoch v4 v6 s (fam m) then None else Some m)" using 2(4) by (simp add: t)
qed

end
