(* ===== verification/Napt_Expiry.thy ===== *)
theory Napt_Expiry
  imports Napt_Steps
begin

text \<open>
  The expiry queue.  Every dynamic mapping keeps an entry in the queue that is due no later than
  the longest timeout after the mapping was last used, so a sweep leaves no mapping that has been
  idle for longer; and the sweep removes a mapping only at or after its deadline.
\<close>

section \<open>The queue of a state\<close>

definition longest :: "nat_config \<Rightarrow> duration" where
  "longest c = foldl max 0 (map (flow_timeout c) [UdpOneWay, UdpAnswered, TcpSyn, TcpEstablished, TcpClosed, IcmpFlow])"

lemma flow_timeout_longest: "flow_timeout c st \<le> longest c" "initial_timeout c proto \<le> longest c"
  by (cases st; simp add: longest_def) (cases proto; simp add: longest_def)

definition queued :: "instant \<Rightarrow> 'g napt \<Rightarrow> bool" where
  "queued clock s \<longleftrightarrow> sorted (n_expiry s) \<and>
     (\<forall>i m. table s i = Some m \<longrightarrow> m_last_seen m \<le> clock \<and> (\<forall>r\<in>set (m_remotes m). rf_last_seen r \<le> m_last_seen m) \<and>
        (\<not> m_pinned m \<longrightarrow> (\<exists>t. (t, i) \<in> set (n_expiry s) \<and> t \<le> m_last_seen m + longest (n_config s))))"

lemma queuedD:
  assumes "queued clock s" and "table s i = Some m"
  shows "m_last_seen m \<le> clock" and "r \<in> set (m_remotes m) \<Longrightarrow> rf_last_seen r \<le> m_last_seen m"
    and "\<not> m_pinned m \<Longrightarrow> \<exists>t. (t, i) \<in> set (n_expiry s) \<and> t \<le> m_last_seen m + longest (n_config s)"
  using assms by (auto simp: queued_def)

lemma queued_later: "queued c s \<Longrightarrow> c \<le> c' \<Longrightarrow> queued c' s"
  unfolding queued_def by (meson le_trans)

lemma queued_shrinks:
  assumes "queued c s" and "\<And>i m. table t i = Some m \<Longrightarrow> table s i = Some m" and "n_expiry t = n_expiry s"
    and "n_config t = n_config s"
  shows "queued c t"
  using assms(1) unfolding queued_def assms(3,4) by (blast dest: assms(2))

lemma queued_push: "queued c s \<Longrightarrow> queued c (push_expiry e s)"
  unfolding queued_def push_expiry_fields set_insort_key sorted_insort table_irrelevant by blast

lemma queued_touched:
  assumes q: "queued now s" and t: "touched i k now s t"
  shows "queued now t"
proof -
  obtain m rs where m: "table s i = Some m" and tb: "table t = (table s)(i \<mapsto> m\<lparr>m_remotes := rs, m_last_seen := now\<rparr>)"
    and rs: "\<forall>r\<in>set rs. r \<in> set (m_remotes m) \<or> rf_last_seen r = now"
    and ex: "n_expiry t = n_expiry s \<or> (\<exists>e. n_expiry t = insort e (n_expiry s))" and cfg: "n_config t = n_config s"
    using t by (auto simp: touched_def dest: env_ofD)
  have sub: "set (n_expiry s) \<subseteq> set (n_expiry t)" and srt: "sorted (n_expiry t)"
    using ex q by (auto simp: queued_def set_insort_key sorted_insort)
  note Q = queuedD [OF q]
  have "rf_last_seen r \<le> now" if "r \<in> set rs" for r using that rs Q(1,2) [OF m] by fastforce
  moreover have "\<exists>t'. (t', i) \<in> set (n_expiry t) \<and> t' \<le> now + longest (n_config s)" if "\<not> m_pinned m"
    using Q(1) [OF m] Q(3) [OF m that] sub by (meson add_le_mono1 le_trans subsetD)
  moreover have "\<exists>t'. (t', j) \<in> set (n_expiry t) \<and> t' \<le> m_last_seen n + longest (n_config s)"
    if "table s j = Some n" "\<not> m_pinned n" for j n using Q(3) [OF that] sub by blast
  ultimately show ?thesis using srt Q(1,2) unfolding queued_def cfg tb by auto
qed

lemma queued_installed:
  assumes q: "queued now s" and m: "m = fresh_mapping peer proto internal p now False"
  shows "queued now (installed m a g now s)"
proof -
  note Q = queuedD [OF q]
  have "now + initial_timeout (n_config s) proto \<le> now + longest (n_config s)" using flow_timeout_longest(2) by simp
  then show ?thesis using q unfolding queued_def by (auto simp: m sorted_insort set_insort_key)
qed

lemma deadline_longest:
  assumes "\<not> m_pinned m" and "\<And>r. r \<in> set (m_remotes m) \<Longrightarrow> rf_last_seen r \<le> m_last_seen m"
  shows "deadline_of c m \<le> m_last_seen m + longest c"
proof -
  have fold: "foldl (\<lambda>d r. max d (rf_last_seen r + flow_timeout c (rf_state r))) d rs \<le> b"
    if "d \<le> b" "\<forall>r\<in>set rs. rf_last_seen r + flow_timeout c (rf_state r) \<le> b" for d b rs
    using that by (induction rs arbitrary: d) auto
  have a: "m_last_seen m + initial_timeout c (m_proto m) \<le> m_last_seen m + longest c"
    and b: "\<forall>r\<in>set (m_remotes m). rf_last_seen r + flow_timeout c (rf_state r) \<le> m_last_seen m + longest c"
    using assms(2) flow_timeout_longest by (auto intro: add_mono)
  show ?thesis using fold [OF a b] assms(1) by (simp add: deadline_of_def)
qed

section \<open>The sweep\<close>

lemma deadline_of_strip [simp]: "deadline_of c (strip m) = deadline_of c m"
  by (simp add: deadline_of_def)

lemma inv_expiry: "nat_inv s \<Longrightarrow> nat_inv (s\<lparr>n_expiry := x\<rparr>)"
  by (rule inv_irrelevant) simp_all

lemma env_of_expiry [simp]: "env_of (s\<lparr>n_expiry := x\<rparr>) = env_of s"
  by (simp add: env_of_def)

text \<open>The three ways a turn of the loop goes on, and the way it ends.\<close>

lemma sweep_step:
  obtains (end_) "sweep now s = (s, 0)" "\<forall>e\<in>set (n_expiry s). sorted (n_expiry s) \<longrightarrow> now < fst e"
  | (gone) t i rest where "n_expiry s = (t, i) # rest" "t \<le> now" "table s i = None"
      "sweep now s = sweep now (s\<lparr>n_expiry := rest\<rparr>)"
  | (later) t i rest m where "n_expiry s = (t, i) # rest" "t \<le> now" "table s i = Some m" "now < deadline_of (n_config s) m"
      "sweep now s = sweep now (push_expiry (deadline_of (n_config s) m, i) (s\<lparr>n_expiry := rest\<rparr>))"
  | (over) t i rest m where "n_expiry s = (t, i) # rest" "t \<le> now" "table s i = Some m" "deadline_of (n_config s) m \<le> now"
      "fst (sweep now s) = fst (sweep now (remove_mapping i (s\<lparr>n_expiry := rest\<rparr>)))"
      "snd (sweep now s) = Suc (snd (sweep now (remove_mapping i (s\<lparr>n_expiry := rest\<rparr>))))"
proof (cases "n_expiry s")
  case Nil
  then show thesis by (intro end_) (simp_all add: sweep.simps)
next
  case (Cons e rest)
  obtain t i where e: "e = (t, i)" by force
  show thesis
  proof (cases "now < t")
    case True
    then show thesis using Cons e by (intro end_) (auto simp: sweep.simps [of now s] less_eq_prod_def)
  next
    case False
    then have le: "t \<le> now" by simp
    have sw: "sweep now s = (case n_mappings s i of None \<Rightarrow> sweep now (s\<lparr>n_expiry := rest\<rparr>)
       | Some m \<Rightarrow> if now < deadline_of (n_config s) m then sweep now (push_expiry (deadline_of (n_config s) m, i) (s\<lparr>n_expiry := rest\<rparr>))
           else let (s, removed) = sweep now (remove_mapping i (s\<lparr>n_expiry := rest\<rparr>)) in (s, removed + 1))"
      using Cons e False by (simp add: sweep.simps [of now s] Let_def split: option.split)
    show thesis
    proof (cases "n_mappings s i")
      case None
      then show thesis using Cons e le by (intro gone [of t i rest]) (simp_all add: sw table_def)
    next
      case (Some m)
      show thesis
      proof (cases "now < deadline_of (n_config s) m")
        case True
        then show thesis using Some Cons e le by (intro later [of t i rest "strip m"]) (simp_all add: sw table_Some)
      next
        case False
        then show thesis using Some Cons e le
          by (intro over [of t i rest "strip m"]) (simp_all add: sw table_Some case_prod_beta)
      qed
    qed
  qed
qed

text \<open>
  What a sweep at time \<open>now\<close> makes of a state: it keeps the mappings that are not due, removes only
  mappings whose deadline has passed, and counts them.
\<close>

definition swept :: "instant \<Rightarrow> 'g napt \<Rightarrow> 'g napt \<Rightarrow> nat \<Rightarrow> bool" where
  "swept now s t n \<longleftrightarrow> env_of t = env_of s \<and> spaces t = spaces s \<and>
     (\<forall>i m. table t i = Some m \<longrightarrow> table s i = Some m) \<and>
     (\<forall>i m. table s i = Some m \<longrightarrow> now < deadline_of (n_config s) m \<longrightarrow> table t i = Some m) \<and>
     card {i. table s i \<noteq> None} = card {i. table t i \<noteq> None} + n"

lemma sweptD:
  assumes "swept now s t n"
  shows "env_of t = env_of s" and "spaces t = spaces s" and "table t i = Some m \<Longrightarrow> table s i = Some m"
    and "table s i = Some m \<Longrightarrow> now < deadline_of (n_config s) m \<Longrightarrow> table t i = Some m"
    and "card {i. table s i \<noteq> None} = card {i. table t i \<noteq> None} + n"
  using assms unfolding swept_def by blast+

lemma finite_table: "nat_inv s \<Longrightarrow> finite {i. table s i \<noteq> None}"
  using nat_invD(1) [of s] by (rule_tac finite_subset [of _ "{..<n_next_id s}"]) (auto simp: ids_ok_def)

lemma swept_cong:
  assumes "env_of s' = env_of s" and "n_ports s' = n_ports s" and "table s' = table s"
  shows "swept now s' t n = swept now s t n"
proof -
  have "spaces s' = spaces s" using spaces_pins_cong [OF assms(2)] ..
  then show ?thesis unfolding swept_def assms(1,3) env_ofD(1) [OF assms(1)] by simp
qed

lemma swept_removed:
  assumes inv: "nat_inv s" and m: "table s i = Some m" "deadline_of (n_config s) m \<le> now"
    and w: "swept now (remove_mapping i s) t n"
  shows "swept now s t (Suc n)"
proof -
  have "{j. table s j \<noteq> None} = insert i {j. table (remove_mapping i s) j \<noteq> None}" using m(1) by auto
  moreover have "finite {j. table (remove_mapping i s) j \<noteq> None}" by (rule finite_table [OF inv_remove [OF inv]])
  ultimately have c: "card {j. table s j \<noteq> None} = Suc (card {j. table (remove_mapping i s) j \<noteq> None})" by simp
  note W = sweptD [OF w, unfolded env_of_keeps remove_mapping_fields]
  have "table s j = Some k" if "table t j = Some k" for j k using W(3) [OF that] by (simp split: if_splits)
  moreover have "table t j = Some k" if "table s j = Some k" "now < deadline_of (n_config s) k" for j k
  proof -
    have "j \<noteq> i" using that m by auto
    then show ?thesis using W(4) [of j k] that by simp
  qed
  moreover have "spaces t = spaces s" using W(2) remove_pins(1) [OF inv] by (rule trans)
  moreover have "card {j. table s j \<noteq> None} = card {j. table t j \<noteq> None} + Suc n" using W(5) c by (simp only: add_Suc_right)
  ultimately show ?thesis using W(1) unfolding swept_def by blast
qed

lemma remove_expiry: "n_ports (remove_mapping i (s\<lparr>n_expiry := x\<rparr>)) = n_ports (remove_mapping i s)"
proof (cases "table s i")
  case (Some m)
  then have "table (s\<lparr>n_expiry := x\<rparr>) i = Some m" by simp
  then show ?thesis using Some by (simp add: remove_mapping_eq Let_def)
qed (simp add: remove_mapping_None)

lemma sweep_ok: "nat_inv s \<Longrightarrow> nat_inv (fst (sweep now s)) \<and> swept now s (fst (sweep now s)) (snd (sweep now s))"
proof (induction "due now s" arbitrary: s rule: less_induct)
  case less
  show ?case
  proof (cases rule: sweep_step [of now s])
    case end_
    then show ?thesis using less.prems by (simp add: swept_def)
  next
    case (gone t i rest)
    have "due now (s\<lparr>n_expiry := rest\<rparr>) < due now s" using gone(1,2) by (simp add: due_def)
    note ih = less.hyps [OF this inv_expiry [OF less.prems]]
    show ?thesis unfolding gone(4) using ih swept_cong [of "s\<lparr>n_expiry := rest\<rparr>" s] by simp
  next
    case (later t i rest m)
    let ?s = "push_expiry (deadline_of (n_config s) m, i) (s\<lparr>n_expiry := rest\<rparr>)"
    have "due now ?s < due now s" using later(1,2,4) by (simp add: due_push) (simp add: due_def)
    note ih = less.hyps [OF this]
    show ?thesis unfolding later(5) using ih swept_cong [of ?s s] less.prems by (simp add: inv_expiry)
  next
    case (over t i rest m)
    let ?s = "remove_mapping i (s\<lparr>n_expiry := rest\<rparr>)"
    have d: "due now ?s < due now s" using over(1,2) by (simp add: due_def)
    note inv = inv_expiry [OF less.prems, of rest]
    from less.hyps [OF d inv_remove [OF inv]] have w: "nat_inv (fst (sweep now s))" "swept now ?s (fst (sweep now s)) (snd (sweep now ?s))"
      unfolding over(5) by simp_all
    have "swept now (remove_mapping i s) (fst (sweep now s)) (snd (sweep now ?s))"
      using w(2) swept_cong [of ?s "remove_mapping i s"] by (simp add: remove_expiry)
    from swept_removed [OF less.prems over(3,4) this] show ?thesis unfolding over(6) using w(1) by simp
  qed
qed

lemma queued_expiry:
  assumes "queued now s" and "n_expiry s = (t, i) # rest" and "table s i = None"
  shows "queued now (s\<lparr>n_expiry := rest\<rparr>)"
  using assms unfolding queued_def by fastforce

lemma queued_later_entry:
  assumes q: "queued now s" and e: "n_expiry s = (t, i) # rest" and m: "table s i = Some m"
  shows "queued now (push_expiry (deadline_of (n_config s) m, i) (s\<lparr>n_expiry := rest\<rparr>))"
proof -
  note Q = queuedD [OF q]
  have "\<exists>t'. (t', j) \<in> set (insort (deadline_of (n_config s) m, i) rest) \<and> t' \<le> m_last_seen n + longest (n_config s)"
    if n: "table s j = Some n" "\<not> m_pinned n" for j n
  proof (cases "j = i")
    case True
    then show ?thesis using n m deadline_longest [of m "n_config s"] Q(2) [OF m] by (auto simp: set_insort_key)
  next
    case False
    then show ?thesis using Q(3) [OF n] e by (auto simp: set_insort_key)
  qed
  then show ?thesis using q e Q(1,2) unfolding queued_def by (simp add: sorted_insort)
qed

lemma queued_removed:
  assumes q: "queued now s" and e: "n_expiry s = (t, i) # rest"
  shows "queued now (remove_mapping i (s\<lparr>n_expiry := rest\<rparr>))"
proof -
  have "\<exists>t'. (t', j) \<in> set rest \<and> t' \<le> m_last_seen n + longest (n_config s)"
    if "table s j = Some n" "\<not> m_pinned n" "j \<noteq> i" for j n
    using queuedD(3) [OF q that(1,2)] that(3) e by auto
  then show ?thesis using q e unfolding queued_def by (simp add: n_expiry_remove)
qed

lemma sweep_queued: "queued now s \<Longrightarrow> queued now (fst (sweep now s)) \<and> (\<forall>e\<in>set (n_expiry (fst (sweep now s))). now < fst e)"
proof (induction "due now s" arbitrary: s rule: less_induct)
  case less
  show ?case
  proof (cases rule: sweep_step [of now s])
    case end_
    then show ?thesis using less.prems by (simp add: queued_def)
  next
    case (gone t i rest)
    have "due now (s\<lparr>n_expiry := rest\<rparr>) < due now s" using gone(1,2) by (simp add: due_def)
    then show ?thesis unfolding gone(4) using less.hyps queued_expiry [OF less.prems gone(1,3)] by blast
  next
    case (later t i rest m)
    let ?s = "push_expiry (deadline_of (n_config s) m, i) (s\<lparr>n_expiry := rest\<rparr>)"
    have "due now ?s < due now s" using later(1,2,4) by (simp add: due_push) (simp add: due_def)
    then show ?thesis unfolding later(5) using less.hyps queued_later_entry [OF less.prems later(1,3)] by blast
  next
    case (over t i rest m)
    have "due now (remove_mapping i (s\<lparr>n_expiry := rest\<rparr>)) < due now s" using over(1,2) by (simp add: due_def)
    then show ?thesis unfolding over(5) using less.hyps queued_removed [OF less.prems over(1)] by blast
  qed
qed

lemma sweep_idle:
  assumes q: "queued now s" and m: "table (fst (sweep now s)) i = Some m" "\<not> m_pinned m"
  shows "now < m_last_seen m + longest (n_config (fst (sweep now s)))"
proof -
  have q': "queued now (fst (sweep now s))" and d: "\<forall>e\<in>set (n_expiry (fst (sweep now s))). now < fst e"
    using sweep_queued [OF q] by simp_all
  obtain t where "(t, i) \<in> set (n_expiry (fst (sweep now s)))" "t \<le> m_last_seen m + longest (n_config (fst (sweep now s)))"
    using queuedD(3) [OF q' m] by blast
  then show ?thesis using d by fastforce
qed

end
