(* ===== verification/Napt_Translate.thy ===== *)
theory Napt_Translate
  imports Napt_Expiry
begin

text \<open>
  What a translation does to a packet and to the table.  Both directions are brought to one of three
  forms: refused before the table is looked at, a packet of a flow, or an ICMP error about one.
\<close>

section \<open>The ends of a flow packet\<close>

text \<open>
  The protocol of a flow packet, the port (or echo identifier) of its end on the given side, and the
  port of the other end.
\<close>

definition flow_id :: "bytes \<Rightarrow> ip_header \<Rightarrow> side \<Rightarrow> (map_proto \<times> u16 \<times> u16) option" where
  "flow_id pkt h near =
     (if ip_protocol h = PROTO_TCP \<or> ip_protocol h = PROTO_UDP then
        case read_ports pkt (ip_l4_offset h) of
          Ok (s, d) \<Rightarrow> Some (if ip_protocol h = PROTO_TCP then Tcp else Udp, if near = Source then (s, d) else (d, s))
        | _ \<Rightarrow> None
      else if icmp_family h then
        case read_icmp pkt (ip_l4_offset h) of
          Ok i \<Rightarrow> if is_echo (ip_protocol h) (icmp_kind i) then map_option (\<lambda>e. (Icmp, e, 0)) (icmp_echo_id i) else None
        | _ \<Rightarrow> None
      else None)"

lemma icmp_family_eq:
  "(\<not> is_v6 h \<and> ip_protocol h = PROTO_ICMPV4 \<or> is_v6 h \<and> ip_protocol h = PROTO_ICMPV6) = icmp_family h"
  by (simp add: icmp_family_def)

text \<open>What both directions read of a packet: a flow packet with its flags, or an ICMP error.\<close>

definition classify :: "bytes \<Rightarrow> ip_header \<Rightarrow> side \<Rightarrow> (nat_drop, (map_proto \<times> u16 \<times> u16 \<times> u8) option) res" where
  "classify pkt h near =
     (if ip_protocol h = PROTO_TCP \<or> ip_protocol h = PROTO_UDP then
        let proto = (if ip_protocol h = PROTO_TCP then Tcp else Udp) in
        attempt (dropped (read_ports pkt (ip_l4_offset h))) id (\<lambda>(s, d).
        attempt (transport_flags pkt h proto) id (\<lambda>flags.
        Ok (Some (if near = Source then (proto, s, d, flags) else (proto, d, s, flags)))))
      else if icmp_family h then
        attempt (dropped (read_icmp pkt (ip_l4_offset h))) id (\<lambda>i.
        if is_echo (ip_protocol h) (icmp_kind i) then
          attempt (ok_or (icmp_echo_id i) MalformedDrop) id (\<lambda>e. Ok (Some (Icmp, e, 0, 0)))
        else if is_icmp_error (ip_protocol h) (icmp_kind i) then Ok None
        else Err UnsupportedProtocolDrop)
      else Err UnsupportedProtocolDrop)"

lemma and_then_simps [simp]:
  "and_then s pkt (Ok a) k = k a" "and_then s pkt (Err d) k = (s, Err (d, pkt))" "and_then s pkt Panic k = (s, Panic)"
  by (simp_all add: and_then_def)

lemma and_thenI:
  assumes "m \<noteq> Panic" and "\<And>d. m = Err d \<Longrightarrow> P (s, Err (d, pkt))" and "\<And>a. m = Ok a \<Longrightarrow> P (k a)"
  shows "P (and_then s pkt m k)"
  using assms by (cases m) simp_all

lemma rewritingI:
  assumes "m \<noteq> Panic" and "\<And>e p. m = Err (e, p) \<Longrightarrow> P (s, Err (drop_from e, p))" and "\<And>p. m = Ok p \<Longrightarrow> P (k p)"
  shows "P (rewriting s m k)"
  using assms by (cases m) (auto simp: rewriting_def)

lemma and_then_attempt:
  "and_then s pkt (attempt m id f) k = and_then s pkt m (\<lambda>a. and_then s pkt (f a) k)"
  by (cases m) simp_all

lemma dropped_simps [simp]: "dropped m = Panic \<longleftrightarrow> m = Panic" "dropped m = Ok a \<longleftrightarrow> m = Ok a"
  by (cases m; simp)+

lemma transport_flags_no_panic [simp]: "transport_flags pkt hdr proto \<noteq> Panic"
  by (simp add: transport_flags_def)

lemma classify_no_panic [simp]: "classify pkt h near \<noteq> Panic"
  by (auto simp: classify_def Let_def attempt_eq_Panic)

lemma classify_flow:
  assumes "classify pkt h near = Ok (Some (proto, n, f, flags))"
  shows "flow_id pkt h near = Some (proto, n, f)"
proof (cases "ip_protocol h = PROTO_TCP \<or> ip_protocol h = PROTO_UDP")
  case True
  then show ?thesis using assms by (auto simp: classify_def flow_id_def Let_def attempt_eq_Ok split: if_splits)
next
  case False
  then show ?thesis using assms by (auto simp: classify_def flow_id_def attempt_eq_Ok split: if_splits option.splits)
qed

lemma classify_error: "classify pkt h near = Ok None \<Longrightarrow> icmp_family h \<and> flow_id pkt h near = None"
  by (auto simp: classify_def flow_id_def Let_def attempt_eq_Ok split: if_splits)

definition class_case :: "'b \<Rightarrow> (map_proto \<Rightarrow> u16 \<Rightarrow> u16 \<Rightarrow> u8 \<Rightarrow> 'b) \<Rightarrow> (map_proto \<times> u16 \<times> u16 \<times> u8) option \<Rightarrow> 'b" where
  "class_case err flow c = (case c of None \<Rightarrow> err | Some (proto, n, f, flags) \<Rightarrow> flow proto n f flags)"

lemma uplink_classified:
  assumes "parse_ip pkt = Ok hdr" and "external_addr (is_v6 hdr) s = Some external" and "n_ownership s (ip_src hdr) = Some peer"
  shows "uplink w peer pkt now s = and_then s pkt (classify pkt hdr Source)
    (class_case (uplink_error w peer pkt hdr external s)
       (\<lambda>proto n f flags. uplink_flow w peer pkt hdr external proto n f flags now s))"
proof (cases "ip_protocol hdr = PROTO_TCP \<or> ip_protocol hdr = PROTO_UDP")
  case True
  then show ?thesis unfolding uplink_def classify_def icmp_family_eq
    by (simp add: assms Let_def and_then_attempt class_case_def case_prod_unfold)
next
  case False
  then show ?thesis unfolding uplink_def classify_def icmp_family_eq
    by (cases "read_icmp pkt (ip_l4_offset hdr)") (simp_all add: assms Let_def and_then_attempt class_case_def)
qed

lemma downlink_classified:
  assumes "parse_ip pkt = Ok hdr" and "external_addr (is_v6 hdr) s = Some (ip_dst hdr)"
  shows "downlink w pkt now s = and_then s pkt (classify pkt hdr Destination)
    (class_case (downlink_error w pkt hdr (ip_dst hdr) s)
       (\<lambda>proto n f flags. downlink_flow w pkt hdr proto n f flags now s))"
proof (cases "ip_protocol hdr = PROTO_TCP \<or> ip_protocol hdr = PROTO_UDP")
  case True
  then show ?thesis unfolding downlink_def classify_def icmp_family_eq
    by (simp add: assms Let_def and_then_attempt class_case_def case_prod_unfold)
next
  case False
  then show ?thesis unfolding downlink_def classify_def icmp_family_eq
    by (cases "read_icmp pkt (ip_l4_offset hdr)") (simp_all add: assms Let_def and_then_attempt class_case_def)
qed

lemma uplink_cases:
  obtains (refused) d where "uplink w peer pkt now s = (s, Err (d, pkt))"
  | (flow) hdr external proto near far flags where "parse_ip pkt = Ok hdr" "external_addr (is_v6 hdr) s = Some external"
      "n_ownership s (ip_src hdr) = Some peer" "flow_id pkt hdr Source = Some (proto, near, far)"
      "uplink w peer pkt now s = uplink_flow w peer pkt hdr external proto near far flags now s"
  | (error) hdr external where "parse_ip pkt = Ok hdr" "external_addr (is_v6 hdr) s = Some external"
      "n_ownership s (ip_src hdr) = Some peer" "icmp_family hdr" "flow_id pkt hdr Source = None"
      "uplink w peer pkt now s = uplink_error w peer pkt hdr external s"
proof (cases "\<exists>hdr external. parse_ip pkt = Ok hdr \<and> external_addr (is_v6 hdr) s = Some external \<and> n_ownership s (ip_src hdr) = Some peer")
  case True
  then obtain hdr external where h: "parse_ip pkt = Ok hdr" "external_addr (is_v6 hdr) s = Some external"
      "n_ownership s (ip_src hdr) = Some peer" by blast
  note u = uplink_classified [OF h, of w now]
  show thesis
  proof (cases "classify pkt hdr Source")
    case (Ok c)
    show thesis
    proof (cases c)
      case None
      then show thesis using h u Ok classify_error [of pkt hdr Source] by (intro error) (simp_all add: class_case_def)
    next
      case (Some x)
      then show thesis using h u Ok classify_flow [of pkt hdr Source]
        by (cases x) (rule flow; simp add: class_case_def)
    qed
  qed (use u refused in simp_all)
next
  case False
  have "parse_ip pkt \<noteq> Panic" by (simp add: parse_ip_def)
  then have "\<exists>d. uplink w peer pkt now s = (s, Err (d, pkt))"
    using False by (cases "parse_ip pkt"; cases "external_addr (is_v6 (case parse_ip pkt of Ok h \<Rightarrow> h)) s") (auto simp: uplink_def)
  then show thesis using refused by blast
qed

lemma downlink_cases:
  obtains (refused) d where "downlink w pkt now s = (s, Err (d, pkt))"
  | (flow) hdr proto near far flags where "parse_ip pkt = Ok hdr" "external_addr (is_v6 hdr) s = Some (ip_dst hdr)"
      "flow_id pkt hdr Destination = Some (proto, near, far)"
      "downlink w pkt now s = downlink_flow w pkt hdr proto near far flags now s"
  | (error) hdr where "parse_ip pkt = Ok hdr" "external_addr (is_v6 hdr) s = Some (ip_dst hdr)" "icmp_family hdr"
      "flow_id pkt hdr Destination = None"
      "downlink w pkt now s = downlink_error w pkt hdr (ip_dst hdr) s"
proof (cases "\<exists>hdr. parse_ip pkt = Ok hdr \<and> external_addr (is_v6 hdr) s = Some (ip_dst hdr)")
  case True
  then obtain hdr where h: "parse_ip pkt = Ok hdr" "external_addr (is_v6 hdr) s = Some (ip_dst hdr)" by blast
  note u = downlink_classified [OF h, of w now]
  show thesis
  proof (cases "classify pkt hdr Destination")
    case (Ok c)
    show thesis
    proof (cases c)
      case None
      then show thesis using h u Ok classify_error [of pkt hdr Destination] by (intro error) (simp_all add: class_case_def)
    next
      case (Some x)
      then show thesis using h u Ok classify_flow [of pkt hdr Destination]
        by (cases x) (rule flow; simp add: class_case_def)
    qed
  qed (use u refused in simp_all)
next
  case False
  have "parse_ip pkt \<noteq> Panic" by (simp add: parse_ip_def)
  then have "\<exists>d. downlink w pkt now s = (s, Err (d, pkt))"
    using False by (cases "parse_ip pkt"; cases "external_addr (is_v6 (case parse_ip pkt of Ok h \<Rightarrow> h)) s") (auto simp: downlink_def)
  then show thesis using refused by blast
qed

section \<open>What a rewrite makes of a packet\<close>

lemma is_v6_set_endpoint [simp]: "is_ipv6 addr = is_v6 h \<Longrightarrow> is_v6 (set_endpoint side addr h) = is_v6 h"
  by (cases side) (simp_all add: set_endpoint_def is_v6_def)

lemma parse_ip_wf: "parse_ip pkt = Ok h \<Longrightarrow> hdr_wf h (length pkt)"
  by (simp add: parse_ip_def parse_Ok(1))

lemma rewrite_no_panic: "parse_ip pkt = Ok h \<Longrightarrow> rewrite_endpoint inc pkt h side addr port \<noteq> Panic"
  by (rule rewrite_endpoint_cases [OF parse_ip_wf, of pkt h inc side addr port]) simp_all

lemma rewrite_refused:
  "parse_ip pkt = Ok h \<Longrightarrow> rewrite_endpoint inc pkt h side addr port = Err (e, p) \<Longrightarrow> p = pkt"
  by (rule rewrite_endpoint_cases [OF parse_ip_wf, of pkt h inc side addr port]) simp_all

lemma icmp_not_ports: "is_icmp proto \<Longrightarrow> proto \<noteq> PROTO_TCP \<and> proto \<noteq> PROTO_UDP"
  by (auto simp: is_icmp_def proto_defs)

lemma icmp_family_is_icmp: "icmp_family h \<Longrightarrow> is_icmp (ip_protocol h)"
  by (auto simp: icmp_family_def is_icmp_def split: if_splits)

lemma rewritten_echo:
  assumes wf: "hdr_wf hdr (length pkt)" and ready: "rewrite_ready pkt hdr side addr (Some w) ck_at pseudo pat"
    and icmp: "is_icmp (ip_protocol hdr)"
  shows "rewritten inc pkt hdr side addr (Some w) ck_at pseudo pat ! ip_l4_offset hdr = pkt ! ip_l4_offset hdr"
    and "rd16 (rewritten inc pkt hdr side addr (Some w) ck_at pseudo pat) (ip_l4_offset hdr + 4) = w"
    and "is_echo (ip_protocol hdr) (pkt ! ip_l4_offset hdr)" and "ip_l4_offset hdr + 8 \<le> length pkt"
proof -
  let ?l4 = "ip_l4_offset hdr"
  have pa: "port_at pkt hdr side (Some w) = Ok pat" and fam: "is_ipv6 addr = is_v6 hdr"
    and ck: "\<exists>need. l4_checksum (ip_protocol hdr) = Some (ck_at, pseudo, need)"
    using ready by (auto simp: rewrite_ready_def)
  have tl: "ip_total_len hdr \<le> length pkt" "?l4 \<le> ip_total_len hdr" using wf by (auto simp: hdr_wf_def)
  have p: "pat = Some (?l4 + 4)" "?l4 + 8 \<le> ip_total_len hdr" "is_echo (ip_protocol hdr) (pkt ! ?l4)"
    using pa icmp by (auto simp: port_at_def Let_def attempt_eq_Ok nth_get_def split: if_splits)
  show "?l4 + 8 \<le> length pkt" "is_echo (ip_protocol hdr) (pkt ! ?l4)" using p tl by simp_all
  show "rd16 (rewritten inc pkt hdr side addr (Some w) ck_at pseudo pat) (?l4 + 4) = w"
    using rewritten_port [OF wf] ready p(1) by simp
  have c2: "ck_at = 2" using ck icmp by (auto simp: l4_checksum_def is_icmp_def proto_defs)
  note b = rewrite_ready_bounds [OF wf ready]
  show "rewritten inc pkt hdr side addr (Some w) ck_at pseudo pat ! ?l4 = pkt ! ?l4"
  proof (rule rewritten_frame [OF wf ready])
    show "\<not> in_field (addr_at (is_v6 hdr) side) (addr_len (is_v6 hdr)) ?l4" using b(3) fam by (simp add: in_field_def)
    show "is_v6 hdr \<or> \<not> in_field 10 2 ?l4" using b(4) fam by (auto simp: in_field_def)
  qed (use p tl c2 in \<open>auto simp: in_field_def\<close>)
qed

lemma rewrite_flow:
  assumes parsed: "parse_ip pkt = Ok hdr" and rew: "rewrite_endpoint inc pkt hdr side addr (Some w) = Ok p"
    and flow: "flow_id pkt hdr side = Some (proto, n, f)"
  shows "parse_ip p = Ok (set_endpoint side addr hdr)"
    and "flow_id p (set_endpoint side addr hdr) side = Some (proto, w, f)" and "is_ipv6 addr = is_v6 hdr"
proof -
  note wf = parse_ip_wf [OF parsed]
  obtain ck_at pseudo pat where ready: "rewrite_ready pkt hdr side addr (Some w) ck_at pseudo pat"
    and p: "p = rewritten inc pkt hdr side addr (Some w) ck_at pseudo pat" using rewrite_endpoint_OkE [OF rew wf] .
  show "parse_ip p = Ok (set_endpoint side addr hdr)"
    using parse_rewritten [OF _ ready, of False] parsed by (simp add: p parse_ip_def)
  show fam: "is_ipv6 addr = is_v6 hdr" using ready by (simp add: rewrite_ready_def)
  show "flow_id p (set_endpoint side addr hdr) side = Some (proto, w, f)"
  proof (cases "is_icmp (ip_protocol hdr)")
    case True
    note e = rewritten_echo(1,2) [OF wf ready True, of inc, folded p] rewritten_echo(3,4) [OF wf ready True]
    have len: "length p = length pkt" using length_rewritten [OF wf ready] by (simp add: p)
    have np: "ip_protocol hdr \<noteq> PROTO_TCP" "ip_protocol hdr \<noteq> PROTO_UDP" using icmp_not_ports [OF True] by simp_all
    have fm: "icmp_family hdr" and fp: "proto = Icmp" "f = 0"
      using flow np by (auto simp: flow_id_def split: if_splits res.splits option.splits)
    have "icmp_family (set_endpoint side addr hdr)" using fm fam by (simp add: icmp_family_def)
    moreover have "read_icmp p (ip_l4_offset hdr) = Ok \<lparr>icmp_kind = pkt ! ip_l4_offset hdr, icmp_code = p ! Suc (ip_l4_offset hdr),
        icmp_echo_id = Some w\<rparr>"
      using e is_echo_kind [OF e(3)] len by (subst read_icmp_Ok) auto
    ultimately show ?thesis using e(3) np fp by (simp add: flow_id_def)
  next
    case False
    have np: "ip_protocol hdr = PROTO_TCP \<or> ip_protocol hdr = PROTO_UDP"
      using flow False icmp_family_is_icmp [of hdr] by (auto simp: flow_id_def split: if_splits)
    obtain sd where "read_ports pkt (ip_l4_offset hdr) = Ok sd"
      using flow np by (auto simp: flow_id_def split: res.splits)
    then have "read_ports pkt (ip_l4_offset hdr) = Ok (rd16 pkt (ip_l4_offset hdr), rd16 pkt (ip_l4_offset hdr + 2))"
      by (simp add: read_ports_Ok)
    then show ?thesis using rewritten_read_ports [OF wf ready False, of inc] flow np
      by (cases side) (auto simp: p flow_id_def set_port_def)
  qed
qed

lemma rewrite_outer:
  assumes parsed: "parse_ip pkt = Ok hdr" and quote: "parse_error_quote pkt hdr = Ok q" and fam: "icmp_family hdr"
    and rew: "rewrite_endpoint inc pkt hdr side addr None = Ok p"
  shows "parse_ip p = Ok (set_endpoint side addr hdr)" and "parse_error_quote p (set_endpoint side addr hdr) = Ok q"
    and "icmp_family (set_endpoint side addr hdr)" and "is_ipv6 addr = is_v6 hdr" and "length p = length pkt"
proof -
  note wf = parse_ip_wf [OF parsed] and eq = parse_error_quote_Ok [OF quote]
  obtain ck_at pseudo pat where ready: "rewrite_ready pkt hdr side addr None ck_at pseudo pat"
    and p: "p = rewritten inc pkt hdr side addr None ck_at pseudo pat" using rewrite_endpoint_OkE [OF rew wf] .
  show "parse_ip p = Ok (set_endpoint side addr hdr)"
    using parse_rewritten [OF _ ready, of False] parsed by (simp add: p parse_ip_def)
  show v: "is_ipv6 addr = is_v6 hdr" using ready by (simp add: rewrite_ready_def)
  then show "icmp_family (set_endpoint side addr hdr)" using fam by (simp add: icmp_family_def)
  show len: "length p = length pkt" using length_rewritten [OF wf ready] by (simp add: p)
  have ck: "ck_at = 2" using ready icmp_family_is_icmp [OF fam]
    by (auto simp: rewrite_ready_def l4_checksum_def is_icmp_def proto_defs)
  have pn: "pat = None" using ready by (simp add: rewrite_ready_def port_at_def)
  note b = rewrite_ready_bounds [OF wf ready]
  have frame: "p ! i = pkt ! i" if "i < length pkt" "i = ip_l4_offset hdr \<or> ip_l4_offset hdr + 8 \<le> i" for i
    unfolding p
  proof (rule rewritten_frame [OF wf ready that(1)])
    show "\<not> in_field (addr_at (is_v6 hdr) side) (addr_len (is_v6 hdr)) i" using b(3) v that(2) by (auto simp: in_field_def)
    show "is_v6 hdr \<or> \<not> in_field 10 2 i" using b(4) v that(2) by (auto simp: in_field_def)
  qed (use ck pn that(2) in \<open>auto simp: in_field_def\<close>)
  have "quote_bytes p (set_endpoint side addr hdr) = quote_bytes pkt hdr"
    unfolding quote_bytes_def set_endpoint_simps using frame by (intro sub_frame [OF len]) auto
  moreover have "p ! ip_l4_offset hdr = pkt ! ip_l4_offset hdr" using eq frame by auto
  ultimately show "parse_error_quote p (set_endpoint side addr hdr) = Ok q"
    using eq len by (simp add: parse_error_quote_Ok_iff)
qed

lemma rewrite_quote_outer:
  assumes "is_ipv6 addr' = is_v6 h"
  shows "rewrite_error_quote e p (set_endpoint side' addr' h) q side addr port = rewrite_error_quote e p h q side addr port"
proof -
  have r: "recompute_icmp_checksum e x (set_endpoint side' addr' h) = recompute_icmp_checksum e x h" for x
    unfolding recompute_icmp_checksum_def set_endpoint_simps is_v6_set_endpoint [OF assms] ..
  show ?thesis unfolding rewrite_error_quote_def r set_endpoint_simps ..
qed

lemma rewrite_quote_after:
  assumes parsed: "parse_ip pkt = Ok hdr" and quote: "parse_error_quote pkt hdr = Ok q" and fam: "icmp_family hdr"
    and rew: "rewrite_endpoint inc pkt hdr side' addr' None = Ok p"
  obtains err where "rewrite_error_quote e p hdr q side addr port = Err (err, p)"
  | p' where "rewrite_error_quote e p hdr q side addr port = Ok p'" "parse_ip p' = Ok (set_endpoint side' addr' hdr)"
      "parse_error_quote p' (set_endpoint side' addr' hdr) = Ok (set_quote side addr port q)"
proof -
  let ?h = "set_endpoint side' addr' hdr"
  note o = rewrite_outer [OF parsed quote fam rew]
  have same: "rewrite_error_quote e p ?h q side addr port = rewrite_error_quote e p hdr q side addr port"
    by (rule rewrite_quote_outer [OF o(4)])
  show thesis
  proof (rule rewrite_error_quote_outcome [OF o(1,2,3), of e side addr port])
    fix err assume "rewrite_error_quote e p ?h q side addr port = Err (err, p)"
    then show thesis using same that(1) by simp
  next
    fix ck_at pseudo pat
    let ?Q = "quote_rewritten (eng_inc e) (quote_bytes p ?h) (eq_inner q) side addr port ck_at pseudo pat"
    assume ready: "quote_ready (quote_bytes p ?h) (eq_inner q) side addr port ck_at pseudo pat"
      and "rewrite_error_quote e p ?h q side addr port = Ok (requoted e p ?h ?Q)"
    then show thesis using same requoted_parses [OF o(1,2) ready refl] by (intro that(2)) simp_all
  qed
qed

section \<open>Uplink\<close>

lemma mapping_for_uplink_queued:
  assumes inv: "nat_inv s" and d: "draw_in_range (w_draw w)" and q: "queued now s"
    and r: "mapping_for_uplink w peer proto internal now s = (t, r)"
  shows "queued now t"
proof (cases "n_outbound s (proto, fst internal, snd internal)")
  case None
  have c: "create_mapping w peer proto internal now s = (t, r)" using r None by (simp add: mapping_for_uplink_def)
  have e: "queued now (evict peer proto s)" by (rule queued_shrinks [OF q]) (auto simp: evict_table split: if_splits)
  show ?thesis
  proof (rule create_cases [OF inv d None, of peer now])
    fix a g p
    assume "create_mapping w peer proto internal now s =
        (installed (fresh_mapping peer proto internal p now False) a g now (evict peer proto s), Ok (n_next_id s))"
    then show ?thesis using c queued_installed [OF e refl] by simp
  next
    fix a g
    assume "create_mapping w peer proto internal now s =
        ((set_allocator proto (is_ipv6 (fst internal)) a (evict peer proto s))\<lparr>n_rng := g\<rparr>, Err PortExhausted)"
    then have "t = (set_allocator proto (is_ipv6 (fst internal)) a (evict peer proto s))\<lparr>n_rng := g\<rparr>" using c by simp
    then show ?thesis using queued_shrinks [OF e, of t] by (simp add: set_allocator_def)
  qed (use c q in simp)
next
  case (Some i)
  then show ?thesis using r q by (auto simp: mapping_for_uplink_def split: option.splits if_splits)
qed

text \<open>What every translation keeps.\<close>

definition keeps :: "instant \<Rightarrow> 'g napt \<Rightarrow> 'g napt \<Rightarrow> bool" where
  "keeps now s t \<longleftrightarrow> nat_inv t \<and> queued now t \<and> env_of t = env_of s \<and> spaces t = spaces s"

lemma keeps_refl: "nat_inv s \<Longrightarrow> queued now s \<Longrightarrow> keeps now s s"
  by (simp add: keeps_def)

lemma keeps_touched:
  assumes "keeps now s t" and "nat_inv u" and "touched i k now t u"
  shows "keeps now s u"
  using assms queued_touched [of now t i k u] spaces_pins_cong [of u t] by (simp add: keeps_def touched_def)

definition flow_mapping :: "peer_id \<Rightarrow> map_proto \<Rightarrow> socket_addr \<Rightarrow> ip_addr \<times> u16 \<Rightarrow> 'g napt \<Rightarrow> mapping \<Rightarrow> bool" where
  "flow_mapping peer proto internal remote s m \<longleftrightarrow> (\<exists>i. table s i = Some m) \<and> m_owner m = peer \<and> m_proto m = proto \<and>
     m_internal m = internal \<and> remote \<in> remote_key ` set (m_remotes m)"

lemma uplink_flow_ok:
  assumes inv: "nat_inv s" and q: "queued now s" and d: "draw_in_range (w_draw w)"
    and parsed: "parse_ip pkt = Ok hdr" and flow: "flow_id pkt hdr Source = Some (proto, near, far)"
    and r: "uplink_flow w peer pkt hdr external proto near far flags now s = (t, r)"
  shows "keeps now s t \<and> only_peer peer s t \<and> (case r of Panic \<Rightarrow> False | Err (d, p) \<Rightarrow> p = pkt
    | Ok p \<Rightarrow> parse_ip p = Ok (set_endpoint Source external hdr) \<and>
        (\<exists>m. flow_mapping peer proto (ip_src hdr, near) (ip_dst hdr, far) t m \<and>
           flow_id p (set_endpoint Source external hdr) Source = Some (proto, m_external_port m, far)))"
proof -
  obtain s1 r1 where m1: "mapping_for_uplink w peer proto (ip_src hdr, near) now s = (s1, r1)" by force
  note ok = mapping_for_uplink_ok [OF inv d m1]
  have k1: "keeps now s s1" using ok mapping_for_uplink_queued [OF inv d q m1] by (simp add: keeps_def)
  show ?thesis
  proof (cases r1)
    case (Ok i)
    then obtain m where m: "n_mappings s1 i = Some m" and mm: "m_owner m = peer" "m_proto m = proto" "m_internal m = (ip_src hdr, near)"
      using ok by (auto simp: found_for_def elim!: table_SomeE)
    have inv1: "nat_inv s1" using ok by simp
    let ?s2 = "touch_uplink i (ip_dst hdr) far flags now s1"
    have t2: "nat_inv ?s2" "touched i (ip_dst hdr, far) now s1 ?s2" using touch_uplink_touched [OF inv1 m] by blast+
    have k2: "keeps now s ?s2" by (rule keeps_touched [OF k1 t2])
    have o2: "only_peer peer s ?s2"
      using ok only_peer_touched [OF t2(2) table_Some [OF m]] mm(1) only_peer_trans by auto
    obtain rs where rs: "table ?s2 i = Some ((strip m)\<lparr>m_remotes := rs, m_last_seen := now\<rparr>)" "(ip_dst hdr, far) \<in> remote_key ` set rs"
      using t2(2) table_Some [OF m] by (auto simp: touched_def)
    obtain m2 where m2: "n_mappings ?s2 i = Some m2" "strip m2 = (strip m)\<lparr>m_remotes := rs, m_last_seen := now\<rparr>"
      using rs(1) by (auto elim!: table_SomeE)
    have "flow_mapping peer proto (ip_src hdr, near) (ip_dst hdr, far) ?s2 (strip m2)"
      using rs mm m2(2) by (auto simp: flow_mapping_def)
    moreover have e: "r = snd (rewriting ?s2 (rewrite_endpoint (eng_inc (w_engine w)) pkt hdr Source external (Some (m_external_port m2)))
        (\<lambda>pkt. (?s2, Ok pkt)))" "t = ?s2"
      using r m1 Ok m2(1) rewrite_no_panic [OF parsed]
      by (auto simp: uplink_flow_def external_port_def rewriting_def Let_def split: res.splits prod.splits)
    ultimately show ?thesis
      using k2 o2 rewrite_no_panic [OF parsed] rewrite_refused [OF parsed] rewrite_flow [OF parsed _ flow]
      by (auto simp: rewriting_def split: res.split intro!: exI [of _ "strip m2"])
  qed (use r m1 ok k1 in \<open>auto simp: uplink_flow_def\<close>)
qed

text \<open>What an ICMP error about a packet of a mapping becomes.\<close>

definition error_mapping :: "side \<Rightarrow> bytes \<Rightarrow> ip_header \<Rightarrow> 'g napt \<Rightarrow> error_quote \<Rightarrow> mapping \<Rightarrow> bool" where
  "error_mapping near pkt hdr s q m \<longleftrightarrow> (\<exists>i. table s i = Some m) \<and> parse_error_quote pkt hdr = Ok q \<and>
     map_proto_of (ip_protocol (eq_inner q)) (is_v6 (eq_inner q)) = Some (m_proto m) \<and>
     (case near of
        Source \<Rightarrow> quote_port q Destination = Some (snd (m_internal m)) \<and> ip_dst (eq_inner q) = fst (m_internal m)
      | Destination \<Rightarrow> quote_port q Source = Some (m_external_port m) \<and> ip_src (eq_inner q) = ip_dst hdr)"

definition uplink_quote :: "peer_id \<Rightarrow> bytes \<Rightarrow> ip_header \<Rightarrow> 'g napt \<Rightarrow> (nat_drop, error_quote \<times> mapping) res" where
  "uplink_quote peer pkt hdr s =
     attempt (dropped (parse_error_quote pkt hdr)) id (\<lambda>quote.
     attempt (ok_or (map_proto_of (ip_protocol (eq_inner quote)) (is_v6 (eq_inner quote))) UnsupportedProtocolDrop) id (\<lambda>proto.
     attempt (ok_or (quote_port quote Destination) MalformedDrop) id (\<lambda>port.
     attempt (ok_or (n_outbound s (proto, ip_dst (eq_inner quote), port)) NoMapping) id (\<lambda>mid.
     attempt (ok_or (n_mappings s mid) NoMapping) id (\<lambda>m.
     if m_owner m \<noteq> peer then Err SourceNotOwned else Ok (quote, m))))))"

lemma uplink_error_eq:
  "uplink_error w peer pkt hdr external s = and_then s pkt (uplink_quote peer pkt hdr s) (\<lambda>(quote, m).
     rewriting s (rewrite_endpoint (eng_inc (w_engine w)) pkt hdr Source external None) (\<lambda>pkt.
     rewriting s (rewrite_error_quote (w_engine w) pkt hdr quote Destination external (Some (m_external_port m))) (\<lambda>pkt. (s, Ok pkt))))"
  unfolding uplink_error_def uplink_quote_def and_then_attempt
  by (intro arg_cong [of _ _ "and_then s pkt _"] ext) simp

lemma uplink_quote_ok:
  assumes "nat_inv s" and "uplink_quote peer pkt hdr s = Ok (q, m)"
  shows "error_mapping Source pkt hdr s q (strip m) \<and> m_owner m = peer"
proof -
  obtain proto port i where q: "parse_error_quote pkt hdr = Ok q"
    and proto: "map_proto_of (ip_protocol (eq_inner q)) (is_v6 (eq_inner q)) = Some proto"
    and port: "quote_port q Destination = Some port" and i: "n_outbound s (proto, ip_dst (eq_inner q), port) = Some i"
    and m: "n_mappings s i = Some m" "m_owner m = peer"
    using assms(2) by (auto simp: uplink_quote_def attempt_eq_Ok split: if_splits)
  obtain m' where "n_mappings s i = Some m'" "m_proto m' = proto" "m_internal m' = (ip_dst (eq_inner q), port)"
    using outbound_found [OF assms(1) i] .
  then show ?thesis using q proto port m by (auto simp: error_mapping_def table_Some intro!: exI [of _ i])
qed

lemma uplink_quote_no_panic [simp]: "uplink_quote peer pkt hdr s \<noteq> Panic"
  by (auto simp: uplink_quote_def attempt_eq_Panic split: if_splits)

definition requotes :: "side \<Rightarrow> ip_addr \<Rightarrow> u16 \<Rightarrow> bytes \<Rightarrow> ip_header \<Rightarrow> error_quote \<Rightarrow> bytes \<Rightarrow> bool" where
  "requotes near addr port pkt hdr q p \<longleftrightarrow> parse_ip p = Ok (set_endpoint near addr hdr) \<and>
     parse_error_quote p (set_endpoint near addr hdr) =
       Ok (set_quote (case near of Source \<Rightarrow> Destination | Destination \<Rightarrow> Source) addr (Some port) q)"

lemma rewrite_both:
  assumes parsed: "parse_ip pkt = Ok hdr" and q: "parse_error_quote pkt hdr = Ok q" and fam: "icmp_family hdr"
  shows "\<exists>r. rewriting s (rewrite_endpoint (eng_inc e) pkt hdr near addr None) (\<lambda>pkt.
      rewriting s (rewrite_error_quote e pkt hdr q (case near of Source \<Rightarrow> Destination | Destination \<Rightarrow> Source) addr (Some port)) k) = r \<and>
    ((\<exists>d p. r = (s, Err (d, p)) \<and> (p = pkt \<or> parse_ip p = Ok (set_endpoint near addr hdr))) \<or>
     (\<exists>p. r = k p \<and> requotes near addr port pkt hdr q p))"
proof -
  let ?far = "case near of Source \<Rightarrow> Destination | Destination \<Rightarrow> Source"
  show ?thesis
  proof (cases "rewrite_endpoint (eng_inc e) pkt hdr near addr None")
    case (Ok p)
    note o = rewrite_outer [OF parsed q fam Ok]
    show ?thesis
      by (rule rewrite_quote_after [OF parsed q fam Ok, of e ?far addr "Some port"])
        (use o Ok in \<open>auto simp: rewriting_def requotes_def\<close>)
  next
    case (Err ep)
    then show ?thesis using rewrite_refused [OF parsed] by (cases ep) (auto simp: rewriting_def)
  next
    case Panic
    then show ?thesis using rewrite_no_panic [OF parsed] by blast
  qed
qed

lemma uplink_error_ok:
  assumes inv: "nat_inv s" and parsed: "parse_ip pkt = Ok hdr" and fam: "icmp_family hdr"
    and r: "uplink_error w peer pkt hdr external s = (t, r)"
  shows "t = s \<and> (case r of Panic \<Rightarrow> False
    | Err (d, p) \<Rightarrow> p = pkt \<or> parse_ip p = Ok (set_endpoint Source external hdr)
    | Ok p \<Rightarrow> (\<exists>m q. error_mapping Source pkt hdr s q m \<and> m_owner m = peer \<and>
        requotes Source external (m_external_port m) pkt hdr q p))"
proof (cases "uplink_quote peer pkt hdr s")
  case (Ok qm)
  obtain q m where qm: "qm = (q, m)" by force
  note em = uplink_quote_ok [OF inv Ok [unfolded qm]]
  then have q: "parse_error_quote pkt hdr = Ok q" by (simp add: error_mapping_def)
  show ?thesis
    using rewrite_both [OF parsed q fam, of s "w_engine w" Source external "m_external_port m" "\<lambda>p. (s, Ok p)"] r em
    by (auto simp: uplink_error_eq Ok qm intro!: exI [of _ "strip m"] exI [of _ q])
qed (use r in \<open>auto simp: uplink_error_eq\<close>)

section \<open>Downlink\<close>

lemma downlink_flow_ok:
  assumes inv: "nat_inv s" and q: "queued now s"
    and parsed: "parse_ip pkt = Ok hdr" and flow: "flow_id pkt hdr Destination = Some (proto, near, far)"
    and r: "downlink_flow w pkt hdr proto near far flags now s = (t, r)"
  shows "keeps now s t \<and> (case r of Panic \<Rightarrow> False | Err (d, p) \<Rightarrow> p = pkt
    | Ok (p, out) \<Rightarrow> (\<exists>i m. n_inbound s (proto, is_v6 hdr, near) = Some i \<and> table s i = Some m \<and>
        m_proto m = proto \<and> fam m = is_v6 hdr \<and> m_external_port m = near \<and>
        (m_pinned m \<or> (ip_src hdr, far) \<in> remote_key ` set (m_remotes m)) \<and>
        out = \<lparr>tr_peer = m_owner m, tr_destination = fst (m_internal m)\<rparr> \<and>
        only_peer (m_owner m) s t \<and>
        parse_ip p = Ok (set_endpoint Destination (fst (m_internal m)) hdr) \<and>
        flow_id p (set_endpoint Destination (fst (m_internal m)) hdr) Destination = Some (proto, snd (m_internal m), far)))"
proof (cases "n_inbound s (proto, is_v6 hdr, near)")
  case None
  then show ?thesis using r keeps_refl [OF inv q] by (auto simp: downlink_flow_def)
next
  case (Some i)
  obtain m where m: "n_mappings s i = Some m" and mm: "m_proto m = proto" "fam m = is_v6 hdr" "m_external_port m = near"
    using inbound_found [OF inv Some] .
  consider (refused) "accept_downlink i (ip_src hdr) far flags now s = (s, Err NoMapping)"
    | (accepted) u where "accept_downlink i (ip_src hdr) far flags now s = (u, Ok (m_internal m))"
      "m_pinned m \<or> (ip_src hdr, far) \<in> remote_key ` set (m_remotes m)" "nat_inv u" "touched i (ip_src hdr, far) now s u"
    by (rule accept_downlink_cases [OF inv m, of "ip_src hdr" far flags now])
  then show ?thesis
  proof cases
    case refused
    then show ?thesis using r Some keeps_refl [OF inv q] by (auto simp: downlink_flow_def)
  next
    case (accepted u)
    have k: "keeps now s u" by (rule keeps_touched [OF keeps_refl [OF inv q] accepted(3,4)])
    have o: "only_peer (m_owner m) s u" using only_peer_touched [OF accepted(4) table_Some [OF m]] by simp
    obtain rs where "table u i = Some ((strip m)\<lparr>m_remotes := rs, m_last_seen := now\<rparr>)"
      using accepted(4) table_Some [OF m] by (auto simp: touched_def)
    then obtain m2 where m2: "n_mappings u i = Some m2" "strip m2 = (strip m)\<lparr>m_remotes := rs, m_last_seen := now\<rparr>"
      by (auto elim!: table_SomeE)
    have "m_owner m2 = m_owner m" using arg_cong [OF m2(2), of m_owner] by simp
    note m2 = m2(1) this
    have e: "downlink_flow w pkt hdr proto near far flags now s =
      rewriting u (rewrite_endpoint (eng_inc (w_engine w)) pkt hdr Destination (fst (m_internal m)) (Some (snd (m_internal m))))
        (\<lambda>p. (u, Ok (p, \<lparr>tr_peer = m_owner m, tr_destination = fst (m_internal m)\<rparr>)))"
      using Some accepted(1) m2 by (simp add: downlink_flow_def translated_to_def)
    then have "t = u" using r rewrite_no_panic [OF parsed] by (auto simp: rewriting_def split: res.splits)
    then show ?thesis
      using e r k o accepted(2) Some mm table_Some [OF m] rewrite_no_panic [OF parsed] rewrite_refused [OF parsed]
        rewrite_flow [OF parsed _ flow]
      by (auto simp: rewriting_def split: res.splits)
  qed
qed

definition downlink_quote ::
  "bytes \<Rightarrow> ip_header \<Rightarrow> ip_addr \<Rightarrow> 'g napt \<Rightarrow> (nat_drop, error_quote \<times> mapping_id \<times> mapping) res" where
  "downlink_quote pkt hdr external s =
     attempt (dropped (parse_error_quote pkt hdr)) id (\<lambda>quote.
     if ip_src (eq_inner quote) \<noteq> external then Err NoMapping
     else
       attempt (ok_or (map_proto_of (ip_protocol (eq_inner quote)) (is_v6 (eq_inner quote))) UnsupportedProtocolDrop) id (\<lambda>proto.
       attempt (ok_or (quote_port quote Source) MalformedDrop) id (\<lambda>port.
       attempt (ok_or (n_inbound s (proto, is_v6 hdr, port)) NoMapping) id (\<lambda>mid.
       attempt (ok_or (n_mappings s mid) NoMapping) id (\<lambda>m. Ok (quote, mid, m))))))"

lemma downlink_error_eq:
  "downlink_error w pkt hdr external s = and_then s pkt (downlink_quote pkt hdr external s) (\<lambda>(quote, mid, m).
     rewriting s (rewrite_endpoint (eng_inc (w_engine w)) pkt hdr Destination (fst (m_internal m)) None) (\<lambda>pkt.
     rewriting s (rewrite_error_quote (w_engine w) pkt hdr quote Source (fst (m_internal m)) (Some (snd (m_internal m)))) (\<lambda>pkt.
     and_then s pkt (translated_to mid (m_internal m) s) (\<lambda>out. (s, Ok (pkt, out))))))"
proof (cases "parse_error_quote pkt hdr")
  case (Ok q)
  show ?thesis
  proof (cases "ip_src (eq_inner q) = external")
    case True
    then show ?thesis using Ok unfolding downlink_error_def downlink_quote_def and_then_attempt by (simp add: and_then_attempt Let_def)
  qed (simp add: downlink_error_def downlink_quote_def Ok)
qed (simp_all add: downlink_error_def downlink_quote_def)

lemma downlink_quote_ok:
  assumes "nat_inv s" and "downlink_quote pkt hdr (ip_dst hdr) s = Ok (q, i, m)"
  shows "error_mapping Destination pkt hdr s q (strip m) \<and> n_mappings s i = Some m \<and> fam m = is_v6 hdr"
proof -
  obtain proto port where q: "parse_error_quote pkt hdr = Ok q" "ip_src (eq_inner q) = ip_dst hdr"
    and proto: "map_proto_of (ip_protocol (eq_inner q)) (is_v6 (eq_inner q)) = Some proto"
    and port: "quote_port q Source = Some port" and i: "n_inbound s (proto, is_v6 hdr, port) = Some i"
    and m: "n_mappings s i = Some m"
    using assms(2) by (auto simp: downlink_quote_def attempt_eq_Ok split: if_splits)
  obtain m' where "n_mappings s i = Some m'" "m_proto m' = proto" "fam m' = is_v6 hdr" "m_external_port m' = port"
    using inbound_found [OF assms(1) i] .
  then show ?thesis using q proto port m by (auto simp: error_mapping_def table_Some intro!: exI [of _ i])
qed

lemma downlink_quote_no_panic [simp]: "downlink_quote pkt hdr external s \<noteq> Panic"
  by (auto simp: downlink_quote_def attempt_eq_Panic split: if_splits)

lemma downlink_error_ok:
  assumes inv: "nat_inv s" and parsed: "parse_ip pkt = Ok hdr" and icmp: "icmp_family hdr"
    and r: "downlink_error w pkt hdr (ip_dst hdr) s = (t, r)"
  shows "t = s \<and> (case r of Panic \<Rightarrow> False
    | Err (d, p) \<Rightarrow> p = pkt \<or> (\<exists>addr. parse_ip p = Ok (set_endpoint Destination addr hdr))
    | Ok (p, out) \<Rightarrow> (\<exists>m q. error_mapping Destination pkt hdr s q m \<and>
        out = \<lparr>tr_peer = m_owner m, tr_destination = fst (m_internal m)\<rparr> \<and>
        requotes Destination (fst (m_internal m)) (snd (m_internal m)) pkt hdr q p))"
proof (cases "downlink_quote pkt hdr (ip_dst hdr) s")
  case (Ok qm)
  obtain q i m where qm: "qm = (q, i, m)" by (cases qm)
  note em = downlink_quote_ok [OF inv Ok [unfolded qm]]
  then have q: "parse_error_quote pkt hdr = Ok q" by (simp add: error_mapping_def)
  show ?thesis
    using rewrite_both [OF parsed q icmp, of s "w_engine w" Destination "fst (m_internal m)" "snd (m_internal m)"
        "\<lambda>p. and_then s p (translated_to i (m_internal m) s) (\<lambda>out. (s, Ok (p, out)))"] r em
    by (auto simp: downlink_error_eq Ok qm translated_to_def intro!: exI [of _ "strip m"] exI [of _ q])
qed (use r in \<open>auto simp: downlink_error_eq\<close>)

section \<open>Both directions\<close>

lemma uplink_ok:
  assumes inv: "nat_inv s" and q: "queued now s" and d: "draw_in_range (w_draw w)" and r: "uplink w peer pkt now s = (t, r)"
  shows "keeps now s t \<and> only_peer peer s t \<and> r \<noteq> Panic"
proof (rule uplink_cases [of w peer pkt now s])
  fix hdr external proto near far flags
  assume h: "parse_ip pkt = Ok hdr" "flow_id pkt hdr Source = Some (proto, near, far)"
    and u: "uplink w peer pkt now s = uplink_flow w peer pkt hdr external proto near far flags now s"
  from uplink_flow_ok [OF inv q d h r [unfolded u]] show ?thesis by (auto simp del: split_paired_Ex)
next
  fix hdr external
  assume h: "parse_ip pkt = Ok hdr" "icmp_family hdr" and u: "uplink w peer pkt now s = uplink_error w peer pkt hdr external s"
  from uplink_error_ok [OF inv h r [unfolded u]] show ?thesis using keeps_refl [OF inv q] by auto
qed (use r keeps_refl [OF inv q] in auto)

lemma downlink_ok:
  assumes inv: "nat_inv s" and q: "queued now s" and r: "downlink w pkt now s = (t, r)"
  shows "keeps now s t \<and> r \<noteq> Panic"
proof (rule downlink_cases [of w pkt now s])
  fix hdr proto near far flags
  assume h: "parse_ip pkt = Ok hdr" "flow_id pkt hdr Destination = Some (proto, near, far)"
    and u: "downlink w pkt now s = downlink_flow w pkt hdr proto near far flags now s"
  from downlink_flow_ok [OF inv q h r [unfolded u]] show ?thesis by auto
next
  fix hdr
  assume h: "parse_ip pkt = Ok hdr" "icmp_family hdr" and u: "downlink w pkt now s = downlink_error w pkt hdr (ip_dst hdr) s"
  from downlink_error_ok [OF inv h r [unfolded u]] show ?thesis using keeps_refl [OF inv q] by auto
qed (use r keeps_refl [OF inv q] in auto)

section \<open>When a translation goes through\<close>

fun transport_min :: "map_proto \<Rightarrow> nat" where
  "transport_min Tcp = 20"
| "transport_min Udp = 8"
| "transport_min Icmp = 8"

lemma flow_id_cases:
  assumes "flow_id pkt hdr side = Some (proto, n, f)"
  obtains (tcp) "ip_protocol hdr = PROTO_TCP" "proto = Tcp"
  | (udp) "ip_protocol hdr = PROTO_UDP" "proto = Udp"
  | (echo) "icmp_family hdr" "proto = Icmp" "is_echo (ip_protocol hdr) (pkt ! ip_l4_offset hdr)"
  using assms by (auto simp: flow_id_def read_icmp_Ok split: if_splits res.splits option.splits)

lemma rewrite_succeeds:
  assumes parsed: "parse_ip pkt = Ok hdr" and flow: "flow_id pkt hdr side = Some (proto, n, f)"
    and len: "ip_l4_offset hdr + transport_min proto \<le> ip_total_len hdr" and fam: "is_ipv6 addr = is_v6 hdr"
  shows "\<exists>p. rewrite_endpoint inc pkt hdr side addr (Some w) = Ok p"
proof -
  have tl: "ip_total_len hdr \<le> length pkt" using parse_ip_wf [OF parsed] by (simp add: hdr_wf_def)
  have "\<exists>ck_at pseudo pat. rewrite_ready pkt hdr side addr (Some w) ck_at pseudo pat"
    using flow
  proof (cases rule: flow_id_cases)
    case echo
    then have "is_icmp (ip_protocol hdr)" by (rule_tac icmp_family_is_icmp)
    then show ?thesis using echo len fam tl
      by (auto simp: rewrite_ready_def l4_checksum_def port_at_def Let_def is_icmp_def proto_defs nth_get_def)
  qed (use len fam in \<open>auto simp: rewrite_ready_def l4_checksum_def port_at_def Let_def is_icmp_def proto_defs\<close>)
  then show ?thesis using rewrite_endpoint_ready [OF parse_ip_wf [OF parsed]] by blast
qed

lemma flow_classified:
  assumes parsed: "parse_ip pkt = Ok hdr" and flow: "flow_id pkt hdr side = Some (proto, n, f)"
    and len: "ip_l4_offset hdr + transport_min proto \<le> ip_total_len hdr"
  shows "\<exists>flags. classify pkt hdr side = Ok (Some (proto, n, f, flags))"
  using flow
proof (cases rule: flow_id_cases)
  case tcp
  have "\<exists>fl. tcp_flags pkt (ip_l4_offset hdr) = Ok fl"
    using parse_ip_wf [OF parsed] len tcp by (simp add: hdr_wf_def tcp_flags_def nth_get_def)
  then show ?thesis using tcp flow by (auto simp: classify_def flow_id_def transport_flags_def split: res.splits)
next
  case udp
  then show ?thesis using flow by (auto simp: classify_def flow_id_def transport_flags_def proto_defs split: res.splits)
next
  case echo
  then have "ip_protocol hdr \<noteq> PROTO_TCP" "ip_protocol hdr \<noteq> PROTO_UDP"
    using icmp_not_ports icmp_family_is_icmp by blast+
  then show ?thesis using flow echo by (auto simp: classify_def flow_id_def split: res.splits if_splits)
qed

end
