(* ===== verification/Napt_Reach.thy ===== *)
theory Napt_Reach
  imports Napt_Translate
begin

text \<open>
  The translator as a machine.  Its steps are the public operations of \<open>Napt\<close>, taken at times that do
  not go back; the invariant of the earlier theories holds in every state a run can reach, and the
  properties of the translator are stated over those states.
\<close>

section \<open>Steps and runs\<close>

inductive nat_step :: "'g world \<Rightarrow> instant \<Rightarrow> 'g napt \<Rightarrow> instant \<Rightarrow> 'g napt \<Rightarrow> bool" for w where
  step_uplink: "clock \<le> now \<Longrightarrow> nat_step w clock s now (fst (translate_uplink w peer pkt now s))"
| step_downlink: "clock \<le> now \<Longrightarrow> nat_step w clock s now (fst (translate_downlink w pkt now s))"
| step_sweep: "clock \<le> now \<Longrightarrow> nat_step w clock s now (fst (sweep now s))"
| step_add_static: "clock \<le> now \<Longrightarrow> nat_step w clock s now (fst (add_static dnat now s))"
| step_remove_static: "nat_step w clock s clock (fst (remove_static proto port v6 s))"
| step_flush_peer: "nat_step w clock s clock (flush_peer w peer s)"
| step_set_external: "nat_step w clock s clock (set_external w epoch v4 v6' s)"
| step_set_ownership: "nat_step w clock s clock (set_ownership own s)"

inductive nat_run :: "'g world \<Rightarrow> nat_config \<Rightarrow> instant \<Rightarrow> 'g napt \<Rightarrow> bool" for w config where
  run_start: "nat_run w config clock (with_rng config rng)"
| run_step: "nat_run w config clock s \<Longrightarrow> nat_step w clock s clock' s' \<Longrightarrow> nat_run w config clock' s'"

text \<open>What the rest of the program is relied on for: draws in range, and a walk over a map that meets every entry.\<close>

definition world_ok :: "'g world \<Rightarrow> bool" where
  "world_ok w \<longleftrightarrow> draw_in_range (w_draw w) \<and> walks w"

definition external_range :: "nat_config \<Rightarrow> map_proto \<Rightarrow> u16 set" where
  "external_range config proto =
     (if proto = Icmp then {1..65535} else {p. fst (nc_pool config) \<le> p \<and> p \<le> snd (nc_pool config) \<and> \<not> is_control p})"

definition nat_ok :: "nat_config \<Rightarrow> instant \<Rightarrow> 'g napt \<Rightarrow> bool" where
  "nat_ok config clock s \<longleftrightarrow> nat_inv s \<and> queued clock s \<and> n_config s = config \<and>
     (\<forall>v6 proto. spaces s v6 proto = external_range config proto) \<and> accounted (n_counters s)"

section \<open>The invariant\<close>

lemma nat_inv_start: "nat_inv (with_rng config rng)"
proof -
  let ?s = "with_rng config rng"
  have tb: "table ?s = Map.empty" by (simp add: table_def with_rng_def fun_eq_iff)
  have d: "dyn ?s key = {}" for key by (simp add: dyn_def tb)
  have p: "\<exists>lo hi k. n_ports ?s v6 proto = build lo hi k" for v6 proto
    by (cases proto) (auto simp: with_rng_def identifiers_def pa_ports_def pa_new_def)
  have "ports_ok ?s"
    unfolding ports_ok_def used_ports_def tb
  proof (intro allI conjI)
    fix v6 proto
    obtain lo hi k where "n_ports ?s v6 proto = build lo hi k" using p by blast
    then show "pa_inv (n_ports ?s v6 proto)" "pa.held (n_ports ?s v6 proto) =
        {p. \<exists>i m. Map.empty i = Some m \<and> \<not> m_pinned m \<and> fam m = v6 \<and> m_proto m = proto \<and> m_external_port m = p}"
      using build_inv build_sets by (simp_all add: pa.held_def)
  qed simp
  moreover have "lists_ok ?s (\<lambda>_. [])" by (simp add: lists_ok_def with_rng_def)
  moreover have "n_outbound ?s = Map.empty" "n_inbound ?s = Map.empty" "n_counts ?s = Map.empty"
    by (simp_all add: with_rng_def)
  ultimately show ?thesis
    unfolding nat_inv_def ids_ok_def index_ok_def counts_ok_def count_of_def lru_ok_def caps_ok_def flows_ok_def
      inverse_of_def tb d by auto
qed

lemma nat_ok_start: "nat_ok config clock (with_rng config rng)"
proof -
  have "spaces (with_rng config rng) v6 proto = external_range config proto" for v6 proto
    by (cases proto) (auto simp: spaces_def with_rng_def external_range_def identifiers_def pa_ports_def pa_new_def build_sets)
  moreover have "queued clock (with_rng config rng)" by (simp add: queued_def table_def with_rng_def)
  ultimately show ?thesis using nat_inv_start by (simp add: nat_ok_def) (simp add: with_rng_def)
qed

lemma nat_ok_env:
  assumes "nat_ok config clock s" and "nat_inv t" and "queued clock' t" and "spaces t = spaces s" and "n_config t = n_config s"
    and "accounted (n_counters t) = accounted (n_counters s)"
  shows "nat_ok config clock' t"
  using assms by (simp add: nat_ok_def)

lemma nat_ok_keeps:
  assumes "nat_ok config clock s" and "keeps now s t"
  shows "nat_ok config now t"
  using assms env_ofD [of t s] by (intro nat_ok_env [OF assms(1)]) (simp_all add: keeps_def)

lemma nat_ok_counters: "accounted c \<Longrightarrow> nat_ok config clock s \<Longrightarrow> nat_ok config clock (s\<lparr>n_counters := c\<rparr>)"
proof -
  assume c: "accounted c" and ok: "nat_ok config clock s"
  have "nat_inv (s\<lparr>n_counters := c\<rparr>)" by (rule inv_irrelevant [of s]) (use ok in \<open>simp_all add: nat_ok_def\<close>)
  moreover have "queued clock (s\<lparr>n_counters := c\<rparr>)" by (rule queued_shrinks [of clock s]) (use ok in \<open>simp_all add: nat_ok_def\<close>)
  moreover have "spaces (s\<lparr>n_counters := c\<rparr>) = spaces s" by (simp add: spaces_def fun_eq_iff)
  ultimately show ?thesis using ok c by (simp add: nat_ok_def)
qed

lemma nat_ok_at: "nat_ok config clock s \<Longrightarrow> clock \<le> now \<Longrightarrow> nat_inv s \<and> queued now s"
  using queued_later by (auto simp: nat_ok_def)

lemma nat_ok_uplink:
  assumes ok: "nat_ok config clock s" and now: "clock \<le> now" and d: "draw_in_range (w_draw w)"
  shows "nat_ok config now (fst (translate_uplink w peer pkt now s))"
proof -
  obtain t r where u: "uplink w peer pkt now s = (t, r)" by force
  have inv: "nat_inv s" and q: "queued now s" using nat_ok_at [OF ok now] by simp_all
  have t: "nat_ok config now t" using uplink_ok [OF inv q d u] nat_ok_keeps [OF ok] by blast
  then have "accounted (n_counters t)" by (simp add: nat_ok_def)
  then show ?thesis using u t by (cases r) (auto simp: translate_uplink_def nat_ok_counters)
qed

lemma nat_ok_downlink:
  assumes ok: "nat_ok config clock s" and now: "clock \<le> now"
  shows "nat_ok config now (fst (translate_downlink w pkt now s))"
proof -
  obtain t r where u: "downlink w pkt now s = (t, r)" by force
  have inv: "nat_inv s" and q: "queued now s" using nat_ok_at [OF ok now] by simp_all
  have t: "nat_ok config now t" using downlink_ok [OF inv q u] nat_ok_keeps [OF ok] by blast
  then have "accounted (n_counters t)" by (simp add: nat_ok_def)
  then show ?thesis using u t by (cases r) (auto simp: translate_downlink_def nat_ok_counters)
qed

lemma nat_ok_sweep:
  assumes ok: "nat_ok config clock s" and now: "clock \<le> now"
  shows "nat_ok config now (fst (sweep now s))"
proof -
  have inv: "nat_inv s" and q: "queued now s" using nat_ok_at [OF ok now] by simp_all
  have i: "nat_inv (fst (sweep now s))" and w: "swept now s (fst (sweep now s)) (snd (sweep now s))" using sweep_ok [OF inv] by blast+
  show ?thesis using i sweep_queued [OF q] sweptD(2) [OF w] env_ofD [OF sweptD(1) [OF w]] by (intro nat_ok_env [OF ok]) simp_all
qed

lemma repinned_fields: "n_expiry (repinned dnat a s) = n_expiry s" "n_config (repinned dnat a s) = n_config s"
  by (simp_all add: repinned_def Let_def remove_at_def set_allocator_def split: option.split)

lemma table_repinned: "table (repinned dnat a s) i = Some m \<Longrightarrow> table s i = Some m"
  by (auto simp: repinned_def Let_def dest!: table_remove_at)

lemma queued_insert_pinned:
  assumes "queued now s" and "m_pinned m" and "m_last_seen m \<le> now" and "m_remotes m = []"
  shows "queued now (fst (insert_mapping m s))"
proof -
  have "n_expiry (fst (insert_mapping m s)) = n_expiry s" by (simp add: insert_mapping_eq)
  then show ?thesis using assms unfolding queued_def table_insert by (auto simp: insert_fields)
qed

lemma queued_add_static:
  assumes q: "queued now s"
  shows "queued now (fst (add_static dnat now s))"
proof -
  have same: "queued now (set_allocator proto v6 a s)" for proto v6 a
    by (rule queued_shrinks [OF q]) (simp_all add: set_allocator_def)
  have new: "queued now (fst (insert_mapping (pinned_to dnat owner now) (repinned dnat a s)))" for owner a
  proof -
    have "queued now (repinned dnat a s)" using table_repinned by (intro queued_shrinks [OF q]) (auto simp: repinned_fields)
    then show ?thesis by (rule queued_insert_pinned) (simp_all add: pinned_to_def)
  qed
  show ?thesis unfolding add_static_eq Let_def using same new q by (auto split: option.split res.split)
qed

lemma nat_ok_add_static:
  assumes ok: "nat_ok config clock s" and now: "clock \<le> now"
  shows "nat_ok config now (fst (add_static dnat now s))"
proof -
  have inv: "nat_inv s" and q: "queued now s" using nat_ok_at [OF ok now] by simp_all
  obtain t r where t: "add_static dnat now s = (t, r)" by force
  have "nat_inv t" "env_of t = env_of s" "spaces t = spaces s" using add_static_ok [OF inv t] by blast+
  then show ?thesis using queued_add_static [OF q, of dnat] t env_ofD [of t s] by (intro nat_ok_env [OF ok]) simp_all
qed

lemma nat_ok_shrink:
  assumes ok: "nat_ok config clock s" and t: "nat_inv t" "env_of t = env_of s" "spaces t = spaces s" "n_expiry t = n_expiry s"
    "\<And>i m. table t i = Some m \<Longrightarrow> table s i = Some m"
  shows "nat_ok config clock t"
  using ok env_ofD [OF t(2)] t queued_shrinks [of clock s t] by (intro nat_ok_env [OF ok]) (auto simp: nat_ok_def)

lemma nat_ok_remove_static:
  assumes ok: "nat_ok config clock s"
  shows "nat_ok config clock (fst (remove_static proto port v6 s))"
proof -
  have inv: "nat_inv s" using ok by (simp add: nat_ok_def)
  obtain t b where t: "remove_static proto port v6 s = (t, b)" by force
  note r = remove_static_ok [OF inv t]
  have e: "n_expiry t = n_expiry s"
    using arg_cong [OF t, of "\<lambda>x. n_expiry (fst x)"]
    by (simp add: remove_static_def Let_def case_prod_unfold set_allocator_def split: option.splits if_splits)
  have "table s i = Some m" if "table t i = Some m" for i m
    using r that by (cases b) (auto split: if_splits)
  then have "nat_ok config clock t" using r e by (intro nat_ok_shrink [OF ok, of t]) blast+
  then show ?thesis by (simp add: t)
qed

lemma nat_ok_flush_peer:
  assumes ok: "nat_ok config clock s" and w: "walks w"
  shows "nat_ok config clock (flush_peer w peer s)"
proof -
  have inv: "nat_inv s" using ok by (simp add: nat_ok_def)
  have "table s i = Some m" if "table (flush_peer w peer s) i = Some m" for i m
    using that by (auto simp: flush_peer_ok(4) [OF inv w] split: option.splits if_splits)
  moreover have "n_expiry (flush_peer w peer s) = n_expiry s" by (simp add: flush_peer_def)
  ultimately show ?thesis using flush_peer_ok(1-3) [OF inv w] by (intro nat_ok_shrink [OF ok]) blast+
qed

lemma nat_ok_set_external:
  assumes ok: "nat_ok config clock s" and w: "walks w"
  shows "nat_ok config clock (set_external w epoch v4 v6 s)"
proof -
  have inv: "nat_inv s" and q: "queued clock s" using ok by (simp_all add: nat_ok_def)
  note e = set_external_ok [OF inv w refl, of epoch v4 v6]
  have "table s i = Some m" if "table (set_external w epoch v4 v6 s) i = Some m" for i m
    using that by (auto simp: e(6) split: option.splits if_splits)
  moreover have "n_expiry (set_external w epoch v4 v6 s) = n_expiry s" by (simp add: set_external_def Let_def flush_family_def)
  ultimately have "queued clock (set_external w epoch v4 v6 s)" using e(3) by (intro queued_shrinks [OF q]) blast+
  then show ?thesis using e by (intro nat_ok_env [OF ok]) simp_all
qed

lemma nat_ok_set_ownership:
  assumes ok: "nat_ok config clock s"
  shows "nat_ok config clock (set_ownership own s)"
proof -
  have "nat_inv (set_ownership own s)" using ok
    by (rule_tac inv_irrelevant [of s]) (simp_all add: nat_ok_def set_ownership_def)
  moreover have "queued clock (set_ownership own s)" using ok
    by (rule_tac queued_shrinks [of clock s]) (simp_all add: nat_ok_def set_ownership_def)
  ultimately show ?thesis by (intro nat_ok_env [OF ok]) (simp_all add: set_ownership_def spaces_def fun_eq_iff)
qed

lemma nat_ok_step:
  assumes "nat_step w clock s clock' s'" and "world_ok w" and "nat_ok config clock s"
  shows "nat_ok config clock' s'"
  using assms
  by (induction rule: nat_step.induct)
    (auto simp: world_ok_def intro: nat_ok_uplink nat_ok_downlink nat_ok_sweep nat_ok_add_static nat_ok_remove_static
      nat_ok_flush_peer nat_ok_set_external nat_ok_set_ownership)

lemma nat_run_ok: "nat_run w config clock s \<Longrightarrow> world_ok w \<Longrightarrow> nat_ok config clock s"
  by (induction rule: nat_run.induct) (auto intro: nat_ok_start nat_ok_step)

lemma nat_run_at:
  assumes "world_ok w" and "nat_run w config clock s" and "clock \<le> now"
  shows "nat_inv s" "queued now s" "draw_in_range (w_draw w)" "walks w" "n_config s = config"
    "spaces s v6 proto = external_range config proto"
  using nat_ok_at [OF nat_run_ok [OF assms(2,1)] assms(3)] nat_run_ok [OF assms(2,1)] assms(1) by (simp_all add: nat_ok_def world_ok_def)

lemma table_counters [simp]: "table (s\<lparr>n_counters := c\<rparr>) = table s"
  by simp

lemma translate_uplink_Ok:
  "translate_uplink w peer pkt now s = (t, Ok p) \<longleftrightarrow>
     (\<exists>u. uplink w peer pkt now s = (u, Ok p) \<and> t = u\<lparr>n_counters := count_uplink_translated (n_counters u)\<rparr>)"
  by (auto simp: translate_uplink_def split: prod.split res.split)

lemma translate_downlink_Ok:
  "translate_downlink w pkt now s = (t, Ok out) \<longleftrightarrow>
     (\<exists>u. downlink w pkt now s = (u, Ok out) \<and> t = u\<lparr>n_counters := count_downlink_translated (n_counters u)\<rparr>)"
  by (auto simp: translate_downlink_def split: prod.split res.split)

lemma flow_mapping_counters [simp]: "flow_mapping peer proto internal remote (s\<lparr>n_counters := c\<rparr>) = flow_mapping peer proto internal remote s"
  by (simp add: flow_mapping_def fun_eq_iff)

section \<open>Delivery\<close>

lemma parse_ip_family: "parse_ip pkt = Ok h \<Longrightarrow> is_ipv6 (ip_dst h) = is_v6 h"
  using parse_ip_wf [of pkt h] by (simp add: hdr_wf_def is_v6_def)

lemma downlink_delivers:
  assumes inv: "nat_inv s" and q: "queued now s" and parsed: "parse_ip pkt = Ok hdr"
    and ext: "external_addr (is_v6 hdr) s = Some (ip_dst hdr)" and m: "table s i = Some m" "fam m = is_v6 hdr"
    and flow: "flow_id pkt hdr Destination = Some (m_proto m, m_external_port m, far)"
    and len: "ip_l4_offset hdr + transport_min (m_proto m) \<le> ip_total_len hdr"
    and ok: "m_pinned m \<or> (ip_src hdr, far) \<in> remote_key ` set (m_remotes m)"
  shows "\<exists>t p. translate_downlink w pkt now s = (t, Ok (p, \<lparr>tr_peer = m_owner m, tr_destination = fst (m_internal m)\<rparr>)) \<and>
    parse_ip p = Ok (set_endpoint Destination (fst (m_internal m)) hdr) \<and>
    flow_id p (set_endpoint Destination (fst (m_internal m)) hdr) Destination = Some (m_proto m, snd (m_internal m), far)"
proof -
  obtain flags where c: "classify pkt hdr Destination = Ok (Some (m_proto m, m_external_port m, far, flags))"
    using flow_classified [OF parsed flow len] by blast
  have d: "downlink w pkt now s = downlink_flow w pkt hdr (m_proto m) (m_external_port m) far flags now s"
    using downlink_classified [OF parsed ext, of w now] c by (simp add: class_case_def)
  have "inverse_of (n_inbound s) in_key (table s)" using nat_invD(2) [OF inv] by (simp add: index_ok_def)
  then have i: "n_inbound s (m_proto m, is_v6 hdr, m_external_port m) = Some i"
    using inverse_of_lookup [of "n_inbound s" in_key "table s" i m] m by (simp add: keys_split)
  obtain n where n: "n_mappings s i = Some n" "m = strip n" using m(1) by (auto elim: table_SomeE)
  obtain u where a: "accept_downlink i (ip_src hdr) far flags now s = (u, Ok (m_internal m))" "touched i (ip_src hdr, far) now s u"
    using accept_downlink_cases [OF inv n(1), of "ip_src hdr" far flags now] ok n(2) by auto
  obtain rs where "table u i = Some (m\<lparr>m_remotes := rs, m_last_seen := now\<rparr>)" using a(2) m(1) by (auto simp: touched_def)
  then obtain n2 where n2: "n_mappings u i = Some n2" "m_owner n2 = m_owner m"
    by (metis mapping.select_convs(1) mapping.surjective mapping.update_convs(5,6) strip_simps(1) table_SomeE)
  obtain p where p: "rewrite_endpoint (eng_inc (w_engine w)) pkt hdr Destination (fst (m_internal m)) (Some (snd (m_internal m))) = Ok p"
    using rewrite_succeeds [OF parsed flow len, of "fst (m_internal m)"] m(2) by (auto simp only: fam_def)
  have "downlink w pkt now s = (u, Ok (p, \<lparr>tr_peer = m_owner m, tr_destination = fst (m_internal m)\<rparr>))"
    using i a(1) n2 p by (simp add: d downlink_flow_def rewriting_def translated_to_def)
  then show ?thesis using rewrite_flow [OF parsed p flow] by (auto simp: translate_downlink_Ok)
qed

lemma external_addr_env: "env_of t = env_of s \<Longrightarrow> external_addr v6 t = external_addr v6 s"
  by (simp add: external_addr_def env_of_def)

lemma external_addr_counters: "external_addr v6 (s\<lparr>n_counters := c\<rparr>) = external_addr v6 s"
  by (simp add: external_addr_def)

lemma reply_delivered:
  assumes inv: "nat_inv s" and q: "queued now s" and d: "draw_in_range (w_draw w)"
    and tr: "translate_uplink w peer pkt now s = (t, Ok p)" and t: "nat_inv t" "queued now' t"
    and pkt: "parse_ip pkt = Ok hdr" "flow_id pkt hdr Source = Some (proto, near, far)"
    and out: "parse_ip p = Ok hdr'" "flow_id p hdr' Source = Some (proto, port, far)"
    and reply: "parse_ip rp = Ok rhdr" "flow_id rp rhdr Destination = Some (proto, port, far)"
      "ip_src rhdr = ip_dst hdr" "ip_dst rhdr = ip_src hdr'"
      "ip_l4_offset rhdr + transport_min proto \<le> ip_total_len rhdr"
  shows "\<exists>t' q. translate_downlink w rp now' t = (t', Ok (q, \<lparr>tr_peer = peer, tr_destination = ip_src hdr\<rparr>)) \<and>
    parse_ip q = Ok (set_endpoint Destination (ip_src hdr) rhdr) \<and>
    flow_id q (set_endpoint Destination (ip_src hdr) rhdr) Destination = Some (proto, near, far)"
proof -
  obtain u where u: "uplink w peer pkt now s = (u, Ok p)" and tu: "t = u\<lparr>n_counters := count_uplink_translated (n_counters u)\<rparr>"
    using tr by (auto simp: translate_uplink_Ok)
  obtain external flags where e: "external_addr (is_v6 hdr) s = Some external"
    and c: "uplink w peer pkt now s = uplink_flow w peer pkt hdr external proto near far flags now s"
    by (rule uplink_cases [of w peer pkt now s]) (use u pkt in auto)
  obtain m where h': "parse_ip p = Ok (set_endpoint Source external hdr)" and k: "keeps now s u"
    and m: "flow_mapping peer proto (ip_src hdr, near) (ip_dst hdr, far) u m"
    and f: "flow_id p (set_endpoint Source external hdr) Source = Some (proto, m_external_port m, far)"
    using uplink_flow_ok [OF inv q d pkt u [unfolded c]] by auto
  have hd: "hdr' = set_endpoint Source external hdr" and port: "port = m_external_port m" using out h' f by simp_all
  then have dst: "ip_dst rhdr = external" using reply(4) by (simp add: set_endpoint_def)
  have v: "is_v6 rhdr = is_v6 hdr" using parse_ip_family [OF pkt(1)] reply(3) by (simp add: is_v6_def)
  obtain i where i: "table t i = Some m" using m by (auto simp: flow_mapping_def tu)
  have x: "external_addr (is_v6 rhdr) t = Some (ip_dst rhdr)"
    using external_addr_env [of u s "is_v6 hdr"] k e v dst unfolding tu external_addr_counters by (simp add: keeps_def)
  have mm: "m_owner m = peer" "m_proto m = proto" "m_internal m = (ip_src hdr, near)" "(ip_dst hdr, far) \<in> remote_key ` set (m_remotes m)"
    using m by (simp_all add: flow_mapping_def)
  have "fam m = is_v6 rhdr" using mm v by (simp add: fam_def is_v6_def)
  from downlink_delivers [OF t reply(1) x i this, of far w] show ?thesis using reply(2,3,5) mm port by simp
qed

lemma create_preserves:
  assumes inv: "nat_inv s" and d: "draw_in_range (w_draw w)" and room: "\<not> at_cap peer proto s"
    and free: "snd internal \<in> pa_free_set (n_ports s (is_ipv6 (fst internal)) proto)"
  shows "\<exists>t i m. create_mapping w peer proto internal now s = (t, Ok i) \<and> n_mappings t i = Some m \<and> m_external_port m = snd internal \<and>
    m_proto m = proto \<and> \<not> m_pinned m"
proof -
  let ?a = "n_ports s (is_ipv6 (fst internal)) proto"
  have ev: "evict peer proto s = s" using room by (simp add: evict_def)
  obtain a' where al: "alloc (w_draw w) ?a (Some (snd internal)) (n_rng s) = (a', n_rng s, Some (snd internal))"
    using pa.give_pref [OF ports_okD(1) [OF nat_invD(5) [OF inv]] d free] by blast
  let ?t = "installed (fresh_mapping peer proto internal (snd internal) now False) a' (n_rng s) now s"
  have c: "create_mapping w peer proto internal now s = (?t, Ok (n_next_id s))"
    using room al by (simp add: create_mapping_eq ev Let_def)
  have "table ?t (n_next_id s) = Some (fresh_mapping peer proto internal (snd internal) now False)" by simp
  then obtain m where "n_mappings ?t (n_next_id s) = Some m" "fresh_mapping peer proto internal (snd internal) now False = strip m"
    by (rule table_SomeE)
  moreover from this have "m_external_port m = snd internal \<and> m_proto m = proto \<and> \<not> m_pinned m"
    by (metis fresh_mapping_simps strip_simps)
  ultimately show ?thesis using c by blast
qed

lemma external_addr_family: "external_addr v6 s = Some a \<Longrightarrow> is_ipv6 a = v6"
  by (auto simp: external_addr_def split: if_splits)

lemma new_flow_carried:
  assumes inv: "nat_inv s" and d: "draw_in_range (w_draw w)"
    and pkt: "parse_ip pkt = Ok hdr" "flow_id pkt hdr Source = Some (proto, near, far)"
      "ip_l4_offset hdr + transport_min proto \<le> ip_total_len hdr"
    and own: "n_ownership s (ip_src hdr) = Some peer" and ext: "external_addr (is_v6 hdr) s = Some external"
    and new: "n_outbound s (proto, ip_src hdr, near) = None" and room: "count_of s (peer, proto) < peer_cap (n_config s) proto"
    and free: "near \<in> spaces s (is_v6 hdr) proto" "near \<notin> used_ports s (is_v6 hdr) proto"
      "\<not> is_reserved (n_ports s (is_v6 hdr) proto) near"
  shows "\<exists>t p. translate_uplink w peer pkt now s = (t, Ok p) \<and> parse_ip p = Ok (set_endpoint Source external hdr) \<and>
    flow_id p (set_endpoint Source external hdr) Source = Some (proto, near, far) \<and>
    (\<exists>i m. table t i = Some m \<and> m_proto m = proto \<and> \<not> m_pinned m) \<and> n_exit t = n_exit s"
proof -
  note P = ports_okD [OF nat_invD(5) [OF inv]]
  obtain flags where c: "classify pkt hdr Source = Ok (Some (proto, near, far, flags))" using flow_classified [OF pkt] by blast
  have u: "uplink w peer pkt now s = uplink_flow w peer pkt hdr external proto near far flags now s"
    using uplink_classified [OF pkt(1) ext own, of w now] c by (simp add: class_case_def)
  have "near \<in> pa_free_set (n_ports s (is_v6 hdr) proto)"
    using P(2) [of "is_v6 hdr" proto] free by (auto simp: pa.held_def spaces_def pa_pinned_def)
  moreover have "\<not> at_cap peer proto s" using room by (simp add: at_cap_def)
  ultimately obtain s1 i m where m: "create_mapping w peer proto (ip_src hdr, near) now s = (s1, Ok i)"
      "n_mappings s1 i = Some m" "m_external_port m = near" "m_proto m = proto" "\<not> m_pinned m"
    using create_preserves [OF inv d, of peer proto "(ip_src hdr, near)" now] by (auto simp: is_v6_def)
  have m1: "mapping_for_uplink w peer proto (ip_src hdr, near) now s = (s1, Ok i)" using m(1) new by (simp add: mapping_for_uplink_def)
  have inv1: "nat_inv s1" "env_of s1 = env_of s" using mapping_for_uplink_ok [OF inv d m1] by blast+
  let ?s2 = "touch_uplink i (ip_dst hdr) far flags now s1"
  obtain rs where tb: "table ?s2 i = Some ((strip m)\<lparr>m_remotes := rs, m_last_seen := now\<rparr>)" and env: "env_of ?s2 = env_of s1"
    using touch_uplink_touched [OF inv1(1) m(2), of "ip_dst hdr" far flags now] table_Some [OF m(2)] by (auto simp: touched_def)
  then obtain m2 where m2: "n_mappings ?s2 i = Some m2" "strip m2 = (strip m)\<lparr>m_remotes := rs, m_last_seen := now\<rparr>"
    by (auto elim!: table_SomeE)
  have port: "m_external_port m2 = near" using arg_cong [OF m2(2), of m_external_port] m(3) by simp
  obtain p where p: "rewrite_endpoint (eng_inc (w_engine w)) pkt hdr Source external (Some near) = Ok p"
    using rewrite_succeeds [OF pkt external_addr_family [OF ext]] by blast
  have "uplink w peer pkt now s = (?s2, Ok p)"
    using m1 m2(1) port p by (simp add: u uplink_flow_def external_port_def rewriting_def)
  moreover have "\<exists>m. table ?s2 i = Some m \<and> m_proto m = proto \<and> \<not> m_pinned m" using tb m(4,5) by simp
  ultimately show ?thesis using rewrite_flow [OF pkt(1) p pkt(2)] env_ofD(3) [OF env] env_ofD(3) [OF inv1(2)]
    by (auto simp: translate_uplink_Ok)
qed

end
