(* ===== verification/Napt_Properties.thy ===== *)
theory Napt_Properties
  imports Napt_Reach
begin

text \<open>
  The properties of the translator, over the states its runs reach, with closed instances on a small
  configuration and one UDP exchange.
\<close>

section \<open>A small translator and one exchange\<close>

definition small_config :: nat_config where
  "small_config = nat_config_default\<lparr>nc_pool := (40000, 40003), nc_per_peer_mappings := 2\<rparr>"

definition sample_world :: "unit world" where
  "sample_world = \<lparr>w_engine = sum_engine, w_draw = (\<lambda>g n. (0, g)), w_order = (\<lambda>xs. xs)\<rparr>"

definition sample_epoch :: "u8 \<Rightarrow> epoch_id" where
  "sample_epoch exit = \<lparr>ep_exit = [exit], ep_generation = 1\<rparr>"

text \<open>Peer 1 owns every address, the external address is 10.66.0.2.\<close>

definition sample_nat :: "unit napt" where
  "sample_nat = set_external sample_world (sample_epoch 1) 172097538 None (set_ownership (\<lambda>_. Some 1) (with_rng small_config ()))"

text \<open>The answer to \<open>sample_udp\<close>, from 1.1.1.1 port 53 to 10.66.0.2 port 40000.\<close>

definition sample_answer :: bytes where
  "sample_answer = [0x45, 0, 0, 28, 0, 0, 0, 0, 64, 17, 0x6f, 0x7b, 1, 1, 1, 1, 10, 66, 0, 2,
     0, 53, 0x9c, 0x40, 0, 8, 0, 0]"

definition sample_answer_hdr :: ip_header where
  "sample_answer_hdr = \<lparr>ip_src = V4 16843009, ip_dst = V4 172097538, ip_protocol = 17, ip_l4_offset = 20, ip_total_len = 28\<rparr>"

lemma sample_world_ok: "world_ok sample_world"
  by (simp add: world_ok_def walks_def draw_in_range_def sample_world_def)

lemma sample_run: "nat_run sample_world small_config 0 sample_nat"
  unfolding sample_nat_def by (intro run_step [OF _ step_set_external] run_step [OF _ step_set_ownership] run_start)

lemma sample_nat_eq:
  "sample_nat = (with_rng small_config ())\<lparr>n_ownership := (\<lambda>_. Some 1), n_exit := Some [1],
     n_epoch := Some (sample_epoch 1), n_v4 := Some 172097538, n_v6 := None\<rparr>"
  by (simp add: sample_nat_def set_external_def set_ownership_def Let_def flush_family_def doomed_def mapping_ids_def with_rng_def
      sample_world_def sample_epoch_def)

lemma sample_fields:
  "table sample_nat = Map.empty" "n_ownership sample_nat a = Some 1" "external_addr False sample_nat = Some (V4 172097538)"
  "n_outbound sample_nat = Map.empty" "count_of sample_nat key = 0" "used_ports sample_nat v6 proto = {}"
  "n_ports sample_nat False Udp = pa_ports 40000 40003"
proof -
  show tb: "table sample_nat = Map.empty" by (simp add: sample_nat_eq table_def with_rng_def fun_eq_iff)
  show "used_ports sample_nat v6 proto = {}" by (simp add: used_ports_def tb)
qed (simp_all add: sample_nat_eq with_rng_def external_addr_def count_of_def small_config_def)

lemma sample_udp_flow: "flow_id sample_udp sample_udp_hdr Source = Some (Udp, 40000, 53)"
  by (simp add: flow_id_def sample_udp_hdr_def sample_udp_def eval_simps)

lemma sample_answer_flow:
  "parse_ip sample_answer = Ok sample_answer_hdr" "flow_id sample_answer sample_answer_hdr Destination = Some (Udp, 40000, 53)"
  by (simp_all add: flow_id_def sample_answer_hdr_def sample_answer_def eval_simps)

lemma sample_port:
  "40000 \<in> external_range small_config Udp" "\<not> is_reserved (n_ports sample_nat False Udp) 40000" "\<not> is_v6 sample_udp_hdr"
  "ip_l4_offset sample_udp_hdr + transport_min Udp \<le> ip_total_len sample_udp_hdr" "0 < peer_cap small_config Udp"
  by (simp_all add: external_range_def small_config_def is_control_def CONTROL_RANGE_START_def CONTROL_RANGE_END_def
      sample_fields is_reserved_def reserved_at_def pa_ports_def build_def Let_def nat_config_default_def is_v6_def
      sample_udp_hdr_def peer_cap_def port_range_facts split: option.split)

lemma sample_uplink:
  "\<exists>t p. translate_uplink sample_world 1 sample_udp 10 sample_nat = (t, Ok p) \<and>
     parse_ip p = Ok (set_endpoint Source (V4 172097538) sample_udp_hdr) \<and>
     flow_id p (set_endpoint Source (V4 172097538) sample_udp_hdr) Source = Some (Udp, 40000, 53) \<and>
     nat_run sample_world small_config 10 t \<and>
     (\<exists>i m. table t i = Some m \<and> \<not> m_pinned m \<and> m_proto m = Udp) \<and> n_exit t = Some [1]"
proof -
  note r = nat_run_at [OF sample_world_ok sample_run le0]
  obtain t p where t: "translate_uplink sample_world 1 sample_udp 10 sample_nat = (t, Ok p)"
    "parse_ip p = Ok (set_endpoint Source (V4 172097538) sample_udp_hdr)"
    "flow_id p (set_endpoint Source (V4 172097538) sample_udp_hdr) Source = Some (Udp, 40000, 53)"
    "\<exists>i m. table t i = Some m \<and> \<not> m_pinned m \<and> m_proto m = Udp" "n_exit t = n_exit sample_nat"
    using new_flow_carried [OF r(1,3) parse_sample_udp sample_udp_flow, of 1 "V4 172097538" 10] sample_port sample_fields r(5,6)
    by auto
  have "nat_step sample_world 0 sample_nat 10 t"
    using step_uplink [of 0 10 sample_world sample_nat 1 sample_udp] t(1) by simp
  then show ?thesis using t run_step [OF sample_run] by (simp add: sample_nat_eq)
qed

lemma sample_mapping:
  "\<exists>t i m. nat_run sample_world small_config 10 t \<and> table t i = Some m \<and> \<not> m_pinned m \<and> m_proto m = Udp \<and> n_exit t = Some [1]"
  using sample_uplink by blast

lemma sample_exchange:
  "\<exists>s t q out. nat_run sample_world small_config 10 s \<and> translate_downlink sample_world sample_answer 20 s = (t, Ok (q, out))"
proof -
  obtain t p where t: "translate_uplink sample_world 1 sample_udp 10 sample_nat = (t, Ok p)"
    "parse_ip p = Ok (set_endpoint Source (V4 172097538) sample_udp_hdr)"
    "flow_id p (set_endpoint Source (V4 172097538) sample_udp_hdr) Source = Some (Udp, 40000, 53)"
    "nat_run sample_world small_config 10 t" using sample_uplink by blast
  note r = nat_run_at [OF sample_world_ok sample_run le0] and r' = nat_run_at [OF sample_world_ok t(4), of 20]
  have "10 \<le> (20 :: instant)" by simp
  from reply_delivered [OF r(1-3) t(1) r'(1,2) [OF this] parse_sample_udp sample_udp_flow t(2,3) sample_answer_flow]
  show ?thesis using t(4) by (auto simp: sample_udp_hdr_def sample_answer_hdr_def set_endpoint_def)
qed

lemma deadline_initial: "\<not> m_pinned m \<Longrightarrow> m_last_seen m + initial_timeout c (m_proto m) \<le> deadline_of c m"
proof -
  have "d \<le> foldl (\<lambda>d r. max d (rf_last_seen r + flow_timeout c (rf_state r))) d rs" for d rs
  proof (induction rs arbitrary: d)
    case (Cons r rs)
    from Cons [of "max d (rf_last_seen r + flow_timeout c (rf_state r))"] show ?case by simp
  qed simp
  then show "\<not> m_pinned m \<Longrightarrow> m_last_seen m + initial_timeout c (m_proto m) \<le> deadline_of c m"
    by (simp add: deadline_of_def)
qed

section \<open>Properties\<close>

text \<open>
  C6.  In every state the translator can reach, its indexes are exactly the inverses of its table,
  so no two mappings share an internal endpoint or an external port; the count of a peer's dynamic
  mappings is right and within the cap; the external ports of dynamic mappings are the ports its
  allocators hold, all inside the configured range; and the recency lists hold each dynamic mapping
  of their peer exactly once.
\<close>

theorem nat_tables_consistent:
  assumes "world_ok w" and "nat_run w config clock s"
  shows "inverse_of (n_outbound s) out_key (table s) \<and> inverse_of (n_inbound s) in_key (table s) \<and>
    (\<forall>peer proto. count_of s (peer, proto) = card (dyn s (peer, proto)) \<and> card (dyn s (peer, proto)) \<le> peer_cap config proto) \<and>
    (\<forall>v6 proto. used_ports s v6 proto = pa.held (n_ports s v6 proto) \<and> used_ports s v6 proto \<subseteq> external_range config proto) \<and>
    (\<exists>L. lists_ok s L \<and> (\<forall>key. set (L key) = dyn s key))"
proof -
  note r = nat_run_at [OF assms order_refl]
  note I = nat_invD [OF r(1)]
  have "used_ports s v6 proto \<subseteq> external_range config proto" for v6 proto
    using ports_okD(2) [OF I(5), of v6 proto] r(6) [of v6 proto] by (auto simp: pa.held_def spaces_def)
  then show ?thesis
    using I(2,3,4,6) ports_okD(2) [OF I(5)] r(5) by (simp add: index_ok_def counts_ok_def lru_ok_def caps_ok_def)
qed

theorem nat_tables_consistent_witness:
  "\<exists>t p. translate_uplink sample_world 1 sample_udp 10 sample_nat = (t, Ok p) \<and>
     inverse_of (n_inbound t) in_key (table t) \<and> card (dyn t (1, Udp)) \<le> 2"
proof -
  obtain t p where t: "translate_uplink sample_world 1 sample_udp 10 sample_nat = (t, Ok p)" "nat_run sample_world small_config 10 t"
    using sample_uplink by blast
  have "peer_cap small_config Udp = 2" by (simp add: peer_cap_def small_config_def)
  then show ?thesis using nat_tables_consistent [OF sample_world_ok t(2)] t(1) by metis
qed

text \<open>
  C1.  A packet translated for a peer came from an address that peer owns, and leaves with the
  external address as its source and nothing else of its header changed.  A flow packet leaves from
  the external port of a mapping of that peer for exactly its source endpoint, with the destination
  it was sent to among that mapping's remotes; an ICMP error quotes a packet of one of the peer's
  own mappings, and the quote is rewritten to the external endpoint of that mapping.
\<close>

theorem uplink_sound:
  assumes "world_ok w" and "nat_run w config clock s" and "clock \<le> now"
    and tr: "translate_uplink w peer pkt now s = (t, Ok p)"
  shows "\<exists>hdr external. parse_ip pkt = Ok hdr \<and> n_ownership s (ip_src hdr) = Some peer \<and>
    external_addr (is_v6 hdr) s = Some external \<and> parse_ip p = Ok (set_endpoint Source external hdr) \<and>
    ((\<exists>proto near far m. flow_id pkt hdr Source = Some (proto, near, far) \<and>
        flow_mapping peer proto (ip_src hdr, near) (ip_dst hdr, far) t m \<and>
        flow_id p (set_endpoint Source external hdr) Source = Some (proto, m_external_port m, far)) \<or>
     (\<exists>q m. error_mapping Source pkt hdr s q m \<and> m_owner m = peer \<and>
        requotes Source external (m_external_port m) pkt hdr q p))"
proof -
  note r = nat_run_at [OF assms(1-3)]
  obtain u where u: "uplink w peer pkt now s = (u, Ok p)" and t: "t = u\<lparr>n_counters := count_uplink_translated (n_counters u)\<rparr>"
    using tr by (auto simp: translate_uplink_Ok)
  show ?thesis
  proof (rule uplink_cases [of w peer pkt now s])
    fix hdr external proto near far flags
    assume h: "parse_ip pkt = Ok hdr" "flow_id pkt hdr Source = Some (proto, near, far)"
      and e: "external_addr (is_v6 hdr) s = Some external" "n_ownership s (ip_src hdr) = Some peer"
      and c: "uplink w peer pkt now s = uplink_flow w peer pkt hdr external proto near far flags now s"
    obtain m where "parse_ip p = Ok (set_endpoint Source external hdr)"
      "flow_mapping peer proto (ip_src hdr, near) (ip_dst hdr, far) u m"
      "flow_id p (set_endpoint Source external hdr) Source = Some (proto, m_external_port m, far)"
      using uplink_flow_ok [OF r(1-3) h u [unfolded c]] by auto
    then show ?thesis using h e unfolding t flow_mapping_counters by blast
  next
    fix hdr external
    assume h: "parse_ip pkt = Ok hdr" "icmp_family hdr"
      and e: "external_addr (is_v6 hdr) s = Some external" "n_ownership s (ip_src hdr) = Some peer"
      and c: "uplink w peer pkt now s = uplink_error w peer pkt hdr external s"
    show ?thesis using uplink_error_ok [OF r(1) h u [unfolded c]] h e by (auto simp: requotes_def)
  qed (use u in simp)
qed

theorem uplink_sound_witness:
  "\<exists>t p m. translate_uplink sample_world 1 sample_udp 10 sample_nat = (t, Ok p) \<and>
     flow_mapping 1 Udp (V4 172163074, 40000) (V4 16843009, 53) t m"
proof -
  obtain t p where t: "translate_uplink sample_world 1 sample_udp 10 sample_nat = (t, Ok p)" using sample_uplink by blast
  obtain hdr where "parse_ip sample_udp = Ok hdr"
    "(\<exists>proto near far m. flow_id sample_udp hdr Source = Some (proto, near, far) \<and>
        flow_mapping 1 proto (ip_src hdr, near) (ip_dst hdr, far) t m) \<or> (\<exists>q m. error_mapping Source sample_udp hdr sample_nat q m)"
    using uplink_sound [OF sample_world_ok sample_run le0 t] by blast
  then show ?thesis using t sample_udp_flow sample_fields(1)
    by (auto simp: parse_sample_udp error_mapping_def) (auto simp: sample_udp_hdr_def)
qed

text \<open>
  C2.  A packet from the tunnel reaches a peer only through a mapping: it was sent to the external
  address, and either it is a flow packet to the external port of a mapping that is pinned or has
  its sender among the remotes the peer addressed, or it is an ICMP error that quotes a packet sent
  from that external port.  The packet handed on names the mapping's owner, and carries the
  mapping's internal endpoint as its destination (or as the source of its quote) and nothing else
  changed in its header.
\<close>

theorem downlink_sound:
  assumes "world_ok w" and "nat_run w config clock s" and "clock \<le> now"
    and tr: "translate_downlink w pkt now s = (t, Ok (p, out))"
  shows "\<exists>hdr m. parse_ip pkt = Ok hdr \<and> external_addr (is_v6 hdr) s = Some (ip_dst hdr) \<and> (\<exists>i. table s i = Some m) \<and>
    out = \<lparr>tr_peer = m_owner m, tr_destination = fst (m_internal m)\<rparr> \<and>
    parse_ip p = Ok (set_endpoint Destination (fst (m_internal m)) hdr) \<and>
    ((\<exists>far. flow_id pkt hdr Destination = Some (m_proto m, m_external_port m, far) \<and>
        (m_pinned m \<or> (ip_src hdr, far) \<in> remote_key ` set (m_remotes m)) \<and>
        flow_id p (set_endpoint Destination (fst (m_internal m)) hdr) Destination = Some (m_proto m, snd (m_internal m), far)) \<or>
     (\<exists>q. error_mapping Destination pkt hdr s q m \<and> requotes Destination (fst (m_internal m)) (snd (m_internal m)) pkt hdr q p))"
proof -
  note r = nat_run_at [OF assms(1-3)]
  obtain u where u: "downlink w pkt now s = (u, Ok (p, out))" using tr by (auto simp: translate_downlink_Ok)
  show ?thesis
  proof (rule downlink_cases [of w pkt now s])
    fix hdr proto near far flags
    assume h: "parse_ip pkt = Ok hdr" "flow_id pkt hdr Destination = Some (proto, near, far)"
      and e: "external_addr (is_v6 hdr) s = Some (ip_dst hdr)"
      and c: "downlink w pkt now s = downlink_flow w pkt hdr proto near far flags now s"
    obtain i m where "table s i = Some m" "m_proto m = proto" "m_external_port m = near"
      "m_pinned m \<or> (ip_src hdr, far) \<in> remote_key ` set (m_remotes m)"
      "out = \<lparr>tr_peer = m_owner m, tr_destination = fst (m_internal m)\<rparr>"
      "parse_ip p = Ok (set_endpoint Destination (fst (m_internal m)) hdr)"
      "flow_id p (set_endpoint Destination (fst (m_internal m)) hdr) Destination = Some (proto, snd (m_internal m), far)"
      using downlink_flow_ok [OF r(1,2) h u [unfolded c]] by auto
    then show ?thesis using h e by blast
  next
    fix hdr
    assume h: "parse_ip pkt = Ok hdr" "icmp_family hdr" and e: "external_addr (is_v6 hdr) s = Some (ip_dst hdr)"
      and c: "downlink w pkt now s = downlink_error w pkt hdr (ip_dst hdr) s"
    obtain m q where "error_mapping Destination pkt hdr s q m" "out = \<lparr>tr_peer = m_owner m, tr_destination = fst (m_internal m)\<rparr>"
      "requotes Destination (fst (m_internal m)) (snd (m_internal m)) pkt hdr q p"
      using downlink_error_ok [OF r(1) h u [unfolded c]] by auto
    then show ?thesis using h e by (intro exI [of _ hdr] exI [of _ m]) (auto simp: requotes_def error_mapping_def)
  qed (use u in simp)
qed

theorem downlink_sound_witness:
  "\<exists>s t q out m. nat_run sample_world small_config 10 s \<and> translate_downlink sample_world sample_answer 20 s = (t, Ok (q, out)) \<and>
     (\<exists>i. table s i = Some m) \<and> out = \<lparr>tr_peer = m_owner m, tr_destination = fst (m_internal m)\<rparr>"
proof -
  obtain s t q out where s: "nat_run sample_world small_config 10 s"
    "translate_downlink sample_world sample_answer 20 s = (t, Ok (q, out))" using sample_exchange by blast
  then show ?thesis using downlink_sound [OF sample_world_ok s(1) _ s(2)] by fastforce
qed

text \<open>
  C7.  No peer reaches into another's mappings: a packet of a peer, even one that makes the
  translator evict a mapping, changes no mapping of another peer and opens none for another peer; a
  packet delivered to a peer changes that peer's mappings only; and forgetting a peer touches no
  other.  No packet, however malformed, makes a translation panic.
\<close>

theorem peer_isolation:
  assumes "world_ok w" and "nat_run w config clock s" and "clock \<le> now"
  shows "only_peer peer s (fst (translate_uplink w peer pkt now s)) \<and> only_peer peer s (flush_peer w peer s) \<and>
    (\<forall>t p out. translate_downlink w pkt now s = (t, Ok (p, out)) \<longrightarrow> only_peer (tr_peer out) s t) \<and>
    snd (translate_uplink w peer pkt now s) \<noteq> Panic \<and> snd (translate_downlink w pkt now s) \<noteq> Panic"
proof (intro conjI allI impI)
  note r = nat_run_at [OF assms]
  have cnt: "only_peer q a (b\<lparr>n_counters := c\<rparr>) = only_peer q a b" for q a b c by (simp add: only_peer_def)
  obtain u x where u: "uplink w peer pkt now s = (u, x)" by force
  show "only_peer peer s (fst (translate_uplink w peer pkt now s))" "snd (translate_uplink w peer pkt now s) \<noteq> Panic"
    using uplink_ok [OF r(1-3) u] u by (cases x; auto simp: translate_uplink_def cnt)+
  show "only_peer peer s (flush_peer w peer s)"
    by (auto simp: only_peer_def flush_peer_ok(4) [OF r(1,4)] split: option.splits if_splits)
  obtain v y where v: "downlink w pkt now s = (v, y)" by force
  show "snd (translate_downlink w pkt now s) \<noteq> Panic"
    using downlink_ok [OF r(1,2) v] v by (cases y) (auto simp: translate_downlink_def)
  fix t p out assume "translate_downlink w pkt now s = (t, Ok (p, out))"
  then obtain u' where d: "downlink w pkt now s = (u', Ok (p, out))" and t: "only_peer (tr_peer out) s t = only_peer (tr_peer out) s u'"
    by (auto simp: translate_downlink_Ok cnt)
  have "only_peer (tr_peer out) s u'"
  proof (rule downlink_cases [of w pkt now s])
    fix hdr proto near far flags
    assume h: "parse_ip pkt = Ok hdr" "flow_id pkt hdr Destination = Some (proto, near, far)"
      and c: "downlink w pkt now s = downlink_flow w pkt hdr proto near far flags now s"
    show ?thesis using downlink_flow_ok [OF r(1,2) h d [unfolded c]] by auto
  next
    fix hdr
    assume h: "parse_ip pkt = Ok hdr" "icmp_family hdr" and c: "downlink w pkt now s = downlink_error w pkt hdr (ip_dst hdr) s"
    show ?thesis using downlink_error_ok [OF r(1) h d [unfolded c]] by simp
  qed (use d in simp)
  then show "only_peer (tr_peer out) s t" using t by simp
qed

theorem peer_isolation_witness:
  "\<exists>s. nat_run sample_world small_config 10 s \<and> only_peer 2 s (fst (translate_uplink sample_world 2 sample_udp 20 s)) \<and>
     snd (translate_uplink sample_world 2 sample_udp 20 s) \<noteq> Panic"
proof -
  obtain t where t: "nat_run sample_world small_config 10 t" using sample_uplink by blast
  then show ?thesis using peer_isolation [OF sample_world_ok t, of 20 2 sample_udp] by auto
qed

text \<open>
  C5.  A reply finds its way back.  Once a flow packet of a peer was translated, a packet from the
  remote it was sent to, to the external address and port it left from, is delivered to that peer
  with the original source address and port as its destination, whatever the reply carries.
\<close>

theorem reply_returns:
  assumes "world_ok w" and run: "nat_run w config clock s" and "clock \<le> now" and later: "now \<le> now'"
    and tr: "translate_uplink w peer pkt now s = (t, Ok p)"
    and pkt: "parse_ip pkt = Ok hdr" "flow_id pkt hdr Source = Some (proto, near, far)"
    and out: "parse_ip p = Ok hdr'" "flow_id p hdr' Source = Some (proto, port, far)"
    and reply: "parse_ip rp = Ok rhdr" "flow_id rp rhdr Destination = Some (proto, port, far)"
      "ip_src rhdr = ip_dst hdr" "ip_dst rhdr = ip_src hdr'"
      "ip_l4_offset rhdr + transport_min proto \<le> ip_total_len rhdr"
  shows "\<exists>t' q. translate_downlink w rp now' t = (t', Ok (q, \<lparr>tr_peer = peer, tr_destination = ip_src hdr\<rparr>)) \<and>
    parse_ip q = Ok (set_endpoint Destination (ip_src hdr) rhdr) \<and>
    flow_id q (set_endpoint Destination (ip_src hdr) rhdr) Destination = Some (proto, near, far)"
proof -
  note r = nat_run_at [OF assms(1-3)]
  have "nat_inv t" "queued now' t"
    using nat_ok_at [OF nat_ok_uplink [OF nat_run_ok [OF run assms(1)] assms(3) r(3)] later, of peer pkt] tr by simp_all
  from reply_delivered [OF r(1-3) tr this pkt out reply] show ?thesis .
qed

theorem reply_returns_witness:
  "\<exists>t p t' q. translate_uplink sample_world 1 sample_udp 10 sample_nat = (t, Ok p) \<and>
     translate_downlink sample_world sample_answer 20 t = (t', Ok (q, \<lparr>tr_peer = 1, tr_destination = V4 172163074\<rparr>))"
proof -
  obtain t p where t: "translate_uplink sample_world 1 sample_udp 10 sample_nat = (t, Ok p)"
    "parse_ip p = Ok (set_endpoint Source (V4 172097538) sample_udp_hdr)"
    "flow_id p (set_endpoint Source (V4 172097538) sample_udp_hdr) Source = Some (Udp, 40000, 53)" using sample_uplink by blast
  then show ?thesis
    using reply_returns [OF sample_world_ok sample_run _ _ t(1) parse_sample_udp sample_udp_flow t(2,3) sample_answer_flow, of 20]
    by (auto simp: sample_udp_hdr_def sample_answer_hdr_def set_endpoint_def)
qed

text \<open>
  C36.  A new flow is carried, on its own port when that is free.  A complete flow packet from an
  address of the peer, for an endpoint without a mapping, with the peer below its cap and its source
  port in the range, neither in use nor pinned, is translated, and leaves from that same port.
\<close>

theorem port_preserved:
  assumes "world_ok w" and "nat_run w config clock s" and "clock \<le> now"
    and pkt: "parse_ip pkt = Ok hdr" "flow_id pkt hdr Source = Some (proto, near, far)"
      "ip_l4_offset hdr + transport_min proto \<le> ip_total_len hdr"
    and own: "n_ownership s (ip_src hdr) = Some peer" and ext: "external_addr (is_v6 hdr) s = Some external"
    and new: "n_outbound s (proto, ip_src hdr, near) = None" and room: "count_of s (peer, proto) < peer_cap config proto"
    and free: "near \<in> external_range config proto" "near \<notin> used_ports s (is_v6 hdr) proto"
      "\<not> is_reserved (n_ports s (is_v6 hdr) proto) near"
  shows "\<exists>t p. translate_uplink w peer pkt now s = (t, Ok p) \<and> parse_ip p = Ok (set_endpoint Source external hdr) \<and>
    flow_id p (set_endpoint Source external hdr) Source = Some (proto, near, far)"
proof -
  note r = nat_run_at [OF assms(1-3)]
  show ?thesis using new_flow_carried [OF r(1,3) pkt own ext new] room free r(5,6) by fastforce
qed

theorem port_preserved_witness:
  "\<exists>t p. translate_uplink sample_world 1 sample_udp 10 sample_nat = (t, Ok p) \<and>
     flow_id p (set_endpoint Source (V4 172097538) sample_udp_hdr) Source = Some (Udp, 40000, 53)"
  using port_preserved [OF sample_world_ok sample_run _ parse_sample_udp sample_udp_flow, of 10 1 "V4 172097538"]
    sample_port sample_fields by auto

text \<open>
  C37.  A change of exit or of external address forgets exactly the dynamic mappings of the families
  it concerns: those of both families when the exit differs, and otherwise those of a family whose
  address differs.  Pinned forwards and every other mapping stay as they are, and the new addresses
  are in force.
\<close>

theorem set_external_flushes:
  assumes "world_ok w" and "nat_run w config clock s" and t: "t = set_external w epoch v4 v6 s"
  shows "(\<forall>i. table t i = (case table s i of None \<Rightarrow> None
      | Some m \<Rightarrow> if \<not> m_pinned m \<and> (n_exit s \<noteq> Some (ep_exit epoch) \<or> (if fam m then n_v6 s \<noteq> v6 else n_v4 s \<noteq> Some v4))
                then None else Some m)) \<and>
    n_exit t = Some (ep_exit epoch) \<and> n_epoch t = Some epoch \<and> external_addr False t = Some (V4 v4) \<and>
    external_addr True t = map_option V6 v6"
proof -
  note r = nat_run_at [OF assms(1,2) order_refl]
  have "n_exit t = Some (ep_exit epoch)" "n_epoch t = Some epoch" "n_v4 t = Some v4" "n_v6 t = v6"
    by (simp_all add: t set_external_def Let_def)
  then show ?thesis using set_external_ok(6) [OF r(1,4) t, unfolded stale_def] by (simp add: external_addr_def)
qed

theorem set_external_flushes_witness:
  "\<exists>s i. nat_run sample_world small_config 10 s \<and> table s i \<noteq> None \<and>
     table (set_external sample_world (sample_epoch 2) 172097538 None s) i = None"
proof -
  obtain t p m i where t: "nat_run sample_world small_config 10 t" "table t i = Some m" "\<not> m_pinned m" "n_exit t = Some [1]"
    using sample_mapping by blast
  then show ?thesis using set_external_flushes [OF sample_world_ok t(1) refl, of "sample_epoch 2" 172097538 None]
    by (intro exI [of _ t] exI [of _ i]) (simp add: sample_epoch_def)
qed

text \<open>
  A mapping with nothing left to wait for: neither the mapping, by the shortest timeout of its
  protocol, nor any of its flows, by the timeout of the state the flow is in, saw a packet lately.
\<close>

definition idle_out :: "nat_config \<Rightarrow> instant \<Rightarrow> mapping \<Rightarrow> bool" where
  "idle_out c now m \<longleftrightarrow>
     m_last_seen m + (case m_proto m of Tcp \<Rightarrow> nc_tcp_syn c | Udp \<Rightarrow> nc_udp_initial c | Icmp \<Rightarrow> nc_icmp c) \<le> now \<and>
     (\<forall>f \<in> set (m_remotes m). rf_last_seen f +
        (case rf_state f of
           UdpOneWay \<Rightarrow> nc_udp_initial c
         | UdpAnswered \<Rightarrow> nc_udp_established c
         | TcpSyn \<Rightarrow> nc_tcp_syn c
         | TcpEstablished \<Rightarrow> nc_tcp_established c
         | TcpClosed \<Rightarrow> nc_tcp_closing c
         | IcmpFlow \<Rightarrow> nc_icmp c) \<le> now)"

lemma foldl_max_le:
  "foldl (\<lambda>d r. max d (g r)) (d :: nat) rs \<le> b \<longleftrightarrow> d \<le> b \<and> (\<forall>r \<in> set rs. g r \<le> b)"
  by (induction rs arbitrary: d) auto

lemma deadline_idle_out: "\<not> m_pinned m \<Longrightarrow> deadline_of c m \<le> now \<longleftrightarrow> idle_out c now m"
proof -
  have "flow_timeout c st =
      (case st of UdpOneWay \<Rightarrow> nc_udp_initial c | UdpAnswered \<Rightarrow> nc_udp_established c | TcpSyn \<Rightarrow> nc_tcp_syn c
       | TcpEstablished \<Rightarrow> nc_tcp_established c | TcpClosed \<Rightarrow> nc_tcp_closing c | IcmpFlow \<Rightarrow> nc_icmp c)" for st
    by (cases st) simp_all
  moreover have "initial_timeout c p = (case p of Tcp \<Rightarrow> nc_tcp_syn c | Udp \<Rightarrow> nc_udp_initial c | Icmp \<Rightarrow> nc_icmp c)" for p
    by (cases p) simp_all
  ultimately show "\<not> m_pinned m \<Longrightarrow> ?thesis" by (simp add: deadline_of_def idle_out_def foldl_max_le)
qed

text \<open>
  C38.  The sweep takes nothing that is in use.  It creates and changes no mapping; a dynamic mapping it
  removes was idle past its protocol's timeout and so was every flow of it, each by the timeout of
  its state; a pinned forward it removes had seen no packet for a day.  It says how many went, and
  ends with nothing due left in its queue.
\<close>

theorem sweep_removes_expired:
  assumes "world_ok w" and "nat_run w config clock s" and "clock \<le> now" and t: "sweep now s = (t, n)"
  shows "(\<forall>i m. table t i = Some m \<longrightarrow> table s i = Some m) \<and>
    (\<forall>i m. table s i = Some m \<and> table t i = None \<longrightarrow>
       (if m_pinned m then m_last_seen m + 86400 * 1000000000 \<le> now else idle_out config now m)) \<and>
    card {i. table s i \<noteq> None} = card {i. table t i \<noteq> None} + n \<and> due now t = 0"
proof -
  note r = nat_run_at [OF assms(1-3)]
  have w: "swept now s t n" using sweep_ok [OF r(1), of now] t by simp
  have "\<forall>e\<in>set (n_expiry t). now < fst e" using sweep_queued [OF r(2)] t by simp
  then have "due now t = 0" by (auto simp: due_def filter_empty_conv)
  moreover have "if m_pinned m then m_last_seen m + 86400 * 1000000000 \<le> now else idle_out config now m"
    if "table s i = Some m" "table t i = None" for i m
  proof -
    have "deadline_of config m \<le> now"
      using sweptD(4) [OF w that(1)] that(2) r(5) by (cases "now < deadline_of config m") auto
    then show ?thesis
      using deadline_idle_out [of m config now] by (cases "m_pinned m") (simp_all add: deadline_of_def secs_def)
  qed
  ultimately show ?thesis using sweptD(3,5) [OF w] by blast
qed

theorem sweep_removes_expired_witness:
  "\<exists>s t n i m. nat_run sample_world small_config 10 s \<and> sweep 20 s = (t, n) \<and> table s i = Some m \<and>
     \<not> m_pinned m \<and> \<not> idle_out small_config 20 m \<and> table t i = Some m \<and>
     card {i. table s i \<noteq> None} = card {i. table t i \<noteq> None} + n"
proof -
  obtain s m i where s: "nat_run sample_world small_config 10 s" "table s i = Some m" "\<not> m_pinned m" "m_proto m = Udp"
    using sample_mapping by blast
  obtain t n where t: "sweep 20 s = (t, n)" by force
  have busy: "\<not> idle_out small_config 20 m"
    using s(4) by (simp add: idle_out_def small_config_def nat_config_default_def secs_def)
  note x = sweep_removes_expired [OF sample_world_ok s(1) _ t]
  then have "table t i = Some m" using s(2,3) busy by (cases "table t i") fastforce+
  then show ?thesis using x s t busy by fastforce
qed

text \<open>
  C39.  Nothing is kept for ever: whatever happened before, a sweep leaves no dynamic mapping that has
  seen no packet for the longest timeout of the configuration.
\<close>

theorem sweep_bounds_idle:
  assumes "world_ok w" and "nat_run w config clock s" and "clock \<le> now" and t: "sweep now s = (t, n)"
    and m: "table t i = Some m" "\<not> m_pinned m"
  shows "now < m_last_seen m + longest config \<and> m_last_seen m \<le> now"
proof -
  note r = nat_run_at [OF assms(1-3)]
  have w: "swept now s t n" using sweep_ok [OF r(1), of now] t by simp
  have "n_config t = config" using env_ofD(1) [OF sweptD(1) [OF w]] r(5) by simp
  moreover have "m_last_seen m \<le> now" using queuedD(1) [OF r(2) sweptD(3) [OF w m(1)]] .
  ultimately show ?thesis using sweep_idle [OF r(2), of i m] m t by simp
qed

theorem sweep_bounds_idle_witness:
  "\<exists>s t n i m. nat_run sample_world small_config 10 s \<and> sweep 20 s = (t, n) \<and> table t i = Some m \<and>
     20 < m_last_seen m + longest small_config"
proof -
  obtain s m i where s: "nat_run sample_world small_config 10 s" "table s i = Some m" "\<not> m_pinned m" "m_proto m = Udp"
    using sample_mapping by blast
  obtain t n where t: "sweep 20 s = (t, n)" by force
  note r = nat_run_at [OF sample_world_ok s(1), of 20]
  have "20 < deadline_of small_config m" using deadline_initial [OF s(3), of small_config] s(4)
    by (simp add: small_config_def nat_config_default_def secs_def)
  then have "table t i = Some m" using sweep_ok [of s 20] r t sweptD(4) [of 20 s t n i m] s(2) by simp
  then show ?thesis using sweep_bounds_idle [OF sample_world_ok s(1) _ t _ s(3)] s t by fastforce
qed

end
