(* ===== verification/Text.thy ===== *)
theory Text
  imports Prelude
begin

text \<open>
  The functions of Rust's \<open>str\<close> that the configuration code uses.  A \<open>str\<close> is its UTF-8 bytes, and
  a white space character the encoding of a code point with the Unicode property \<open>White_Space\<close>.
\<close>

section \<open>Definitions\<close>

definition asc :: "string \<Rightarrow> bytes" where
  "asc s = map of_char s"

definition NL :: u8 where "NL = 10"

definition white_space :: "bytes list" where
  "white_space =
     [[9], [10], [11], [12], [13], [32], [0xc2, 0x85], [0xc2, 0xa0], [0xe1, 0x9a, 0x80],
      [0xe2, 0x80, 0x80], [0xe2, 0x80, 0x81], [0xe2, 0x80, 0x82], [0xe2, 0x80, 0x83], [0xe2, 0x80, 0x84],
      [0xe2, 0x80, 0x85], [0xe2, 0x80, 0x86], [0xe2, 0x80, 0x87], [0xe2, 0x80, 0x88], [0xe2, 0x80, 0x89],
      [0xe2, 0x80, 0x8a], [0xe2, 0x80, 0xa8], [0xe2, 0x80, 0xa9], [0xe2, 0x80, 0xaf], [0xe2, 0x81, 0x9f],
      [0xe3, 0x80, 0x80]]"

definition strip_prefix :: "bytes \<Rightarrow> bytes \<Rightarrow> bytes option" where
  "strip_prefix w xs = (if take (length w) xs = w then Some (drop (length w) xs) else None)"

definition strip_suffix :: "bytes \<Rightarrow> bytes \<Rightarrow> bytes option" where
  "strip_suffix w xs = map_option rev (strip_prefix (rev w) (rev xs))"

definition ws_front :: "bytes list \<Rightarrow> bytes \<Rightarrow> nat" where
  "ws_front ws xs = (case find (\<lambda>w. take (length w) xs = w) ws of None \<Rightarrow> 0 | Some w \<Rightarrow> length w)"

function trim_front :: "bytes list \<Rightarrow> bytes \<Rightarrow> bytes" where
  "trim_front ws xs = (let n = ws_front ws xs in if n = 0 \<or> xs = [] then xs else trim_front ws (drop n xs))"
  by pat_completeness auto
termination trim_front
  by (relation "measure (\<lambda>(ws, xs). length xs)") auto

declare trim_front.simps [simp del]

definition trim :: "bytes \<Rightarrow> bytes" where
  "trim xs = rev (trim_front (map rev white_space) (rev (trim_front white_space xs)))"

definition strip_cr :: "bytes \<Rightarrow> bytes" where
  "strip_cr xs = (if xs \<noteq> [] \<and> last xs = 13 then butlast xs else xs)"

fun lines_from :: "bytes \<Rightarrow> bytes \<Rightarrow> bytes list" where
  "lines_from acc [] = (if acc = [] then [] else [acc])"
| "lines_from acc (b # bs) = (if b = NL then strip_cr acc # lines_from [] bs else lines_from (acc @ [b]) bs)"

definition lines :: "bytes \<Rightarrow> bytes list" where
  "lines s = lines_from [] s"

fun split_once :: "u8 \<Rightarrow> bytes \<Rightarrow> (bytes \<times> bytes) option" where
  "split_once d [] = None"
| "split_once d (b # bs) = (if b = d then Some ([], bs) else map_option (\<lambda>(l, r). (b # l, r)) (split_once d bs))"

fun split_on :: "u8 \<Rightarrow> bytes \<Rightarrow> bytes list" where
  "split_on d [] = [[]]"
| "split_on d (b # bs) = (if b = d then [] # split_on d bs
     else (case split_on d bs of [] \<Rightarrow> [[b]] | l # ls \<Rightarrow> (b # l) # ls))"

definition lower :: "u8 \<Rightarrow> u8" where
  "lower b = (if 65 \<le> b \<and> b \<le> 90 then b + 32 else b)"

definition to_ascii_lowercase :: "bytes \<Rightarrow> bytes" where
  "to_ascii_lowercase = map lower"

definition eq_ignore_ascii_case :: "bytes \<Rightarrow> bytes \<Rightarrow> bool" where
  "eq_ignore_ascii_case a b \<longleftrightarrow> to_ascii_lowercase a = to_ascii_lowercase b"

fun join :: "bytes \<Rightarrow> bytes list \<Rightarrow> bytes" where
  "join sep [] = []"
| "join sep [x] = x"
| "join sep (x # y # ys) = x @ sep @ join sep (y # ys)"

definition line :: "bytes \<Rightarrow> bytes" where
  "line s = s @ [NL]"

fun show_nat :: "nat \<Rightarrow> bytes" where
  "show_nat n = (if n < 10 then [48 + of_nat n] else show_nat (n div 10) @ [48 + of_nat (n mod 10)])"

declare show_nat.simps [simp del]

section \<open>Trimming\<close>

text \<open>A text that neither begins nor ends with a byte of a white space character is left alone.\<close>

definition spacey :: "u8 \<Rightarrow> bool" where
  "spacey b \<longleftrightarrow> (\<exists>w\<in>set white_space. b \<in> set w)"

definition plain :: "u8 \<Rightarrow> bool" where
  "plain b \<longleftrightarrow> 33 \<le> b \<and> b \<le> 126"

lemma plain_not_spacey: "plain b \<Longrightarrow> \<not> spacey b"
proof -
  assume b: "plain b"
  have "\<forall>w\<in>set white_space. \<forall>x\<in>set w. x < 33 \<or> 126 < x" by (simp add: white_space_def)
  then show ?thesis using b unfolding plain_def spacey_def by (meson leD)
qed

lemma ws_front_plain:
  assumes "\<And>w. w \<in> set ws \<Longrightarrow> w \<noteq> [] \<and> (\<forall>x\<in>set w. spacey x)" and "xs = [] \<or> \<not> spacey (hd xs)"
  shows "ws_front ws xs = 0"
proof -
  have "take (length w) xs \<noteq> w" if "w \<in> set ws" for w
    using assms(1) [OF that] assms(2) by (cases w; cases xs) auto
  then have "find (\<lambda>w. take (length w) xs = w) ws = None" by (auto simp: find_None_iff)
  then show ?thesis by (simp add: ws_front_def)
qed

lemma spaces_spacey:
  "w \<in> set white_space \<Longrightarrow> w \<noteq> [] \<and> (\<forall>x\<in>set w. spacey x)"
  "w \<in> set (map rev white_space) \<Longrightarrow> w \<noteq> [] \<and> (\<forall>x\<in>set w. spacey x)"
proof -
  have "\<forall>w\<in>set white_space. w \<noteq> []" by (simp add: white_space_def)
  then show "w \<in> set white_space \<Longrightarrow> w \<noteq> [] \<and> (\<forall>x\<in>set w. spacey x)" for w by (auto simp: spacey_def)
  then show "w \<in> set (map rev white_space) \<Longrightarrow> w \<noteq> [] \<and> (\<forall>x\<in>set w. spacey x)" by auto
qed

lemma trim_front_plain:
  assumes "xs = [] \<or> \<not> spacey (hd xs)"
  shows "trim_front white_space xs = xs" "trim_front (map rev white_space) xs = xs"
proof -
  have "ws_front white_space xs = 0" using spaces_spacey(1) assms by (rule ws_front_plain)
  then show "trim_front white_space xs = xs" by (simp add: trim_front.simps [of white_space xs])
  have "ws_front (map rev white_space) xs = 0" using spaces_spacey(2) assms by (rule ws_front_plain)
  then show "trim_front (map rev white_space) xs = xs" by (simp add: trim_front.simps [of "map rev white_space" xs])
qed

lemma trim_plain:
  assumes "xs = [] \<or> \<not> spacey (hd xs) \<and> \<not> spacey (last xs)"
  shows "trim xs = xs"
  using trim_front_plain(1) [of xs] trim_front_plain(2) [of "rev xs"] assms by (auto simp: trim_def hd_rev)

lemma trim_blank_front:
  assumes "xs \<noteq> []" "\<not> spacey (hd xs)" "\<not> spacey (last xs)"
  shows "trim (32 # xs) = xs"
proof -
  have "ws_front white_space (32 # xs) = 1" by (simp add: ws_front_def white_space_def)
  then have "trim_front white_space (32 # xs) = xs"
    using trim_front_plain(1) [of xs] assms(2) by (simp add: trim_front.simps [of white_space "32 # xs"])
  then show ?thesis using trim_front_plain(2) [of "rev xs"] assms by (simp add: trim_def hd_rev)
qed

lemma trim_blank_back:
  assumes "xs \<noteq> []" "\<not> spacey (hd xs)" "\<not> spacey (last xs)"
  shows "trim (xs @ [32]) = xs"
proof -
  have "ws_front (map rev white_space) (32 # rev xs) = 1" by (simp add: ws_front_def white_space_def)
  then have "trim_front (map rev white_space) (32 # rev xs) = rev xs"
    using trim_front_plain(2) [of "rev xs"] assms
    by (simp add: trim_front.simps [of "map rev white_space" "32 # rev xs"] hd_rev)
  then show ?thesis using trim_front_plain(1) [of "xs @ [32]"] assms(1,2) by (simp add: trim_def)
qed

section \<open>Lines\<close>

lemma lines_from_line:
  assumes "NL \<notin> set s"
  shows "lines_from acc (s @ [NL] @ rest) = strip_cr (acc @ s) # lines_from [] rest"
  using assms by (induction s arbitrary: acc) auto

lemma lines_line:
  assumes "NL \<notin> set s" and "13 \<notin> set s"
  shows "lines (line s @ rest) = s # lines rest"
proof -
  have "strip_cr s = s" using assms(2) by (auto simp: strip_cr_def dest: last_in_set)
  then show ?thesis using lines_from_line [OF assms(1), of "[]" rest] by (simp add: lines_def line_def)
qed

lemma lines_Nil [simp]: "lines [] = []"
  by (simp add: lines_def)

lemma lines_concat:
  assumes "\<And>s. s \<in> set ls \<Longrightarrow> NL \<notin> set s \<and> 13 \<notin> set s"
  shows "lines (concat (map line ls)) = ls"
  using assms by (induction ls) (auto simp: lines_line)

section \<open>Splitting\<close>

lemma split_once_found: "d \<notin> set l \<Longrightarrow> split_once d (l @ d # r) = Some (l, r)"
  by (induction l) auto

lemma split_on_single: "d \<notin> set l \<Longrightarrow> split_on d l = [l]"
  by (induction l) auto

lemma split_on_append: "d \<notin> set l \<Longrightarrow> split_on d (l @ d # r) = l # split_on d r"
  by (induction l) auto

section \<open>Decimal numbers\<close>

lemma show_nat_digits: "b \<in> set (show_nat n) \<Longrightarrow> 48 \<le> b \<and> b \<le> 57"
proof (induction n rule: show_nat.induct)
  case (1 n)
  have d: "48 \<le> 48 + (of_nat k :: u8) \<and> 48 + (of_nat k :: u8) \<le> 57" if "k < 10" for k
  proof -
    have "unat (48 + (of_nat k :: u8)) = 48 + k" using that by (simp add: unat_word_ariths unat_of_nat)
    then show ?thesis using that by (simp add: word_le_nat_alt)
  qed
  show ?case using 1 d [of n] d [of "n mod 10"] by (auto simp: show_nat.simps [of n] split: if_splits)
qed

lemma show_nat_nonempty [simp]: "show_nat n \<noteq> []"
  by (simp add: show_nat.simps [of n])

end
