(* ===== verification/Conf.thy ===== *)
theory Conf
  imports Text Stats Peer_Plan
begin

text \<open>
  \<open>warren-bolthole-core/src/keys.rs\<close> and \<open>conf.rs\<close>: the keys of the gateway and its peers, the
  configuration file and its checks, and the artifacts rendered for a peer.  The crates \<open>base64\<close>,
  \<open>x25519_dalek\<close> and \<open>ip_network\<close> are the fields of the argument \<open>c :: codec\<close>.
\<close>

section \<open>Keys\<close>

record codec =
  cd_encode :: "bytes \<Rightarrow> bytes"
  cd_decode :: "bytes \<Rightarrow> bytes option"
  cd_secret :: "bytes \<Rightarrow> bytes"
  cd_public :: "bytes \<Rightarrow> bytes"
  cd_net_parse :: "bytes \<Rightarrow> ip_network option"
  cd_net_show :: "ip_network \<Rightarrow> bytes"
  cd_contains :: "ip_network \<Rightarrow> ip_addr \<Rightarrow> bool"
  cd_address :: "ip_network \<Rightarrow> ip_addr"
  cd_new4 :: "u32 \<Rightarrow> nat \<Rightarrow> ip_network option"
  cd_new6 :: "u128 \<Rightarrow> nat \<Rightarrow> ip_network option"

definition KEY_LEN :: nat where "KEY_LEN = 32"

datatype key_error = BadEncoding | BadLength

definition key_decode :: "codec \<Rightarrow> bytes \<Rightarrow> (key_error, bytes) res" where
  "key_decode c v =
     attempt (ok_or (cd_decode c (trim v)) BadEncoding) id (\<lambda>bytes.
     if length bytes = KEY_LEN then Ok bytes else Err BadLength)"

record gateway_key =
  gk_secret :: bytes
  gk_public :: bytes

definition from_secret :: "codec \<Rightarrow> bytes \<Rightarrow> gateway_key" where
  "from_secret c s = \<lparr>gk_secret = s, gk_public = cd_public c s\<rparr>"

definition gateway_key_from_base64 :: "codec \<Rightarrow> bytes \<Rightarrow> (key_error, gateway_key) res" where
  "gateway_key_from_base64 c v = attempt (key_decode c v) id (\<lambda>bytes. Ok (from_secret c (cd_secret c bytes)))"

definition gateway_key_to_base64 :: "codec \<Rightarrow> gateway_key \<Rightarrow> bytes" where
  "gateway_key_to_base64 c k = cd_encode c (gk_secret k)"

text \<open>A \<open>PeerPublicKey\<close> and a \<open>PresharedKey\<close> are their 32 bytes.\<close>

type_synonym peer_public_key = bytes
type_synonym preshared_key = bytes

definition public_key_from_base64 :: "codec \<Rightarrow> bytes \<Rightarrow> (key_error, peer_public_key) res" where
  "public_key_from_base64 c v = key_decode c v"

definition public_key_to_base64 :: "codec \<Rightarrow> peer_public_key \<Rightarrow> bytes" where
  "public_key_to_base64 c k = cd_encode c k"

definition preshared_from_base64 :: "codec \<Rightarrow> bytes \<Rightarrow> (key_error, preshared_key) res" where
  "preshared_from_base64 c v = key_decode c v"

definition preshared_to_base64 :: "codec \<Rightarrow> preshared_key \<Rightarrow> bytes" where
  "preshared_to_base64 c k = cd_encode c k"

section \<open>The gateway configuration\<close>

datatype conf_error =
    Syntax | Key key_error | Label label_error | Network | MissingPrivateKey | MissingPublicKey | MissingAllowedIps
  | OverlappingAllowedIps | TunnelPoolAllowedIps | GatewayAddressAllowedIps | DuplicatePeerKey | DuplicateLabel | TooManyPeers

record peer_conf =
  pc_label :: bytes
  pc_public :: peer_public_key
  pc_psk :: "preshared_key option"
  pc_allowed :: "ip_network list"

record gateway_conf =
  gc_key :: gateway_key
  gc_peers :: "peer_conf list"

definition overlaps :: "codec \<Rightarrow> ip_network \<Rightarrow> ip_network \<Rightarrow> bool" where
  "overlaps c left right \<longleftrightarrow> cd_contains c left (cd_address c right) \<or> cd_contains c right (cd_address c left)"

text \<open>The two loops of \<open>check_peers\<close>: over the peers, and over the pairs of peers.\<close>

fun check_each :: "peer_conf list \<Rightarrow> (conf_error, unit) res" where
  "check_each [] = Ok ()"
| "check_each (peer # peers) =
     (if pc_allowed peer = [] then Err MissingAllowedIps
      else if list_ex overlaps_tunnel_pool (pc_allowed peer) then Err TunnelPoolAllowedIps
      else check_each peers)"

fun check_others :: "codec \<Rightarrow> peer_conf \<Rightarrow> peer_conf list \<Rightarrow> (conf_error, unit) res" where
  "check_others c peer [] = Ok ()"
| "check_others c peer (other # others) =
     (if pc_public other = pc_public peer then Err DuplicatePeerKey
      else if pc_label other = pc_label peer then Err DuplicateLabel
      else if list_ex (\<lambda>network. list_ex (\<lambda>candidate. overlaps c candidate network) (pc_allowed other)) (pc_allowed peer)
      then Err OverlappingAllowedIps
      else check_others c peer others)"

fun check_pairs :: "codec \<Rightarrow> peer_conf list \<Rightarrow> (conf_error, unit) res" where
  "check_pairs c [] = Ok ()"
| "check_pairs c (peer # peers) = attempt (check_others c peer peers) id (\<lambda>_. check_pairs c peers)"

definition check_peers :: "codec \<Rightarrow> peer_conf list \<Rightarrow> (conf_error, unit) res" where
  "check_peers c peers = attempt (check_each peers) id (\<lambda>_. check_pairs c peers)"

definition validate :: "codec \<Rightarrow> gateway_conf \<Rightarrow> (conf_error, unit) res" where
  "validate c conf = check_peers c (gc_peers conf)"

definition check_against :: "codec \<Rightarrow> gateway_conf \<Rightarrow> peer_plan \<Rightarrow> (conf_error, unit) res" where
  "check_against c conf plan =
     (if list_ex (\<lambda>peer. list_ex (\<lambda>network.
           cd_contains c network (V4 (gateway_v4 plan)) \<or> cd_contains c network (V6 (gateway_v6 plan))) (pc_allowed peer))
         (gc_peers conf)
      then Err GatewayAddressAllowedIps else Ok ())"

section \<open>Reading the file\<close>

datatype section_kind = NoSection | InterfaceSection | PeerSection

record pending_peer =
  pp_label :: "bytes option"
  pp_public :: "peer_public_key option"
  pp_psk :: "preshared_key option"
  pp_allowed :: "ip_network list"

definition pending_default :: pending_peer where
  "pending_default = \<lparr>pp_label = None, pp_public = None, pp_psk = None, pp_allowed = []\<rparr>"

definition finish :: "pending_peer \<Rightarrow> (conf_error, peer_conf) res" where
  "finish p =
     attempt (ok_or (pp_public p) MissingPublicKey) id (\<lambda>public.
     if pp_allowed p = [] then Err MissingAllowedIps
     else Ok \<lparr>pc_label = (case pp_label p of None \<Rightarrow> [] | Some l \<Rightarrow> l), pc_public = public, pc_psk = pp_psk p,
              pc_allowed = pp_allowed p\<rparr>)"

definition split_setting :: "bytes \<Rightarrow> (bytes \<times> bytes) option" where
  "split_setting l =
     (case split_once 61 l of
        None \<Rightarrow> None
      | Some (name, value) \<Rightarrow> if trim name = [] then None else Some (trim name, trim value))"

text \<open>The local variables of \<open>parse_gateway_conf\<close>.\<close>

record conf_state =
  cs_key :: "gateway_key option"
  cs_peers :: "peer_conf list"
  cs_section :: section_kind
  cs_pending :: "pending_peer option"

definition conf_start :: conf_state where
  "conf_start = \<lparr>cs_key = None, cs_peers = [], cs_section = NoSection, cs_pending = None\<rparr>"

fun read_networks :: "codec \<Rightarrow> bytes list \<Rightarrow> ip_network list \<Rightarrow> (conf_error, ip_network list) res" where
  "read_networks c [] acc = Ok acc"
| "read_networks c (entry # entries) acc =
     (if trim entry = [] then read_networks c entries acc
      else (case cd_net_parse c (trim entry) of
              None \<Rightarrow> Err Network
            | Some n \<Rightarrow> read_networks c entries (acc @ [n])))"

definition flush_pending :: "conf_state \<Rightarrow> (conf_error, conf_state) res" where
  "flush_pending st =
     (case cs_pending st of
        None \<Rightarrow> Ok st
      | Some peer \<Rightarrow> attempt (finish peer) id (\<lambda>p. Ok (st\<lparr>cs_pending := None, cs_peers := cs_peers st @ [p]\<rparr>)))"

definition comment_of :: "bytes \<Rightarrow> bytes option" where
  "comment_of l = (case strip_prefix (asc ''#'') l of Some r \<Rightarrow> Some r | None \<Rightarrow> strip_prefix (asc '';'') l)"

definition comment_line :: "bytes \<Rightarrow> conf_state \<Rightarrow> (conf_error, conf_state) res" where
  "comment_line comment st =
     (case (split_setting (trim comment), cs_pending st) of
        (Some (name, value), Some peer) \<Rightarrow>
          if eq_ignore_ascii_case name (asc ''label'')
          then attempt (label_new value) Label (\<lambda>l. Ok (st\<lparr>cs_pending := Some (peer\<lparr>pp_label := Some l\<rparr>)\<rparr>))
          else Ok st
      | _ \<Rightarrow> Ok st)"

definition header_line :: "bytes \<Rightarrow> conf_state \<Rightarrow> (conf_error, conf_state) res" where
  "header_line header st =
     attempt (flush_pending st) id (\<lambda>st.
     let h = to_ascii_lowercase (trim header) in
     if h = asc ''interface'' then Ok (st\<lparr>cs_section := InterfaceSection\<rparr>)
     else if h = asc ''peer'' then Ok (st\<lparr>cs_section := PeerSection, cs_pending := Some pending_default\<rparr>)
     else Err Syntax)"

definition peer_field :: "codec \<Rightarrow> bytes \<Rightarrow> bytes \<Rightarrow> pending_peer \<Rightarrow> (conf_error, pending_peer) res" where
  "peer_field c field value peer =
     (if field = asc ''publickey'' then
        attempt (public_key_from_base64 c value) Key (\<lambda>k. Ok (peer\<lparr>pp_public := Some k\<rparr>))
      else if field = asc ''presharedkey'' then
        attempt (preshared_from_base64 c value) Key (\<lambda>k. Ok (peer\<lparr>pp_psk := Some k\<rparr>))
      else if field = asc ''allowedips'' then
        attempt (read_networks c (split_on 44 value) (pp_allowed peer)) id (\<lambda>ns. Ok (peer\<lparr>pp_allowed := ns\<rparr>))
      else Ok peer)"

definition setting_line :: "codec \<Rightarrow> bytes \<Rightarrow> conf_state \<Rightarrow> (conf_error, conf_state) res" where
  "setting_line c l st =
     attempt (ok_or (split_setting l) Syntax) id (\<lambda>(name, value).
     let field = to_ascii_lowercase name in
     case cs_section st of
       InterfaceSection \<Rightarrow>
         if field = asc ''privatekey''
         then attempt (gateway_key_from_base64 c value) Key (\<lambda>k. Ok (st\<lparr>cs_key := Some k\<rparr>))
         else Ok st
     | PeerSection \<Rightarrow>
         attempt (ok_or (cs_pending st) Syntax) id (\<lambda>peer.
         attempt (peer_field c field value peer) id (\<lambda>peer. Ok (st\<lparr>cs_pending := Some peer\<rparr>)))
     | NoSection \<Rightarrow> Err Syntax)"

definition conf_line :: "codec \<Rightarrow> bytes \<Rightarrow> conf_state \<Rightarrow> (conf_error, conf_state) res" where
  "conf_line c raw st =
     (let l = trim raw in
      if l = [] then Ok st
      else (case comment_of l of
              Some comment \<Rightarrow> comment_line comment st
            | None \<Rightarrow>
                (case Option.bind (strip_prefix (asc ''['') l) (strip_suffix (asc '']'')) of
                   Some header \<Rightarrow> header_line header st
                 | None \<Rightarrow> setting_line c l st)))"

fun conf_lines :: "codec \<Rightarrow> bytes list \<Rightarrow> conf_state \<Rightarrow> (conf_error, conf_state) res" where
  "conf_lines c [] st = Ok st"
| "conf_lines c (raw # rest) st = attempt (conf_line c raw st) id (conf_lines c rest)"

fun number_labels :: "nat \<Rightarrow> peer_conf list \<Rightarrow> (conf_error, peer_conf list) res" where
  "number_labels position [] = Ok []"
| "number_labels position (peer # peers) =
     attempt (if pc_label peer = []
              then attempt (label_new (asc ''peer'' @ show_nat (position + 1))) Label (\<lambda>l. Ok (peer\<lparr>pc_label := l\<rparr>))
              else Ok peer) id (\<lambda>peer.
     attempt (number_labels (position + 1) peers) id (\<lambda>peers. Ok (peer # peers)))"

definition parse_gateway_conf :: "codec \<Rightarrow> bytes \<Rightarrow> (conf_error, gateway_conf) res" where
  "parse_gateway_conf c txt =
     attempt (conf_lines c (lines txt) conf_start) id (\<lambda>st.
     attempt (flush_pending st) id (\<lambda>st.
     attempt (number_labels 0 (cs_peers st)) id (\<lambda>peers.
     attempt (check_peers c peers) id (\<lambda>_.
     attempt (ok_or (cs_key st) MissingPrivateKey) id (\<lambda>key.
     Ok \<lparr>gc_key = key, gc_peers = peers\<rparr>)))))"


section \<open>Rendering\<close>

text \<open>\<open>Display\<close> of the standard library's addresses.\<close>

fun hex_digit :: "nat \<Rightarrow> u8" where
  "hex_digit d = (if d < 10 then 48 + of_nat d else 87 + of_nat d)"

fun show_hex :: "nat \<Rightarrow> bytes" where
  "show_hex n = (if n < 16 then [hex_digit n] else show_hex (n div 16) @ [hex_digit (n mod 16)])"

declare show_hex.simps [simp del]

definition show_v4 :: "u32 \<Rightarrow> bytes" where
  "show_v4 a = join (asc ''.'') (map (\<lambda>b. show_nat (unat b)) (be_bytes 4 (unat a)))"

definition segments :: "u128 \<Rightarrow> nat list" where
  "segments a = map (\<lambda>i. unat a div 2 ^ (112 - 16 * i) mod 65536) [0..<8]"

text \<open>The first longest run of zero segments, as the start and length of the span found so far.\<close>

fun zero_run :: "nat \<Rightarrow> nat \<times> nat \<Rightarrow> nat \<times> nat \<Rightarrow> nat list \<Rightarrow> nat \<times> nat" where
  "zero_run i cur best [] = best"
| "zero_run i cur best (s # ss) =
     (if s = 0
      then let cur = (if snd cur = 0 then (i, 1) else (fst cur, snd cur + 1))
           in zero_run (Suc i) cur (if snd best < snd cur then cur else best) ss
      else zero_run (Suc i) (0, 0) best ss)"

definition show_segments :: "nat list \<Rightarrow> bytes" where
  "show_segments ss = join (asc '':'') (map show_hex ss)"

definition show_v6 :: "u128 \<Rightarrow> bytes" where
  "show_v6 a =
     (let ss = segments a in
      if take 6 ss = [0, 0, 0, 0, 0, 65535] then asc ''::ffff:'' @ show_v4 (ucast a)
      else let (start, len) = zero_run 0 (0, 0) (0, 0) ss in
           if 1 < len then show_segments (take start ss) @ asc ''::'' @ show_segments (drop (start + len) ss)
           else show_segments ss)"

fun show_ip :: "ip_addr \<Rightarrow> bytes" where
  "show_ip (V4 a) = show_v4 a"
| "show_ip (V6 a) = show_v6 a"

fun show_socket :: "ip_addr \<times> u16 \<Rightarrow> bytes" where
  "show_socket (V4 a, port) = show_v4 a @ asc '':'' @ show_nat (unat port)"
| "show_socket (V6 a, port) = asc ''['' @ show_v6 a @ asc '']:'' @ show_nat (unat port)"

definition join_networks :: "codec \<Rightarrow> ip_network list \<Rightarrow> bytes" where
  "join_networks c networks = join (asc '', '') (map (cd_net_show c) networks)"

definition peer_lines :: "codec \<Rightarrow> peer_conf \<Rightarrow> bytes list" where
  "peer_lines c peer =
     [[], asc ''[Peer]'', asc ''# label = '' @ pc_label peer, asc ''PublicKey = '' @ public_key_to_base64 c (pc_public peer)] @
     (case pc_psk peer of None \<Rightarrow> [] | Some psk \<Rightarrow> [asc ''PresharedKey = '' @ preshared_to_base64 c psk]) @
     [asc ''AllowedIPs = '' @ join_networks c (pc_allowed peer)]"

definition render_gateway_conf :: "codec \<Rightarrow> gateway_conf \<Rightarrow> bytes" where
  "render_gateway_conf c conf =
     concat (map line ([asc ''[Interface]'', asc ''PrivateKey = '' @ gateway_key_to_base64 c (gc_key conf)] @
       concat (map (peer_lines c) (gc_peers conf))))"

record client_conf =
  cc_label :: bytes
  cc_private_key :: bytes
  cc_address_v4 :: u32
  cc_address_v6 :: "u128 option"
  cc_gateway_public :: peer_public_key
  cc_psk :: preshared_key
  cc_endpoint :: "ip_addr \<times> u16"
  cc_dns :: "ip_addr option"
  cc_mtu :: u16
  cc_keepalive :: u16
  cc_lan_exclude :: "ip_network list"

fun net_is_ipv4 :: "ip_network \<Rightarrow> bool" where
  "net_is_ipv4 (NetV4 _ _) = True"
| "net_is_ipv4 (NetV6 _ _) = False"

definition allowed_ips :: "codec \<Rightarrow> client_conf \<Rightarrow> ip_network list" where
  "allowed_ips c conf =
     (let networks = (if cc_lan_exclude conf = [] then complement (cd_new4 c) (cd_new6 c) []
                      else complement (cd_new4 c) (cd_new6 c) (cc_lan_exclude conf))
      in if cc_address_v6 conf = None then filter net_is_ipv4 networks else networks)"

definition render_client_conf :: "codec \<Rightarrow> client_conf \<Rightarrow> bytes" where
  "render_client_conf c conf =
     (let addresses = show_v4 (cc_address_v4 conf) @ asc ''/32'' @
            (case cc_address_v6 conf of None \<Rightarrow> [] | Some v6 \<Rightarrow> asc '', '' @ show_v6 v6 @ asc ''/128'')
      in concat (map line (
        [asc ''[Interface]'', asc ''PrivateKey = '' @ cc_private_key conf, asc ''Address = '' @ addresses] @
        (case cc_dns conf of None \<Rightarrow> [] | Some dns \<Rightarrow> [asc ''DNS = '' @ show_ip dns]) @
        [asc ''MTU = '' @ show_nat (unat (cc_mtu conf)), [], asc ''[Peer]'',
         asc ''PublicKey = '' @ public_key_to_base64 c (cc_gateway_public conf),
         asc ''PresharedKey = '' @ preshared_to_base64 c (cc_psk conf),
         asc ''AllowedIPs = '' @ join_networks c (allowed_ips c conf),
         asc ''Endpoint = '' @ show_socket (cc_endpoint conf),
         asc ''PersistentKeepalive = '' @ show_nat (unat (cc_keepalive conf))])))"

definition render_gluetun_env :: "codec \<Rightarrow> client_conf \<Rightarrow> bytes" where
  "render_gluetun_env c conf =
     concat (map line (
       [asc ''VPN_SERVICE_PROVIDER=custom'', asc ''VPN_TYPE=wireguard'',
        asc ''WIREGUARD_ENDPOINT_IP='' @ show_ip (fst (cc_endpoint conf)),
        asc ''WIREGUARD_ENDPOINT_PORT='' @ show_nat (unat (snd (cc_endpoint conf))),
        asc ''WIREGUARD_PUBLIC_KEY='' @ public_key_to_base64 c (cc_gateway_public conf),
        asc ''WIREGUARD_PRIVATE_KEY='' @ cc_private_key conf,
        asc ''WIREGUARD_PRESHARED_KEY='' @ preshared_to_base64 c (cc_psk conf),
        asc ''WIREGUARD_ADDRESSES='' @ show_v4 (cc_address_v4 conf) @ asc ''/32'',
        asc ''WIREGUARD_MTU='' @ show_nat (unat (cc_mtu conf)),
        asc ''WIREGUARD_PERSISTENT_KEEPALIVE_INTERVAL='' @ show_nat (unat (cc_keepalive conf)) @ asc ''s''] @
       (case cc_address_v6 conf of None \<Rightarrow> [] | Some v6 \<Rightarrow>
         [asc ''# WIREGUARD_ADDRESSES stays v4 only: gluetun refuses to start with an IPv6 interface'',
          asc ''# address unless the container network has IPv6 routes. On such a network, add'',
          asc ''# '' @ show_v6 v6 @ asc ''/128 to the list above.'']) @
       [asc ''# WIREGUARD_ALLOWED_IPS is left at gluetun's default (0.0.0.0/0,::/0, filtered per'',
        asc ''# IPv6 support): its own firewall drops v6 when unsupported, so nothing leaks.''] @
       (case cc_dns conf of None \<Rightarrow> [] | Some dns \<Rightarrow>
         [asc ''# gluetun's DNS over TLS works through the tunnel. To use the exit resolver instead:'',
          asc ''# DNS_UPSTREAM_RESOLVER_TYPE=plain'',
          asc ''# DNS_UPSTREAM_PLAIN_ADDRESSES='' @ show_ip dns @ asc '':53'',
          asc ''# gluetun then warns that the address is private and suggests FIREWALL_OUTBOUND_SUBNETS.'',
          asc ''# Ignore that advice: '' @ show_ip dns @ asc '' lives on the far side of the tunnel and must not be'',
          asc ''# in FIREWALL_OUTBOUND_SUBNETS.'']) @
       [asc ''# Leave LOG_LEVEL at info: at debug gluetun prints the head and the tail of the'',
        asc ''# private key and the preshared key above into its own log.'']))"

end
