(* ===== verification/Conf_Reading.thy ===== *)
theory Conf_Reading
  imports Conf
begin

text \<open>
  How the configuration file is read: what each rendered line does to the reader's state, and what
  the types and the checks give of a configuration that was read.
\<close>

section \<open>What the crates promise\<close>

fun net_normal :: "ip_network \<Rightarrow> bool" where
  "net_normal (NetV4 b p) \<longleftrightarrow> p \<le> 32 \<and> b AND mask32 p = b"
| "net_normal (NetV6 b p) \<longleftrightarrow> p \<le> 128 \<and> b AND mask128 p = b"

fun net_base :: "ip_network \<Rightarrow> ip_addr" where
  "net_base (NetV4 b p) = V4 b"
| "net_base (NetV6 b p) = V6 b"

text \<open>Texts of \<open>base64\<close> and of networks are printable and read back; a network has no comma.\<close>

definition codec_ok :: "codec \<Rightarrow> bool" where
  "codec_ok c \<longleftrightarrow>
     (\<forall>b. length b = KEY_LEN \<longrightarrow> cd_decode c (cd_encode c b) = Some b \<and> cd_encode c b \<noteq> [] \<and> list_all plain (cd_encode c b)) \<and>
     (\<forall>n. net_normal n \<longrightarrow> cd_net_parse c (cd_net_show c n) = Some n \<and> cd_net_show c n \<noteq> [] \<and>
        list_all plain (cd_net_show c n) \<and> 44 \<notin> set (cd_net_show c n))"

text \<open>Membership is prefix match, and a network has no host bits.\<close>

definition nets_ok :: "codec \<Rightarrow> bool" where
  "nets_ok c \<longleftrightarrow> (\<forall>n a. cd_contains c n a \<longleftrightarrow> in_net a n) \<and> (\<forall>n. cd_address c n = net_base n) \<and>
     (\<forall>t n. cd_net_parse c t = Some n \<longrightarrow> net_normal n)"

section \<open>Reading a rendered line\<close>

lemma plain_ends:
  assumes "xs \<noteq> []" "list_all plain xs"
  shows "\<not> spacey (hd xs)" "\<not> spacey (last xs)" "\<not> spacey (last (x # xs))" "\<not> spacey (last (ys @ xs))"
  using assms plain_not_spacey hd_in_set [OF assms(1)] last_in_set [OF assms(1)] by (auto simp: list_all_iff)

lemma spacey_asc [simp]: "\<not> spacey 35" "\<not> spacey 91" "\<not> spacey 93"
  by (rule plain_not_spacey, simp add: plain_def)+

lemma trim_ends: "xs \<noteq> [] \<Longrightarrow> \<not> spacey (hd xs) \<Longrightarrow> \<not> spacey (last xs) \<Longrightarrow> trim xs = xs"
  by (rule trim_plain) simp

lemma split_setting_eq:
  assumes "name \<noteq> []" "list_all plain name" "61 \<notin> set name" and "v \<noteq> []" "\<not> spacey (hd v)" "\<not> spacey (last v)"
  shows "split_setting (name @ 32 # 61 # 32 # v) = Some (name, v)"
proof -
  have "name @ 32 # 61 # 32 # v = (name @ [32]) @ 61 # (32 # v)" by simp
  then have "split_once 61 (name @ 32 # 61 # 32 # v) = Some (name @ [32], 32 # v)"
    using split_once_found [of 61 "name @ [32]" "32 # v"] assms(3) by simp
  then show ?thesis using trim_blank_back [OF assms(1) plain_ends(1,2) [OF assms(1,2)]] trim_blank_front [OF assms(4-6)] assms(1)
    by (simp add: split_setting_def)
qed

lemma setting_line_eq:
  assumes n: "name \<noteq> []" "list_all plain name" "61 \<notin> set name" "hd name \<notin> {35, 59, 91}"
    and v: "v \<noteq> []" "\<not> spacey (hd v)" "\<not> spacey (last v)"
  shows "conf_line c (name @ 32 # 61 # 32 # v) st = setting_line c (name @ 32 # 61 # 32 # v) st"
proof -
  let ?l = "name @ 32 # 61 # 32 # v"
  have t: "trim ?l = ?l" using n(1) v plain_ends(1) [OF n(1,2)] by (intro trim_ends) auto
  obtain b bs where "name = b # bs" "b \<noteq> 35" "b \<noteq> 59" "b \<noteq> 91" using n(1,4) by (cases name) auto
  then show ?thesis using t by (simp add: conf_line_def comment_of_def strip_prefix_def asc_def)
qed

lemma asc_settings:
  "asc ''PrivateKey = '' @ v = asc ''PrivateKey'' @ 32 # 61 # 32 # v"
  "asc ''PublicKey = '' @ v = asc ''PublicKey'' @ 32 # 61 # 32 # v"
  "asc ''PresharedKey = '' @ v = asc ''PresharedKey'' @ 32 # 61 # 32 # v"
  "asc ''AllowedIPs = '' @ v = asc ''AllowedIPs'' @ 32 # 61 # 32 # v"
  "asc ''# label = '' @ v = 35 # 32 # asc ''label'' @ 32 # 61 # 32 # v"
  by (simp_all add: asc_def)

text \<open>The names of the settings: printable, without an equals sign, and what they are in lower case.\<close>

lemma asc_names:
  "asc ''PrivateKey'' \<noteq> []" "list_all plain (asc ''PrivateKey'')" "61 \<notin> set (asc ''PrivateKey'')" "hd (asc ''PrivateKey'') \<notin> {35, 59, 91}"
  "asc ''PublicKey'' \<noteq> []" "list_all plain (asc ''PublicKey'')" "61 \<notin> set (asc ''PublicKey'')" "hd (asc ''PublicKey'') \<notin> {35, 59, 91}"
  "asc ''PresharedKey'' \<noteq> []" "list_all plain (asc ''PresharedKey'')" "61 \<notin> set (asc ''PresharedKey'')" "hd (asc ''PresharedKey'') \<notin> {35, 59, 91}"
  "asc ''AllowedIPs'' \<noteq> []" "list_all plain (asc ''AllowedIPs'')" "61 \<notin> set (asc ''AllowedIPs'')" "hd (asc ''AllowedIPs'') \<notin> {35, 59, 91}"
  "asc ''label'' \<noteq> []" "list_all plain (asc ''label'')" "61 \<notin> set (asc ''label'')"
  by (simp_all add: asc_def plain_def)

lemma asc_lower:
  "to_ascii_lowercase (asc ''PrivateKey'') = asc ''privatekey''" "to_ascii_lowercase (asc ''PublicKey'') = asc ''publickey''"
  "to_ascii_lowercase (asc ''PresharedKey'') = asc ''presharedkey''" "to_ascii_lowercase (asc ''AllowedIPs'') = asc ''allowedips''"
  "to_ascii_lowercase (asc ''Interface'') = asc ''interface''" "to_ascii_lowercase (asc ''Peer'') = asc ''peer''"
  by (simp_all add: asc_def to_ascii_lowercase_def lower_def)

lemma asc_differ:
  "asc ''presharedkey'' \<noteq> asc ''publickey''" "asc ''allowedips'' \<noteq> asc ''publickey''" "asc ''allowedips'' \<noteq> asc ''presharedkey''"
  "asc ''peer'' \<noteq> asc ''interface''"
  by (simp_all add: asc_def)


lemmas field_simps_conf = setting_line_def peer_field_def asc_lower asc_differ public_key_from_base64_def preshared_from_base64_def
  gateway_key_from_base64_def

lemma key_decode_encode:
  assumes "codec_ok c" "length b = KEY_LEN"
  shows "key_decode c (cd_encode c b) = Ok b"
proof -
  have e: "cd_decode c (cd_encode c b) = Some b" "cd_encode c b \<noteq> []" "list_all plain (cd_encode c b)"
    using assms by (auto simp: codec_ok_def)
  then show ?thesis using trim_ends [OF e(2) plain_ends(1,2) [OF e(2,3)]] assms(2) by (simp add: key_decode_def ok_or_def)
qed

lemma encoded_ends:
  assumes "codec_ok c" "length b = KEY_LEN"
  shows "cd_encode c b \<noteq> []" "\<not> spacey (hd (cd_encode c b))" "\<not> spacey (last (cd_encode c b))"
  using assms plain_ends(1,2) [of "cd_encode c b"] by (auto simp: codec_ok_def)

lemma read_private_key:
  assumes ok: "codec_ok c" "length (gk_secret k) = KEY_LEN" and sec: "cd_secret c (gk_secret k) = gk_secret k"
    "cd_public c (gk_secret k) = gk_public k" and st: "cs_section st = InterfaceSection"
  shows "conf_line c (asc ''PrivateKey = '' @ gateway_key_to_base64 c k) st = Ok (st\<lparr>cs_key := Some k\<rparr>)"
  using key_decode_encode [OF ok] st sec
  by (simp add: asc_settings gateway_key_to_base64_def setting_line_eq [OF asc_names(1-4) encoded_ends [OF ok]] field_simps_conf
      split_setting_eq [OF asc_names(1-3) encoded_ends [OF ok]] from_secret_def ok_or_def)

lemma read_public_key:
  assumes ok: "codec_ok c" "length k = KEY_LEN" and st: "cs_section st = PeerSection" "cs_pending st = Some peer"
  shows "conf_line c (asc ''PublicKey = '' @ public_key_to_base64 c k) st = Ok (st\<lparr>cs_pending := Some (peer\<lparr>pp_public := Some k\<rparr>)\<rparr>)"
  using key_decode_encode [OF ok] st
  by (simp add: asc_settings public_key_to_base64_def setting_line_eq [OF asc_names(5-8) encoded_ends [OF ok]] field_simps_conf
      split_setting_eq [OF asc_names(5-7) encoded_ends [OF ok]] ok_or_def)

lemma read_preshared_key:
  assumes ok: "codec_ok c" "length k = KEY_LEN" and st: "cs_section st = PeerSection" "cs_pending st = Some peer"
  shows "conf_line c (asc ''PresharedKey = '' @ preshared_to_base64 c k) st = Ok (st\<lparr>cs_pending := Some (peer\<lparr>pp_psk := Some k\<rparr>)\<rparr>)"
  using key_decode_encode [OF ok] st
  by (simp add: asc_settings preshared_to_base64_def setting_line_eq [OF asc_names(9-12) encoded_ends [OF ok]] field_simps_conf
      split_setting_eq [OF asc_names(9-11) encoded_ends [OF ok]] ok_or_def)

lemma shown_ends:
  assumes "codec_ok c" "net_normal n"
  shows "cd_net_parse c (cd_net_show c n) = Some n" "cd_net_show c n \<noteq> []" "\<not> spacey (hd (cd_net_show c n))"
    "\<not> spacey (last (cd_net_show c n))" "44 \<notin> set (cd_net_show c n)" "list_all plain (cd_net_show c n)"
  using assms plain_ends(1,2) [of "cd_net_show c n"] by (auto simp: codec_ok_def)

lemma join_ends:
  assumes ok: "codec_ok c" and ns: "ns \<noteq> []" "list_all net_normal ns"
  shows "join_networks c ns \<noteq> []" "\<not> spacey (hd (join_networks c ns))" "\<not> spacey (last (join_networks c ns))"
proof -
  have "join_networks c ns \<noteq> [] \<and> \<not> spacey (hd (join_networks c ns)) \<and> \<not> spacey (last (join_networks c ns))"
    using ns unfolding join_networks_def
  proof (induction ns)
    case (Cons n ns)
    note s = shown_ends [OF ok, of n]
    show ?case using Cons s by (cases ns) auto
  qed simp
  then show "join_networks c ns \<noteq> []" "\<not> spacey (hd (join_networks c ns))" "\<not> spacey (last (join_networks c ns))" by blast+
qed

lemma read_joined:
  assumes ok: "codec_ok c" and ns: "ns \<noteq> []" "list_all net_normal ns"
  shows "read_networks c (split_on 44 (join_networks c ns)) acc = Ok (acc @ ns)"
    "read_networks c (split_on 44 (32 # join_networks c ns)) acc = Ok (acc @ ns)"
proof -
  have "read_networks c (split_on 44 (join_networks c ns)) acc = Ok (acc @ ns) \<and>
    read_networks c (split_on 44 (32 # join_networks c ns)) acc = Ok (acc @ ns)"
    using ns unfolding join_networks_def
  proof (induction ns arbitrary: acc)
    case (Cons n ns)
    then have s: "cd_net_parse c (cd_net_show c n) = Some n" "cd_net_show c n \<noteq> []" "44 \<notin> set (cd_net_show c n)"
      "trim (cd_net_show c n) = cd_net_show c n" "trim (32 # cd_net_show c n) = cd_net_show c n"
      using shown_ends [OF ok, of n] trim_ends [of "cd_net_show c n"] trim_blank_front [of "cd_net_show c n"] by auto
    show ?case
    proof (cases ns)
      case Nil
      then show ?thesis using s split_on_single [of 44 "cd_net_show c n"] split_on_single [of 44 "32 # cd_net_show c n"] by simp
    next
      case (Cons m ms)
      then have ih: "read_networks c (split_on 44 (32 # join (asc '', '') (map (cd_net_show c) ns))) (acc @ [n]) = Ok (acc @ n # ns)"
        using Cons.IH [of "acc @ [n]"] Cons.prems by simp
      have j: "join (asc '', '') (map (cd_net_show c) (n # ns)) = cd_net_show c n @ 44 # 32 # join (asc '', '') (map (cd_net_show c) ns)"
        using Cons by (simp add: asc_def)
      show ?thesis unfolding j
        using split_on_append [OF s(3), of "32 # join (asc '', '') (map (cd_net_show c) ns)"] ih s
          split_on_append [of 44 "32 # cd_net_show c n" "32 # join (asc '', '') (map (cd_net_show c) ns)"]
        by simp
    qed
  qed simp
  then show "read_networks c (split_on 44 (join_networks c ns)) acc = Ok (acc @ ns)"
    "read_networks c (split_on 44 (32 # join_networks c ns)) acc = Ok (acc @ ns)" by blast+
qed

lemma read_allowed:
  assumes ok: "codec_ok c" and ns: "ns \<noteq> []" "list_all net_normal ns"
    and st: "cs_section st = PeerSection" "cs_pending st = Some peer" "pp_allowed peer = []"
  shows "conf_line c (asc ''AllowedIPs = '' @ join_networks c ns) st = Ok (st\<lparr>cs_pending := Some (peer\<lparr>pp_allowed := ns\<rparr>)\<rparr>)"
  using read_joined(1) [OF assms(1-3), of "[]"] st
  by (simp add: asc_settings setting_line_eq [OF asc_names(13-16) join_ends [OF ok ns]] field_simps_conf
      split_setting_eq [OF asc_names(13-15) join_ends [OF ok ns]] ok_or_def)


lemma label_plain:
  assumes "label_new l = Ok l"
  shows "l \<noteq> []" "list_all plain l"
proof -
  have l: "l \<noteq> []" "list_all (\<lambda>b. is_ascii_alphanumeric b \<or> b = 45 \<or> b = 95 \<or> b = 46) l"
    using assms by (auto simp: label_new_def split: if_splits)
  have "plain b" if "is_ascii_alphanumeric b \<or> b = 45 \<or> b = 95 \<or> b = 46" for b
    using that by (auto simp: is_ascii_alphanumeric_def plain_def word_le_nat_alt)
  then show "l \<noteq> []" "list_all plain l" using l by (auto simp: list_all_iff)
qed

lemma read_label:
  assumes l: "label_new l = Ok l" and st: "cs_pending st = Some peer"
  shows "conf_line c (asc ''# label = '' @ l) st = Ok (st\<lparr>cs_pending := Some (peer\<lparr>pp_label := Some l\<rparr>)\<rparr>)"
proof -
  note p = label_plain [OF l]
  let ?m = "asc ''label'' @ 32 # 61 # 32 # l"
  have m: "?m \<noteq> []" "\<not> spacey (hd ?m)" "\<not> spacey (last ?m)"
    using plain_ends [OF p] plain_ends(1) [OF asc_names(17,18)] p(1) asc_names(17) by simp_all
  have "trim (35 # 32 # ?m) = 35 # 32 # ?m" using m by (intro trim_ends) auto
  moreover have "comment_of (35 # 32 # ?m) = Some (32 # ?m)" by (simp add: comment_of_def strip_prefix_def asc_def)
  moreover have "split_setting (trim (32 # ?m)) = Some (asc ''label'', l)"
    using trim_blank_front [OF m] split_setting_eq [OF asc_names(17-19) p(1) plain_ends(1,2) [OF p]] by simp
  ultimately show ?thesis using st l
    by (simp add: conf_line_def asc_settings comment_line_def eq_ignore_ascii_case_def)
qed

lemma read_blank: "conf_line c [] st = Ok st"
  by (simp add: conf_line_def trim_plain)

lemma read_header:
  assumes "list_all plain name" "name \<noteq> []"
  shows "conf_line c (91 # name @ [93]) st = header_line name st"
proof -
  have "trim (91 # name @ [93]) = 91 # name @ [93]" by (rule trim_ends) auto
  then show ?thesis
    by (simp add: conf_line_def comment_of_def strip_prefix_def strip_suffix_def asc_def)
qed

lemma asc_headers:
  "asc ''[Interface]'' = 91 # asc ''Interface'' @ [93]" "asc ''[Peer]'' = 91 # asc ''Peer'' @ [93]"
  "list_all plain (asc ''Interface'')" "asc ''Interface'' \<noteq> []" "list_all plain (asc ''Peer'')" "asc ''Peer'' \<noteq> []"
  by (simp_all add: asc_def plain_def)

lemma read_headers:
  "conf_line c (asc ''[Interface]'') st = attempt (flush_pending st) id (\<lambda>st. Ok (st\<lparr>cs_section := InterfaceSection\<rparr>))"
  "conf_line c (asc ''[Peer]'') st =
     attempt (flush_pending st) id (\<lambda>st. Ok (st\<lparr>cs_section := PeerSection, cs_pending := Some pending_default\<rparr>))"
proof -
  have "trim (asc ''Interface'') = asc ''Interface''" "trim (asc ''Peer'') = asc ''Peer''"
    using plain_ends asc_headers(3-6) by (blast intro: trim_ends)+
  then show "conf_line c (asc ''[Interface]'') st = attempt (flush_pending st) id (\<lambda>st. Ok (st\<lparr>cs_section := InterfaceSection\<rparr>))"
    "conf_line c (asc ''[Peer]'') st =
     attempt (flush_pending st) id (\<lambda>st. Ok (st\<lparr>cs_section := PeerSection, cs_pending := Some pending_default\<rparr>))"
    by (simp_all add: asc_headers(1,2) read_header [OF asc_headers(3,4)] read_header [OF asc_headers(5,6)] header_line_def
        asc_lower asc_differ)
qed

section \<open>The round trip\<close>

text \<open>What a configuration holds by its types: keys of 32 bytes, checked labels, normal networks.\<close>

definition peer_typed :: "peer_conf \<Rightarrow> bool" where
  "peer_typed p \<longleftrightarrow> label_new (pc_label p) = Ok (pc_label p) \<and> length (pc_public p) = KEY_LEN \<and>
     (case pc_psk p of None \<Rightarrow> True | Some k \<Rightarrow> length k = KEY_LEN) \<and> list_all net_normal (pc_allowed p)"

definition key_typed :: "codec \<Rightarrow> gateway_key \<Rightarrow> bool" where
  "key_typed c k \<longleftrightarrow> length (gk_secret k) = KEY_LEN \<and> cd_secret c (gk_secret k) = gk_secret k \<and> cd_public c (gk_secret k) = gk_public k"

definition pending_of :: "peer_conf \<Rightarrow> pending_peer" where
  "pending_of p = \<lparr>pp_label = Some (pc_label p), pp_public = Some (pc_public p), pp_psk = pc_psk p, pp_allowed = pc_allowed p\<rparr>"

lemma conf_lines_append: "conf_lines c (xs @ ys) st = attempt (conf_lines c xs st) id (conf_lines c ys)"
proof (induction xs arbitrary: st)
  case (Cons x xs)
  then show ?case by (cases "conf_line c x st") simp_all
qed simp

lemma finish_pending: "pc_allowed p \<noteq> [] \<Longrightarrow> finish (pending_of p) = Ok p"
  by (simp add: finish_def pending_of_def ok_or_def)

lemma read_peer:
  assumes ok: "codec_ok c" and p: "peer_typed p" "pc_allowed p \<noteq> []" and st: "flush_pending st = Ok st'"
  shows "conf_lines c (peer_lines c p) st = Ok (st'\<lparr>cs_section := PeerSection, cs_pending := Some (pending_of p)\<rparr>)"
proof -
  note t = p(1) [unfolded peer_typed_def]
  show ?thesis
  proof (cases "pc_psk p")
    case None
    then show ?thesis using t p(2) st ok
      by (simp add: peer_lines_def read_blank read_headers read_label read_public_key read_allowed pending_default_def pending_of_def)
  next
    case (Some k)
    then show ?thesis using t p(2) st ok
      by (simp add: peer_lines_def read_blank read_headers read_label read_public_key read_preshared_key read_allowed
          pending_default_def pending_of_def)
  qed
qed

lemma read_peers:
  assumes ok: "codec_ok c" and ps: "list_all (\<lambda>p. peer_typed p \<and> pc_allowed p \<noteq> []) ps" and st: "flush_pending st = Ok st'"
  shows "\<exists>st2 st3. conf_lines c (concat (map (peer_lines c) ps)) st = Ok st2 \<and> flush_pending st2 = Ok st3 \<and>
    cs_peers st3 = cs_peers st' @ ps \<and> cs_key st3 = cs_key st'"
  using ps st
proof (induction ps arbitrary: st st')
  case (Cons p ps)
  let ?st = "st'\<lparr>cs_section := PeerSection, cs_pending := Some (pending_of p)\<rparr>"
  have l: "conf_lines c (peer_lines c p) st = Ok ?st" using Cons.prems by (intro read_peer [OF ok]) simp_all
  have "flush_pending ?st = Ok (?st\<lparr>cs_pending := None, cs_peers := cs_peers st' @ [p]\<rparr>)"
    using finish_pending [of p] Cons.prems(1) by (simp add: flush_pending_def)
  with Cons.IH [of ?st] Cons.prems(1) l show ?case by (auto simp: conf_lines_append)
qed auto

lemma labels_stay: "list_all (\<lambda>p. pc_label p \<noteq> []) ps \<Longrightarrow> number_labels n ps = Ok ps"
  by (induction ps arbitrary: n) auto

lemma check_each_ok: "check_each ps = Ok () \<longleftrightarrow> list_all (\<lambda>p. pc_allowed p \<noteq> [] \<and> \<not> list_ex overlaps_tunnel_pool (pc_allowed p)) ps"
  by (induction ps) auto

lemma check_peers_ok: "check_peers c ps = Ok () \<longleftrightarrow> check_each ps = Ok () \<and> check_pairs c ps = Ok ()"
  by (cases "check_each ps") (auto simp: check_peers_def)

lemma rendered_chars:
  assumes ok: "codec_ok c" and k: "key_typed c k" and ps: "list_all (\<lambda>p. peer_typed p \<and> pc_allowed p \<noteq> []) ps"
    and l: "l \<in> set ([asc ''[Interface]'', asc ''PrivateKey = '' @ gateway_key_to_base64 c k] @ concat (map (peer_lines c) ps))"
  shows "NL \<notin> set l \<and> 13 \<notin> set l"
proof -
  have plain: "list_all plain x \<Longrightarrow> NL \<notin> set x \<and> 13 \<notin> set x" for x by (auto simp: list_all_iff plain_def NL_def)
  have enc: "NL \<notin> set (cd_encode c b) \<and> 13 \<notin> set (cd_encode c b)" if "length b = KEY_LEN" for b
    using ok that by (intro plain) (simp add: codec_ok_def)
  have nets: "NL \<notin> set (join_networks c ns) \<and> 13 \<notin> set (join_networks c ns)" if "list_all net_normal ns" for ns
    using that unfolding join_networks_def
  proof (induction ns)
    case (Cons n ns)
    then show ?case using plain [OF shown_ends(6) [OF ok, of n]] by (cases ns) (auto simp: asc_def NL_def)
  qed simp
  have lit: "NL \<notin> set (asc ''[Interface]'') \<and> 13 \<notin> set (asc ''[Interface]'')" "NL \<notin> set (asc ''PrivateKey = '') \<and> 13 \<notin> set (asc ''PrivateKey = '')"
    "NL \<notin> set (asc ''[Peer]'') \<and> 13 \<notin> set (asc ''[Peer]'')" "NL \<notin> set (asc ''# label = '') \<and> 13 \<notin> set (asc ''# label = '')"
    "NL \<notin> set (asc ''PublicKey = '') \<and> 13 \<notin> set (asc ''PublicKey = '')" "NL \<notin> set (asc ''PresharedKey = '') \<and> 13 \<notin> set (asc ''PresharedKey = '')"
    "NL \<notin> set (asc ''AllowedIPs = '') \<and> 13 \<notin> set (asc ''AllowedIPs = '')"
    by (simp_all add: asc_def NL_def)
  have peer: "NL \<notin> set l \<and> 13 \<notin> set l" if "peer_typed p" "l \<in> set (peer_lines c p)" for p l
    using that lit nets [of "pc_allowed p"] enc [of "pc_public p"] plain [OF label_plain(2), of "pc_label p"] enc
    by (auto simp: peer_typed_def peer_lines_def public_key_to_base64_def preshared_to_base64_def split: option.splits)
  show ?thesis using l lit k ps enc [of "gk_secret k"] peer
    by (auto simp: key_typed_def gateway_key_to_base64_def list_all_iff)
qed


section \<open>What is read is checked\<close>

lemma attempt_Ok: "attempt m h k = Ok x \<longleftrightarrow> (\<exists>y. m = Ok y \<and> k y = Ok x)"
  by (cases m) auto

definition typed_or_unnamed :: "peer_conf \<Rightarrow> bool" where
  "typed_or_unnamed p \<longleftrightarrow> peer_typed p \<or> pc_label p = [] \<and> peer_typed (p\<lparr>pc_label := [97]\<rparr>)"

definition pending_typed :: "pending_peer \<Rightarrow> bool" where
  "pending_typed p \<longleftrightarrow> (case pp_label p of None \<Rightarrow> True | Some l \<Rightarrow> label_new l = Ok l) \<and>
     (case pp_public p of None \<Rightarrow> True | Some k \<Rightarrow> length k = KEY_LEN) \<and>
     (case pp_psk p of None \<Rightarrow> True | Some k \<Rightarrow> length k = KEY_LEN) \<and> list_all net_normal (pp_allowed p)"

definition state_typed :: "conf_state \<Rightarrow> bool" where
  "state_typed st \<longleftrightarrow> list_all typed_or_unnamed (cs_peers st) \<and> (case cs_pending st of None \<Rightarrow> True | Some p \<Rightarrow> pending_typed p)"

lemma label_new_idem: "label_new v = Ok l \<Longrightarrow> label_new l = Ok l"
  by (simp add: label_new_def split: if_splits)

lemma label_a: "label_new [97] = Ok [97]"
  by (simp add: label_new_def is_ascii_alphanumeric_def)

lemma finish_typed: "pending_typed p \<Longrightarrow> finish p = Ok q \<Longrightarrow> typed_or_unnamed q"
  by (auto simp: finish_def attempt_Ok ok_or_def pending_typed_def typed_or_unnamed_def peer_typed_def label_a
      split: option.splits if_splits)

lemma flush_typed: "state_typed st \<Longrightarrow> flush_pending st = Ok st' \<Longrightarrow> state_typed st' \<and> cs_pending st' = None"
  using finish_typed by (auto simp: flush_pending_def state_typed_def attempt_Ok split: option.splits)

lemma key_decode_length: "key_decode c v = Ok k \<Longrightarrow> length k = KEY_LEN"
  by (auto simp: key_decode_def attempt_Ok split: if_splits)

lemma read_networks_normal:
  assumes "nets_ok c"
  shows "read_networks c es acc = Ok ns \<Longrightarrow> list_all net_normal acc \<Longrightarrow> list_all net_normal ns"
proof (induction es arbitrary: acc)
  case (Cons e es)
  have "list_all net_normal (acc @ [n])" if "cd_net_parse c (trim e) = Some n" for n
    using Cons.prems(2) assms that by (auto simp: nets_ok_def)
  then show ?case using Cons by (auto split: if_splits option.splits)
qed simp

lemma peer_field_typed:
  assumes "nets_ok c" "pending_typed p" "peer_field c f v p = Ok q"
  shows "pending_typed q"
  using assms key_decode_length [of c v] read_networks_normal [OF assms(1), of "split_on 44 v" "pp_allowed p"]
  by (auto simp: peer_field_def attempt_Ok pending_typed_def public_key_from_base64_def preshared_from_base64_def split: if_splits)

lemma comment_line_cases:
  assumes "comment_line x st = Ok st'"
  obtains "st' = st"
  | v p l where "cs_pending st = Some p" "label_new v = Ok l" "st' = st\<lparr>cs_pending := Some (p\<lparr>pp_label := Some l\<rparr>)\<rparr>"
proof (cases "split_setting (trim x)")
  case None
  then show thesis using assms that(1) by (simp add: comment_line_def)
next
  case (Some nv)
  obtain name v where nv: "nv = (name, v)" by force
  show thesis
  proof (cases "cs_pending st")
    case None
    then show thesis using assms Some that(1) by (simp add: comment_line_def nv)
  next
    case (Some p)
    have a: "(if eq_ignore_ascii_case name (asc ''label'')
        then attempt (label_new v) Label (\<lambda>l. Ok (st\<lparr>cs_pending := Some (p\<lparr>pp_label := Some l\<rparr>)\<rparr>)) else Ok st) = Ok st'"
      using assms \<open>split_setting (trim x) = Some nv\<close> Some by (simp add: comment_line_def nv)
    show thesis
    proof (cases "eq_ignore_ascii_case name (asc ''label'')")
      case True
      then have "\<exists>l. label_new v = Ok l \<and> st\<lparr>cs_pending := Some (p\<lparr>pp_label := Some l\<rparr>)\<rparr> = st'" using a by (simp add: attempt_Ok)
      then show thesis using that(2) [OF Some] by metis
    next
      case False
      then show thesis using a that(1) by simp
    qed
  qed
qed

lemma comment_line_typed:
  assumes st: "state_typed st" and r: "comment_line x st = Ok st'"
  shows "state_typed st'"
  using r
proof (cases rule: comment_line_cases)
  case (2 v p l)
  have "pending_typed p" using st 2(1) by (simp add: state_typed_def)
  then have "pending_typed (p\<lparr>pp_label := Some l\<rparr>)" using label_new_idem [OF 2(2)] by (simp add: pending_typed_def)
  then show ?thesis using st by (simp add: state_typed_def 2(3))
qed (use st in simp)

lemma header_line_typed:
  assumes "state_typed st" "header_line x st = Ok st'"
  shows "state_typed st'"
proof -
  obtain st1 where st1: "flush_pending st = Ok st1" using assms(2) by (auto simp: header_line_def attempt_Ok)
  have "pending_typed pending_default" by (simp add: pending_typed_def pending_default_def)
  then show ?thesis using flush_typed [OF assms(1) st1] assms(2) st1
    by (auto simp: header_line_def Let_def state_typed_def split: if_splits)
qed

lemma setting_line_typed:
  assumes n: "nets_ok c" and st: "state_typed st" and r: "setting_line c x st = Ok st'"
  shows "state_typed st'"
proof (cases "split_setting x")
  case None
  then show ?thesis using r by (simp add: setting_line_def ok_or_def)
next
  case (Some nv)
  obtain name v where nv: "nv = (name, v)" by force
  let ?f = "to_ascii_lowercase name"
  show ?thesis
  proof (cases "cs_section st")
    case NoSection
    then show ?thesis using r Some nv by (simp add: setting_line_def ok_or_def)
  next
    case InterfaceSection
    then have "(if ?f = asc ''privatekey'' then attempt (gateway_key_from_base64 c v) Key (\<lambda>k. Ok (st\<lparr>cs_key := Some k\<rparr>)) else Ok st) = Ok st'"
      using r Some nv by (simp add: setting_line_def ok_or_def)
    then have "st' = st \<or> (\<exists>k. st' = st\<lparr>cs_key := Some k\<rparr>)" by (cases "gateway_key_from_base64 c v") (auto split: if_splits)
    then show ?thesis using st by (auto simp: state_typed_def)
  next
    case PeerSection
    then have a: "attempt (ok_or (cs_pending st) Syntax) id (\<lambda>peer.
        attempt (peer_field c ?f v peer) id (\<lambda>peer. Ok (st\<lparr>cs_pending := Some peer\<rparr>))) = Ok st'"
      using r Some nv by (simp add: setting_line_def ok_or_def)
    show ?thesis
    proof (cases "cs_pending st")
      case None
      then show ?thesis using a by (simp add: ok_or_def)
    next
      case (Some p)
      then obtain q where q: "peer_field c ?f v p = Ok q" "st' = st\<lparr>cs_pending := Some q\<rparr>"
        using a by (cases "peer_field c ?f v p") (simp_all add: ok_or_def)
      have "pending_typed p" using st Some by (simp add: state_typed_def)
      from peer_field_typed [OF n this q(1)] show ?thesis using st by (simp add: state_typed_def q(2))
    qed
  qed
qed

lemma conf_line_typed:
  assumes n: "nets_ok c" and st: "state_typed st" and r: "conf_line c raw st = Ok st'"
  shows "state_typed st'"
proof (cases "trim raw = []")
  case False
  show ?thesis
  proof (cases "comment_of (trim raw)")
    case None
    show ?thesis
    proof (cases "Option.bind (strip_prefix (asc ''['') (trim raw)) (strip_suffix (asc '']''))")
      case None': None
      have "setting_line c (trim raw) st = Ok st'" using r unfolding conf_line_def Let_def if_not_P [OF False] None None' option.case .
      then show ?thesis by (rule setting_line_typed [OF n st])
    next
      case (Some h)
      have "header_line h st = Ok st'" using r unfolding conf_line_def Let_def if_not_P [OF False] None Some option.case .
      then show ?thesis by (rule header_line_typed [OF st])
    qed
  next
    case (Some x)
    have "comment_line x st = Ok st'" using r unfolding conf_line_def Let_def if_not_P [OF False] Some option.case .
    then show ?thesis by (rule comment_line_typed [OF st])
  qed
qed (use st r in \<open>simp add: conf_line_def\<close>)

lemma conf_lines_typed: "nets_ok c \<Longrightarrow> state_typed st \<Longrightarrow> conf_lines c ls st = Ok st' \<Longrightarrow> state_typed st'"
proof (induction ls arbitrary: st)
  case (Cons l ls)
  obtain st1 where "conf_line c l st = Ok st1" "conf_lines c ls st1 = Ok st'" using Cons.prems(3) by (cases "conf_line c l st") simp_all
  then show ?case using Cons.IH Cons.prems(1) conf_line_typed [OF Cons.prems(1,2)] by blast
qed simp

lemma number_labels_typed: "list_all typed_or_unnamed ps \<Longrightarrow> number_labels n ps = Ok qs \<Longrightarrow> list_all peer_typed qs"
proof (induction ps arbitrary: n qs)
  case (Cons p ps)
  let ?l = "label_new (asc ''peer'' @ show_nat (n + 1))"
  let ?p = "if pc_label p = [] then attempt ?l Label (\<lambda>l. Ok (p\<lparr>pc_label := l\<rparr>)) else Ok p"
  obtain q rs where q: "?p = Ok q" "number_labels (n + 1) ps = Ok rs" "qs = q # rs"
    using Cons.prems(2) by (cases ?p; cases "number_labels (n + 1) ps") simp_all
  have "peer_typed q"
  proof (cases "pc_label p = []")
    case True
    then obtain l where l: "?l = Ok l" "q = p\<lparr>pc_label := l\<rparr>" using q(1) by (cases ?l) simp_all
    have "label_new [] \<noteq> Ok []" by (simp add: label_new_def)
    then show ?thesis using Cons.prems(1) True label_new_idem [OF l(1)]
      by (simp add: typed_or_unnamed_def peer_typed_def l(2))
  qed (use Cons.prems(1) q(1) in \<open>simp add: typed_or_unnamed_def\<close>)
  then show ?case using Cons.IH [OF _ q(2)] Cons.prems(1) q(3) by simp
qed simp

lemma parsed_typed:
  assumes "nets_ok c" "parse_gateway_conf c txt = Ok conf"
  shows "list_all peer_typed (gc_peers conf)" "check_peers c (gc_peers conf) = Ok ()"
proof -
  obtain st st' ps where p: "conf_lines c (lines txt) conf_start = Ok st" "flush_pending st = Ok st'"
    "number_labels 0 (cs_peers st') = Ok ps" "check_peers c ps = Ok ()" "gc_peers conf = ps"
    using assms(2) by (auto simp: parse_gateway_conf_def attempt_Ok)
  have "state_typed conf_start" by (simp add: state_typed_def conf_start_def)
  then have "state_typed st'" using flush_typed [OF conf_lines_typed [OF assms(1) _ p(1)] p(2)] by blast
  then show "list_all peer_typed (gc_peers conf)" "check_peers c (gc_peers conf) = Ok ()"
    using number_labels_typed [OF _ p(3)] p(4,5) by (simp_all add: state_typed_def)
qed

text \<open>The peers that claim an address.\<close>

definition claims :: "peer_conf \<Rightarrow> ip_addr \<Rightarrow> bool" where
  "claims p a \<longleftrightarrow> (\<exists>n\<in>set (pc_allowed p). in_net a n)"

lemma in_net_overlaps: "in_net a m \<Longrightarrow> in_net a n \<Longrightarrow> in_net (net_base m) n \<or> in_net (net_base n) m"
proof (cases a)
  case (V4 x)
  then show "in_net a m \<Longrightarrow> in_net a n \<Longrightarrow> ?thesis"
    by (cases m; cases n) (auto simp: in_agree agree_common)
next
  case (V6 x)
  then show "in_net a m \<Longrightarrow> in_net a n \<Longrightarrow> ?thesis"
    by (cases m; cases n) (auto simp: in_agree agree_common)
qed

lemma check_others_ok:
  assumes "nets_ok c" "check_others c p qs = Ok ()" "q \<in> set qs"
  shows "pc_public q \<noteq> pc_public p" "pc_label q \<noteq> pc_label p" "\<not> (claims p a \<and> claims q a)"
proof -
  have *: "pc_public q \<noteq> pc_public p \<and> pc_label q \<noteq> pc_label p \<and>
    (\<forall>m\<in>set (pc_allowed p). \<forall>n\<in>set (pc_allowed q). \<not> overlaps c n m)"
    using assms(2,3) by (induction qs) (auto simp: list_ex_iff split: if_splits)
  then show "pc_public q \<noteq> pc_public p" "pc_label q \<noteq> pc_label p" by blast+
  have "overlaps c n m" if "in_net a m" "in_net a n" for m n
    using in_net_overlaps [OF that] assms(1) by (simp add: overlaps_def nets_ok_def)
  then show "\<not> (claims p a \<and> claims q a)" using * by (auto simp: claims_def)
qed

lemma check_pairs_ok:
  assumes "nets_ok c" "check_pairs c ps = Ok ()"
  shows "distinct (map pc_public ps)" "distinct (map pc_label ps)"
    "p \<in> set ps \<Longrightarrow> q \<in> set ps \<Longrightarrow> claims p a \<Longrightarrow> claims q a \<Longrightarrow> p = q"
proof -
  have "distinct (map pc_public ps) \<and> distinct (map pc_label ps) \<and> (\<forall>p\<in>set ps. \<forall>q\<in>set ps. claims p a \<and> claims q a \<longrightarrow> p = q)"
    using assms(2)
  proof (induction ps)
    case (Cons p ps)
    then have o: "check_others c p ps = Ok ()" by (auto simp: attempt_Ok)
    note O = check_others_ok [OF assms(1) o]
    have "distinct (map pc_public ps)" "distinct (map pc_label ps)" "\<forall>p\<in>set ps. \<forall>q\<in>set ps. claims p a \<and> claims q a \<longrightarrow> p = q"
      using Cons by (auto simp: attempt_Ok)
    moreover have "pc_public p \<notin> pc_public ` set ps" "pc_label p \<notin> pc_label ` set ps" using O(1,2) by fastforce+
    ultimately show ?case using O(3) by (simp, blast)
  qed simp
  then show "distinct (map pc_public ps)" "distinct (map pc_label ps)"
    "p \<in> set ps \<Longrightarrow> q \<in> set ps \<Longrightarrow> claims p a \<Longrightarrow> claims q a \<Longrightarrow> p = q" by blast+
qed

end
