(* ===== verification/Conf_Properties.thy ===== *)
theory Conf_Properties
  imports Conf_Reading
begin

text \<open>
  The properties of the configuration file, with closed instances on a codec that spells a byte as
  two letters.
\<close>

section \<open>A codec and a configuration\<close>

fun spell :: "bytes \<Rightarrow> bytes" where
  "spell [] = []"
| "spell (b # bs) = (65 + b div 16) # (65 + b mod 16) # spell bs"

fun unspell :: "bytes \<Rightarrow> bytes option" where
  "unspell [] = Some []"
| "unspell [_] = None"
| "unspell (a # b # bs) = map_option ((#) ((a - 65) * 16 + (b - 65))) (unspell bs)"

fun spell_net :: "ip_network \<Rightarrow> bytes" where
  "spell_net (NetV4 b p) = 52 # spell (be_bytes 4 (unat b) @ [of_nat p])"
| "spell_net (NetV6 b p) = 54 # spell (be_bytes 16 (unat b) @ [of_nat p])"

fun unspell_net :: "bytes \<Rightarrow> ip_network option" where
  "unspell_net [] = None"
| "unspell_net (f # r) =
     (case unspell r of
        None \<Rightarrow> None
      | Some bs \<Rightarrow>
          if bs = [] then None
          else let n = (if f = 52 then NetV4 (of_nat (be_val (butlast bs))) (unat (last bs))
                        else NetV6 (of_nat (be_val (butlast bs))) (unat (last bs)))
               in if net_normal n then Some n else None)"

definition spell_codec :: codec where
  "spell_codec = \<lparr>cd_encode = spell, cd_decode = unspell, cd_secret = id, cd_public = rev, cd_net_parse = unspell_net,
     cd_net_show = spell_net, cd_contains = (\<lambda>n a. in_net a n), cd_address = net_base,
     cd_new4 = (\<lambda>b p. Some (NetV4 b p)), cd_new6 = (\<lambda>b p. Some (NetV6 b p))\<rparr>"

lemma nibbles:
  fixes b :: u8
  shows "plain (65 + b div 16)" "plain (65 + b mod 16)" "65 + b div 16 \<noteq> 44" "65 + b mod 16 \<noteq> 44"
proof -
  have "unat b < 2 ^ LENGTH(8)" by (rule unsigned_less)
  then have d: "unat (b div 16) < 16" "unat (b mod 16) < 16" by (simp_all add: unat_div unat_mod less_mult_imp_div_less)
  then have u: "unat (65 + b div 16) = 65 + unat (b div 16)" "unat (65 + b mod 16) = 65 + unat (b mod 16)"
    by (simp_all add: unat_word_ariths)
  show "plain (65 + b div 16)" "plain (65 + b mod 16)" using d u by (simp_all add: plain_def word_le_nat_alt)
  show "65 + b div 16 \<noteq> 44" "65 + b mod 16 \<noteq> 44" using d u by (auto simp: word_unat_eq_iff)
qed

lemma unspell_spell: "unspell (spell bs) = Some bs"
  by (induction bs) (simp_all add: div_mult_mod_eq)

lemma spell_plain: "list_all plain (spell bs)" "44 \<notin> set (spell bs)"
  by (induction bs) (simp_all add: nibbles)

lemma spell_codec_ok: "codec_ok spell_codec" "nets_ok spell_codec"
proof -
  have net: "unspell_net (spell_net n) = Some n \<and> spell_net n \<noteq> [] \<and> list_all plain (spell_net n) \<and> 44 \<notin> set (spell_net n)"
    if "net_normal n" for n
  proof (cases n)
    case (NetV4 b p)
    then have "unat (of_nat p :: u8) = p" using that by (simp add: unat_of_nat)
    moreover have "unat b mod 4294967296 = unat b" using unsigned_less [of b, where ?'a = nat] by simp
    ultimately show ?thesis using that NetV4 spell_plain [of "be_bytes 4 (unat b) @ [of_nat p]"]
      by (simp add: unspell_spell be_val_be_bytes plain_def)
  next
    case (NetV6 b p)
    then have "unat (of_nat p :: u8) = p" using that by (simp add: unat_of_nat)
    moreover have "unat b mod 340282366920938463463374607431768211456 = unat b" using unsigned_less [of b, where ?'a = nat] by simp
    ultimately show ?thesis using that NetV6 spell_plain [of "be_bytes 16 (unat b) @ [of_nat p]"]
      by (simp add: unspell_spell be_val_be_bytes plain_def)
  qed
  have "spell b \<noteq> []" if "length b = KEY_LEN" for b using that by (cases b) (simp_all add: KEY_LEN_def)
  then show "codec_ok spell_codec" using net spell_plain(1) by (simp add: codec_ok_def spell_codec_def unspell_spell)
  have "net_normal n" if "unspell_net t = Some n" for t n
    using that by (cases t) (auto simp: Let_def split: option.splits if_splits)
  then show "nets_ok spell_codec" by (simp add: nets_ok_def spell_codec_def)
qed

definition sample_conf :: gateway_conf where
  "sample_conf = \<lparr>gc_key = \<lparr>gk_secret = replicate 32 1, gk_public = replicate 32 1\<rparr>,
     gc_peers = [\<lparr>pc_label = [97], pc_public = replicate 32 2, pc_psk = Some (replicate 32 3), pc_allowed = [NetV4 0x0a430002 32]\<rparr>,
                 \<lparr>pc_label = [98], pc_public = replicate 32 4, pc_psk = None, pc_allowed = [NetV4 0x0a430003 32, NetV6 5 128]\<rparr>]\<rparr>"

lemma sample_conf_ok:
  "key_typed spell_codec (gc_key sample_conf)" "list_all peer_typed (gc_peers sample_conf)" "validate spell_codec sample_conf = Ok ()"
  by (simp_all add: key_typed_def sample_conf_def KEY_LEN_def spell_codec_def peer_typed_def label_new_def is_ascii_alphanumeric_def
      mask32_def mask128_def validate_def check_peers_def overlaps_v4_def overlaps_v6_def in_v4_def in_v6_def TUNNEL_POOL_V4_def
      TUNNEL_POOL_V6_def overlaps_def mask_eq_exp_minus_1)

lemma render_reads:
  assumes ok: "codec_ok c" and k: "key_typed c (gc_key conf)" and ps: "list_all peer_typed (gc_peers conf)"
    and v: "validate c conf = Ok ()"
  shows "parse_gateway_conf c (render_gateway_conf c conf) = Ok conf"
proof -
  let ?ls = "[asc ''[Interface]'', asc ''PrivateKey = '' @ gateway_key_to_base64 c (gc_key conf)] @ concat (map (peer_lines c) (gc_peers conf))"
  have ps': "list_all (\<lambda>p. peer_typed p \<and> pc_allowed p \<noteq> []) (gc_peers conf)"
    using ps v by (simp add: validate_def check_peers_ok check_each_ok list_all_iff)
  have ls: "lines (render_gateway_conf c conf) = ?ls"
    unfolding render_gateway_conf_def using rendered_chars [OF ok k ps'] by (intro lines_concat)
  let ?st = "conf_start\<lparr>cs_section := InterfaceSection, cs_key := Some (gc_key conf)\<rparr>"
  have head: "conf_lines c [asc ''[Interface]'', asc ''PrivateKey = '' @ gateway_key_to_base64 c (gc_key conf)] conf_start = Ok ?st"
    using ok k by (simp add: read_headers flush_pending_def conf_start_def read_private_key key_typed_def)
  have "flush_pending ?st = Ok ?st" by (simp add: flush_pending_def conf_start_def)
  from read_peers [OF ok ps' this] obtain st2 st3 where st: "conf_lines c (concat (map (peer_lines c) (gc_peers conf))) ?st = Ok st2"
    "flush_pending st2 = Ok st3" "cs_peers st3 = gc_peers conf" "cs_key st3 = Some (gc_key conf)"
    by (auto simp: conf_start_def)
  have l: "conf_lines c ?ls conf_start = Ok st2" using head st(1) by (simp only: conf_lines_append attempt.simps id_apply)
  have "list_all (\<lambda>p. pc_label p \<noteq> []) (gc_peers conf)" using ps label_plain(1) by (auto simp: list_all_iff peer_typed_def)
  then have "number_labels 0 (gc_peers conf) = Ok (gc_peers conf)" by (rule labels_stay)
  then show ?thesis using v unfolding parse_gateway_conf_def ls l by (simp add: st ok_or_def validate_def)
qed

section \<open>Properties\<close>

text \<open>
  C12.  A configuration that passes the checks survives the file: what \<open>render_gateway_conf\<close> writes,
  \<open>parse_gateway_conf\<close> reads back as the same key and the same peers, in the same order, with their
  labels, preshared keys and networks.
\<close>

theorem conf_roundtrip:
  assumes "codec_ok c" and "key_typed c (gc_key conf)" and "list_all peer_typed (gc_peers conf)" and "validate c conf = Ok ()"
  shows "parse_gateway_conf c (render_gateway_conf c conf) = Ok conf"
  using assms by (rule render_reads)

theorem conf_roundtrip_witness:
  "parse_gateway_conf spell_codec (render_gateway_conf spell_codec sample_conf) = Ok sample_conf"
  by (rule conf_roundtrip [OF spell_codec_ok(1) sample_conf_ok])

text \<open>
  C13.  Whatever text is read, an accepted configuration names every peer unambiguously: no two
  peers share a key or a label, every peer has a usable label and networks, every address has at
  most one owner, and no peer owns an address of the tunnel pool.
\<close>

theorem parsed_owners_unique:
  assumes "nets_ok c" and "parse_gateway_conf c txt = Ok conf"
  shows "distinct (map pc_public (gc_peers conf)) \<and> distinct (map pc_label (gc_peers conf)) \<and>
    (\<forall>p\<in>set (gc_peers conf). peer_typed p \<and> pc_allowed p \<noteq> [] \<and> (\<forall>a. claims p a \<longrightarrow> \<not> is_tunnel_pool a)) \<and>
    (\<forall>a. \<forall>p\<in>set (gc_peers conf). \<forall>q\<in>set (gc_peers conf). claims p a \<and> claims q a \<longrightarrow> p = q)"
proof -
  note t = parsed_typed [OF assms]
  have c: "check_each (gc_peers conf) = Ok ()" "check_pairs c (gc_peers conf) = Ok ()" using t(2) by (simp_all add: check_peers_ok)
  have "peer_typed p \<and> pc_allowed p \<noteq> [] \<and> (\<forall>a. claims p a \<longrightarrow> \<not> is_tunnel_pool a)" if "p \<in> set (gc_peers conf)" for p
    using t(1) c(1) that by (auto simp: check_each_ok list_all_iff list_ex_iff claims_def overlaps_pool_common)
  then show ?thesis using check_pairs_ok [OF assms(1) c(2)] by blast
qed

theorem parsed_owners_unique_witness:
  "\<exists>conf. parse_gateway_conf spell_codec (render_gateway_conf spell_codec sample_conf) = Ok conf \<and>
     distinct (map pc_label (gc_peers conf)) \<and> length (gc_peers conf) = 2"
proof -
  note r = render_reads [OF spell_codec_ok(1) sample_conf_ok]
  have "length (gc_peers sample_conf) = 2" by (simp add: sample_conf_def)
  then show ?thesis using parsed_owners_unique [OF spell_codec_ok(2) r] r by blast
qed

text \<open>
  C40.  What a peer is told to route into the tunnel is exactly everything but the excluded prefixes,
  in both families, or in IPv4 only when the peer has no IPv6 address.
\<close>

theorem client_routes_exact:
  assumes "builds_v4 (cd_new4 c)" and "builds_v6 (cd_new6 c)" and "\<forall>n\<in>set (cc_lan_exclude conf). net_ok n"
  shows "(\<exists>n\<in>set (allowed_ips c conf). in_net a n) \<longleftrightarrow>
    \<not> (\<exists>n\<in>set (cc_lan_exclude conf). in_net a n) \<and> (is_ipv6 a \<longrightarrow> cc_address_v6 conf \<noteq> None)"
proof -
  let ?c = "complement (cd_new4 c) (cd_new6 c) (cc_lan_exclude conf)"
  have e: "(\<exists>n\<in>set ?c. in_net a n) \<longleftrightarrow> \<not> (\<exists>n\<in>set (cc_lan_exclude conf). in_net a n)"
    using assms by (rule complement_covers)
  have "in_net a n \<Longrightarrow> net_is_ipv4 n \<longleftrightarrow> \<not> is_ipv6 a" for n by (cases a; cases n) simp_all
  then have "(\<exists>n\<in>set (filter net_is_ipv4 ?c). in_net a n) \<longleftrightarrow> (\<exists>n\<in>set ?c. in_net a n) \<and> \<not> is_ipv6 a" by auto
  moreover have "allowed_ips c conf = (if cc_address_v6 conf = None then filter net_is_ipv4 ?c else ?c)"
    by (simp add: allowed_ips_def Let_def)
  ultimately show ?thesis using e by auto
qed

definition sample_client :: client_conf where
  "sample_client = \<lparr>cc_label = [97], cc_private_key = spell (replicate 32 1), cc_address_v4 = 0x0a430002, cc_address_v6 = None,
     cc_gateway_public = replicate 32 2, cc_psk = replicate 32 3, cc_endpoint = (V4 0x01020304, 51820), cc_dns = None,
     cc_mtu = 1280, cc_keepalive = 25, cc_lan_exclude = [NetV4 0x0a000000 8]\<rparr>"

theorem client_routes_exact_witness:
  "(\<exists>n\<in>set (allowed_ips spell_codec sample_client). in_net (V4 0x08080808) n) \<and>
   \<not> (\<exists>n\<in>set (allowed_ips spell_codec sample_client). in_net (V4 0x0a010203) n) \<and>
   \<not> (\<exists>n\<in>set (allowed_ips spell_codec sample_client). in_net (V6 1) n)"
proof -
  have b: "builds_v4 (cd_new4 spell_codec)" "builds_v6 (cd_new6 spell_codec)" "\<forall>n\<in>set (cc_lan_exclude sample_client). net_ok n"
    by (simp_all add: builds_v4_def builds_v6_def spell_codec_def sample_client_def)
  show ?thesis unfolding client_routes_exact [OF b] by (simp add: sample_client_def in_v4_def mask32_def mask_eq_exp_minus_1)
qed

end
