(* ===== verification/Responder.thy ===== *)
theory Responder
  imports Conf Icmp Rate_Limit Session_Index
begin

text \<open>
  \<open>warren-bolthole-core/src/responder.rs\<close>: the gateway's side of the WireGuard protocol.  The crates
  it drives are the fields of the argument \<open>w :: ('n, 't) wire\<close>: \<open>boringtun\<close>, whose tunnels are values
  of \<open>'t\<close> and whose shared rate limiter, clock and randomness are one state of \<open>'n\<close>, and the prefix
  table of \<open>ip_network_table\<close>, which is the list of its insertions and a lookup.  A slice of the
  scratch buffer is its bytes.
\<close>

unbundle bit_operations_syntax

section \<open>The crates the responder drives\<close>

datatype wireguard_error = WrongTai64nTimestamp | ConnectionExpired | OtherWireGuardError

datatype tunn_result =
    TunnDone | TunnErr wireguard_error | WriteToNetwork bytes | WriteToTunnelV4 bytes u32 | WriteToTunnelV6 bytes u128

datatype wg_packet = HandshakeInit bytes | HandshakeResponse u32 | PacketCookieReply u32 | PacketData u32

record ('n, 't) wire =
  wg_limiter :: "bytes \<Rightarrow> u64 \<Rightarrow> 'n"
  wg_reset_count :: "'n \<Rightarrow> 'n"
  wg_verify :: "'n \<Rightarrow> ip_addr \<Rightarrow> bytes \<Rightarrow> 'n \<times> (tunn_result + wg_packet)"
  wg_anon :: "bytes \<Rightarrow> bytes \<Rightarrow> bytes \<Rightarrow> bytes option"
  wg_new :: "'n \<Rightarrow> bytes \<Rightarrow> bytes \<Rightarrow> bytes option \<Rightarrow> u32 \<Rightarrow> 'n \<times> 't"
  wg_decapsulate :: "'n \<Rightarrow> 't \<Rightarrow> ip_addr option \<Rightarrow> bytes \<Rightarrow> 'n \<times> 't \<times> tunn_result"
  wg_encapsulate :: "'n \<Rightarrow> 't \<Rightarrow> bytes \<Rightarrow> 'n \<times> 't \<times> tunn_result"
  wg_update_timers :: "'n \<Rightarrow> 't \<Rightarrow> 'n \<times> 't \<times> tunn_result"
  wg_stats :: "'t \<Rightarrow> duration option \<times> u64 \<times> u64"
  wg_dst_address :: "bytes \<Rightarrow> ip_addr option"
  rt_longest_match :: "(ip_network \<times> peer_id) list \<Rightarrow> ip_addr \<Rightarrow> peer_id option"
  wr_codec :: codec
  wr_engine :: engine

section \<open>Types\<close>

definition DEFAULT_HANDSHAKE_RATE :: u64 where "DEFAULT_HANDSHAKE_RATE = 200"
definition CLOCK_JUMP :: duration where "CLOCK_JUMP = secs 30"

record gate =
  g_open :: bool
  g_generation :: u64

datatype v6_state = V6Available | NoAssignment | BudgetTooSmall

datatype inbound =
    Uplink peer_id bytes
  | Reply bytes
  | Loopback peer_id bytes
  | Consumed
  | Dropped drop_reason

datatype encapsulated =
    Sent "ip_addr \<times> u16" bytes
  | Deferred "((ip_addr \<times> u16) \<times> bytes) option"

datatype route_error = RouteNoRoute | RouteUnknownPeer | RouteGateClosed | RouteEncapsulation

datatype unknown_peer = NoSuchPeer

record reload_report =
  rr_added :: "bytes list"
  rr_removed :: "bytes list"
  rr_rebuilt :: "bytes list"
  rr_unchanged :: nat

record responder_options =
  ro_peer_isolation :: bool
  ro_handshake_rate :: u64
  ro_per_source_rate :: u32
  ro_per_source_burst :: u32
  ro_sources_tracked :: nat
  ro_answer_rate :: u32
  ro_answer_burst :: u32

definition responder_options_default :: responder_options where
  "responder_options_default =
     \<lparr>ro_peer_isolation = True, ro_handshake_rate = DEFAULT_HANDSHAKE_RATE, ro_per_source_rate = HANDSHAKE_RATE_PER_IP,
      ro_per_source_burst = HANDSHAKE_BURST_PER_IP, ro_sources_tracked = HANDSHAKE_SOURCES_TRACKED,
      ro_answer_rate = ANSWER_RATE_PER_SECOND, ro_answer_burst = ANSWER_BURST\<rparr>"

definition peer_stats_default :: peer_stats where
  "peer_stats_default = \<lparr>ps_rx_bytes = 0, ps_tx_bytes = 0, ps_handshakes = 0, ps_deferred = 0, ps_drops = 0\<rparr>"

record 't peer =
  pr_label :: bytes
  pr_public :: peer_public_key
  pr_psk :: "preshared_key option"
  pr_allowed :: "ip_network list"
  pr_tunn :: 't
  pr_endpoint :: "(ip_addr \<times> u16) option"
  pr_stats :: peer_stats
  pr_last_drop :: "drop_reason option"

definition owns :: "codec \<Rightarrow> 't peer \<Rightarrow> ip_addr \<Rightarrow> bool" where
  "owns c p addr \<longleftrightarrow> list_ex (\<lambda>network. cd_contains c network addr) (pr_allowed p)"

definition conf_of :: "'t peer \<Rightarrow> peer_conf" where
  "conf_of p = \<lparr>pc_label = pr_label p, pc_public = pr_public p, pc_psk = pr_psk p, pc_allowed = pr_allowed p\<rparr>"

definition same_material :: "'t peer \<Rightarrow> peer_conf \<Rightarrow> bool" where
  "same_material p conf \<longleftrightarrow> pr_public p = pc_public conf \<and> pr_psk p = pc_psk conf \<and> pr_allowed p = pc_allowed conf"

text \<open>The \<open>BTreeMap\<close> of the peers is the list of its entries in the order of their keys.\<close>

fun bt_insert :: "'k::linorder \<Rightarrow> 'v \<Rightarrow> ('k \<times> 'v) list \<Rightarrow> ('k \<times> 'v) list" where
  "bt_insert k v [] = [(k, v)]"
| "bt_insert k v ((a, b) # xs) =
     (if k < a then (k, v) # (a, b) # xs else if k = a then (k, v) # xs else (a, b) # bt_insert k v xs)"

definition bt_remove :: "'k \<Rightarrow> ('k \<times> 'v) list \<Rightarrow> ('k \<times> 'v) list" where
  "bt_remove k xs = filter (\<lambda>e. fst e \<noteq> k) xs"

definition bt_update :: "'k \<Rightarrow> ('v \<Rightarrow> 'v) \<Rightarrow> ('k \<times> 'v) list \<Rightarrow> ('k \<times> 'v) list" where
  "bt_update k f xs = map (\<lambda>(a, b). (a, if a = k then f b else b)) xs"

record ('n, 't) responder =
  r_key :: gateway_key
  r_noise :: 'n
  r_peers :: "(peer_id \<times> 't peer) list"
  r_by_pubkey :: "bytes \<Rightarrow> peer_id option"
  r_by_label :: "bytes \<Rightarrow> peer_id option"
  r_routes :: "(ip_network \<times> peer_id) list"
  r_per_source :: handshake_buckets
  r_answers :: token_bucket
  r_indexes :: index_gen
  r_plan :: peer_plan
  r_isolation :: bool
  r_gate :: gate
  r_v6 :: v6_state
  r_counters :: responder_counters
  r_last_reset :: "instant option"
  r_last_wall :: "instant option"

text \<open>\<open>self.peers.get_mut(&id)\<close> followed by an update of the entry.\<close>

definition upd_peer :: "peer_id \<Rightarrow> ('t peer \<Rightarrow> 't peer) \<Rightarrow> ('n, 't) responder \<Rightarrow> ('n, 't) responder" where
  "upd_peer pid f s = s\<lparr>r_peers := bt_update pid f (r_peers s)\<rparr>"

abbreviation get_peer :: "('n, 't) responder \<Rightarrow> peer_id \<Rightarrow> 't peer option" where
  "get_peer s \<equiv> map_of (r_peers s)"

definition count :: "(responder_counters \<Rightarrow> responder_counters) \<Rightarrow> ('n, 't) responder \<Rightarrow> ('n, 't) responder" where
  "count f s = s\<lparr>r_counters := f (r_counters s)\<rparr>"

section \<open>Building and looking up\<close>

definition build_tunn :: "('n, 't) wire \<Rightarrow> peer_conf \<Rightarrow> u32 \<Rightarrow> ('n, 't) responder \<Rightarrow> ('n, 't) responder \<times> 't" where
  "build_tunn w conf index s =
     (let (n, t) = wg_new w (r_noise s) (gk_secret (r_key s)) (pc_public conf) (pc_psk conf) index
      in (s\<lparr>r_noise := n\<rparr>, t))"

definition insert_peer_at :: "('n, 't) wire \<Rightarrow> peer_conf \<Rightarrow> u32 \<Rightarrow> ('n, 't) responder \<Rightarrow> ('n, 't) responder" where
  "insert_peer_at w conf index s =
     (let (s, tunn) = build_tunn w conf index s
      in s\<lparr>r_by_pubkey := (r_by_pubkey s)(pc_public conf \<mapsto> index), r_by_label := (r_by_label s)(pc_label conf \<mapsto> index),
           r_peers := bt_insert index
             \<lparr>pr_label = pc_label conf, pr_public = pc_public conf, pr_psk = pc_psk conf, pr_allowed = pc_allowed conf,
              pr_tunn = tunn, pr_endpoint = None, pr_stats = peer_stats_default, pr_last_drop = None\<rparr> (r_peers s)\<rparr>)"

text \<open>A draw of \<open>IndexGen::next\<close>; a call that does not return is the outcome \<open>Panic\<close>.\<close>

definition draw_index :: "index_gen \<Rightarrow> (conf_error, index_gen \<times> u32) res" where
  "draw_index g =
     (case next_index g of
        None \<Rightarrow> Panic
      | Some (g, None) \<Rightarrow> Err TooManyPeers
      | Some (g, Some i) \<Rightarrow> Ok (g, i))"

definition insert_peer :: "('n, 't) wire \<Rightarrow> peer_conf \<Rightarrow> ('n, 't) responder \<Rightarrow> (conf_error, ('n, 't) responder) res" where
  "insert_peer w conf s =
     attempt (draw_index (r_indexes s)) id (\<lambda>(g, index). Ok (insert_peer_at w conf index (s\<lparr>r_indexes := g\<rparr>)))"

fun insert_peers :: "('n, 't) wire \<Rightarrow> peer_conf list \<Rightarrow> ('n, 't) responder \<Rightarrow> (conf_error, ('n, 't) responder) res" where
  "insert_peers w [] s = Ok s"
| "insert_peers w (conf # confs) s = attempt (insert_peer w conf s) id (insert_peers w confs)"

definition rebuild_lookups :: "('n, 't) responder \<Rightarrow> ('n, 't) responder" where
  "rebuild_lookups s =
     s\<lparr>r_by_pubkey := foldl (\<lambda>m (pid, p). m(pr_public p \<mapsto> pid)) Map.empty (r_peers s),
       r_by_label := foldl (\<lambda>m (pid, p). m(pr_label p \<mapsto> pid)) Map.empty (r_peers s)\<rparr>"

definition network_entries :: "(peer_id \<times> 't peer) list \<Rightarrow> (ip_network \<times> peer_id) list" where
  "network_entries ps = concat (map (\<lambda>(pid, p). map (\<lambda>network. (network, pid)) (pr_allowed p)) ps)"

definition rebuild_routes :: "('n, 't) responder \<Rightarrow> ('n, 't) responder" where
  "rebuild_routes s = s\<lparr>r_routes := network_entries (r_peers s)\<rparr>"

definition with_indexes ::
  "('n, 't) wire \<Rightarrow> gateway_conf \<Rightarrow> peer_plan \<Rightarrow> responder_options \<Rightarrow> index_gen \<Rightarrow> (conf_error, ('n, 't) responder) res" where
  "with_indexes w conf plan options indexes =
     attempt (validate (wr_codec w) conf) id (\<lambda>_.
     attempt (check_against (wr_codec w) conf plan) id (\<lambda>_.
     attempt (insert_peers w (gc_peers conf)
       \<lparr>r_key = gc_key conf, r_noise = wg_limiter w (gk_public (gc_key conf)) (ro_handshake_rate options), r_peers = [],
        r_by_pubkey = Map.empty, r_by_label = Map.empty, r_routes = [],
        r_per_source = hb_with_limits (ro_per_source_rate options) (ro_per_source_burst options) (ro_sources_tracked options),
        r_answers = tb_new (ro_answer_rate options) (ro_answer_burst options), r_indexes = indexes, r_plan = plan,
        r_isolation = ro_peer_isolation options, r_gate = \<lparr>g_open = False, g_generation = 0\<rparr>, r_v6 = V6Available,
        r_counters = responder_snapshot_default, r_last_reset = None, r_last_wall = None\<rparr>) id (\<lambda>s.
     Ok (rebuild_routes s))))"

definition set_gate :: "bool \<Rightarrow> u64 \<Rightarrow> ('n, 't) responder \<Rightarrow> ('n, 't) responder" where
  "set_gate op generation s = s\<lparr>r_gate := \<lparr>g_open = op, g_generation = generation\<rparr>\<rparr>"

definition set_ipv6 :: "v6_state \<Rightarrow> ('n, 't) responder \<Rightarrow> ('n, 't) responder" where
  "set_ipv6 state s = s\<lparr>r_v6 := state\<rparr>"

definition peer_ids :: "('n, 't) responder \<Rightarrow> peer_id list" where
  "peer_ids s = map fst (r_peers s)"

definition peer_by_label :: "('n, 't) responder \<Rightarrow> bytes \<Rightarrow> peer_id option" where
  "peer_by_label s label = r_by_label s label"

definition endpoint :: "('n, 't) responder \<Rightarrow> peer_id \<Rightarrow> (ip_addr \<times> u16) option" where
  "endpoint s pid = Option.bind (get_peer s pid) pr_endpoint"

definition responder_ownership :: "('n, 't) wire \<Rightarrow> ('n, 't) responder \<Rightarrow> ip_addr \<Rightarrow> peer_id option" where
  "responder_ownership w s = rt_longest_match w (network_entries (r_peers s))"

definition peer_confs :: "('n, 't) responder \<Rightarrow> peer_conf list" where
  "peer_confs s = map (conf_of \<circ> snd) (r_peers s)"

record peer_status =
  st_label :: bytes
  st_has_session :: bool
  st_last_handshake_secs :: "nat option"
  st_endpoint_seen :: bool
  st_stats :: peer_stats
  st_allowed_ips :: "ip_network list"
  st_last_drop :: "drop_reason option"

definition responder_snapshot_of :: "('n, 't) wire \<Rightarrow> ('n, 't) responder \<Rightarrow> peer_status list" where
  "responder_snapshot_of w s =
     map (\<lambda>(pid, p). let (handshake, tx, rx) = wg_stats w (pr_tunn p) in
       \<lparr>st_label = pr_label p, st_has_session = (handshake \<noteq> None),
        st_last_handshake_secs = map_option (\<lambda>since. since div secs 1) handshake, st_endpoint_seen = (pr_endpoint p \<noteq> None),
        st_stats = (pr_stats p)\<lparr>ps_rx_bytes := rx, ps_tx_bytes := tx\<rparr>, st_allowed_ips = pr_allowed p,
        st_last_drop = pr_last_drop p\<rparr>) (r_peers s)"

definition note_drop :: "drop_reason \<Rightarrow> ('n, 't) responder \<Rightarrow> ('n, 't) responder" where
  "note_drop reason s = count (rc_dropped reason) s"

definition note_for :: "peer_id \<Rightarrow> drop_reason \<Rightarrow> ('n, 't) responder \<Rightarrow> ('n, 't) responder" where
  "note_for pid reason s =
     note_drop reason (upd_peer pid (\<lambda>p. p\<lparr>pr_last_drop := Some reason, pr_stats := (pr_stats p)\<lparr>ps_drops := ps_drops (pr_stats p) + 1\<rparr>\<rparr>) s)"


section \<open>What a decrypted packet may be\<close>

text \<open>Further tests of the standard library on addresses.\<close>

definition v4_is_link_local :: "u32 \<Rightarrow> bool" where
  "v4_is_link_local a \<longleftrightarrow> drop_bit 16 a = 0xa9fe"
definition v4_is_private :: "u32 \<Rightarrow> bool" where
  "v4_is_private a \<longleftrightarrow> drop_bit 24 a = 10 \<or> drop_bit 20 a = 0xac1 \<or> drop_bit 16 a = 0xc0a8"

definition is_v6_link_local :: "u128 \<Rightarrow> bool" where
  "is_v6_link_local a \<longleftrightarrow> drop_bit 112 a AND 0xffc0 = 0xfe80"

fun is_unicast :: "ip_addr \<Rightarrow> bool" where
  "is_unicast (V4 a) \<longleftrightarrow> \<not> (v4_is_multicast a \<or> v4_is_broadcast a \<or> v4_is_loopback a \<or> a = 0 \<or> v4_is_link_local a)"
| "is_unicast (V6 a) \<longleftrightarrow> \<not> (v6_is_multicast a \<or> a = 1 \<or> a = 0 \<or> is_v6_link_local a)"

fun is_link_local :: "ip_addr \<Rightarrow> bool" where
  "is_link_local (V4 a) \<longleftrightarrow> v4_is_link_local a"
| "is_link_local (V6 a) \<longleftrightarrow> is_v6_link_local a"

definition is_cgnat :: "u32 \<Rightarrow> bool" where
  "is_cgnat a \<longleftrightarrow> drop_bit 24 a = 100 \<and> 64 \<le> drop_bit 16 a AND 0xff \<and> drop_bit 16 a AND 0xff < 128"

fun is_private :: "ip_addr \<Rightarrow> bool" where
  "is_private (V4 a) \<longleftrightarrow> v4_is_private a \<or> is_cgnat a"
| "is_private (V6 a) \<longleftrightarrow> drop_bit 112 a AND 0xfe00 = 0xfc00"

definition is_echo_request :: "bytes \<Rightarrow> bool" where
  "is_echo_request packet =
     (case parse_ip packet of
        Ok header \<Rightarrow>
          (case read_icmp packet (ip_l4_offset header) of
             Ok icmp \<Rightarrow> is_v6 header \<and> icmp_kind icmp = ICMPV6_ECHO_REQUEST \<or> \<not> is_v6 header \<and> icmp_kind icmp = ICMPV4_ECHO_REQUEST
           | _ \<Rightarrow> False)
      | _ \<Rightarrow> False)"

definition is_resolver_port :: "bytes \<Rightarrow> bool" where
  "is_resolver_port packet =
     (case parse_ip packet of
        Ok header \<Rightarrow>
          if ip_protocol header \<noteq> PROTO_UDP \<and> ip_protocol header \<noteq> PROTO_TCP then False
          else (case read_ports packet (ip_l4_offset header) of Ok (_, destination) \<Rightarrow> destination = 53 | _ \<Rightarrow> False)
      | _ \<Rightarrow> False)"

datatype answer = EchoAnswer | UnreachableAnswer | NoRouteV6 drop_reason

fun counted :: "answer \<Rightarrow> drop_reason option" where
  "counted EchoAnswer = None"
| "counted UnreachableAnswer = Some PrivateDestination"
| "counted (NoRouteV6 reason) = Some reason"

datatype ruling = Forward | LoopbackTo peer_id | AnswerWith answer | DropWith drop_reason

fun plan_contains :: "codec \<Rightarrow> peer_plan \<Rightarrow> ip_addr \<Rightarrow> bool" where
  "plan_contains c p (V4 a) \<longleftrightarrow> cd_contains c (NetV4 (fst (plan_v4 p)) (snd (plan_v4 p))) (V4 a)"
| "plan_contains c p (V6 a) \<longleftrightarrow> cd_contains c (NetV6 (fst (plan_v6 p)) (snd (plan_v6 p))) (V6 a)"

definition verdict :: "('n, 't) wire \<Rightarrow> ('n, 't) responder \<Rightarrow> bytes \<Rightarrow> ruling" where
  "verdict w s packet =
     (case wg_dst_address w packet of
        None \<Rightarrow> DropWith MalformedDatagram
      | Some dst \<Rightarrow>
          if \<not> is_unicast dst then DropWith NonUnicast
          else if plan_is_gateway (r_plan s) dst then
            (if is_echo_request packet then AnswerWith EchoAnswer else DropWith SelfDestination)
          else (case rt_longest_match w (r_routes s) dst of
            Some owner \<Rightarrow> if r_isolation s then DropWith PeerIsolation else LoopbackTo owner
          | None \<Rightarrow>
              if plan_contains (wr_codec w) (r_plan s) dst then DropWith UnownedPeerAddress
              else if is_tunnel_pool dst then
                (if is_tunnel_gateway dst \<and> is_resolver_port packet then Forward else DropWith PoolDestination)
              else if is_private dst then AnswerWith UnreachableAnswer
              else if is_ipv6 dst then
                (case r_v6 s of
                   V6Available \<Rightarrow> Forward
                 | NoAssignment \<Rightarrow> AnswerWith (NoRouteV6 V6Unavailable)
                 | BudgetTooSmall \<Rightarrow> AnswerWith (NoRouteV6 V6Budget))
              else Forward))"

section \<open>Datagrams from the network\<close>

datatype outcome = NetworkOut bytes u8 | TunnelOut bytes ip_addr | DoneOut | FailedOut drop_reason

definition first_byte :: "bytes \<Rightarrow> u8" where
  "first_byte bs = (case bs of [] \<Rightarrow> 0 | b # _ \<Rightarrow> b)"

fun summarize :: "tunn_result \<Rightarrow> outcome" where
  "summarize TunnDone = DoneOut"
| "summarize (TunnErr WrongTai64nTimestamp) = FailedOut Replay"
| "summarize (TunnErr _) = FailedOut Auth"
| "summarize (WriteToNetwork bs) = NetworkOut bs (first_byte bs)"
| "summarize (WriteToTunnelV4 bs src) = TunnelOut bs (V4 src)"
| "summarize (WriteToTunnelV6 bs src) = TunnelOut bs (V6 src)"

definition decapsulate ::
  "('n, 't) wire \<Rightarrow> peer_id \<Rightarrow> ip_addr \<times> u16 \<Rightarrow> bytes \<Rightarrow> ('n, 't) responder \<Rightarrow> ('n, 't) responder \<times> outcome" where
  "decapsulate w pid src datagram s =
     (case get_peer s pid of
        None \<Rightarrow> (s, FailedOut UnknownIndex)
      | Some p \<Rightarrow>
          let (n, t, r) = wg_decapsulate w (r_noise s) (pr_tunn p) (Some (fst src)) datagram
          in (upd_peer pid (\<lambda>p. p\<lparr>pr_tunn := t\<rparr>) (s\<lparr>r_noise := n\<rparr>), summarize r))"

definition encapsulate_into ::
  "('n, 't) wire \<Rightarrow> peer_id \<Rightarrow> bytes \<Rightarrow> ('n, 't) responder \<Rightarrow> ('n, 't) responder \<times> bytes option" where
  "encapsulate_into w pid packet s =
     (case get_peer s pid of
        None \<Rightarrow> (s, None)
      | Some p \<Rightarrow>
          let (n, t, r) = wg_encapsulate w (r_noise s) (pr_tunn p) packet;
              s = upd_peer pid (\<lambda>p. p\<lparr>pr_tunn := t\<rparr>) (s\<lparr>r_noise := n\<rparr>)
          in (case r of
                WriteToNetwork bs \<Rightarrow>
                  if bs \<noteq> [] \<and> first_byte bs = 4
                  then (upd_peer pid (\<lambda>p. p\<lparr>pr_stats := (pr_stats p)\<lparr>ps_tx_bytes := ps_tx_bytes (pr_stats p) + of_nat (length packet)\<rparr>\<rparr>) s,
                        Some bs)
                  else (s, None)
              | _ \<Rightarrow> (s, None)))"

text \<open>The answer the gateway builds: \<open>Err ()\<close> where the source has \<open>None\<close>; indexing an empty packet panics.\<close>

fun build_answer :: "('n, 't) wire \<Rightarrow> peer_plan \<Rightarrow> bytes \<Rightarrow> answer \<Rightarrow> (unit, bytes) res" where
  "build_answer w plan packet EchoAnswer =
     with_nth packet 0 (\<lambda>b. if drop_bit 4 b = 4 then build_echo_reply_v4 (wr_engine w) packet else build_echo_reply_v6 (wr_engine w) packet)"
| "build_answer w plan packet UnreachableAnswer =
     with_nth packet 0 (\<lambda>b. if drop_bit 4 b = 4 then build_unreachable_v4 (wr_engine w) packet (gateway_v4 plan)
       else build_unreachable_v6 (wr_engine w) packet (gateway_v6 plan))"
| "build_answer w plan packet (NoRouteV6 _) = build_unreachable_v6 (wr_engine w) packet (gateway_v6 plan)"

definition deliver ::
  "('n, 't) wire \<Rightarrow> peer_id \<Rightarrow> bytes \<Rightarrow> instant \<Rightarrow> ('n, 't) responder \<Rightarrow> ('n, 't) responder \<times> (unit, inbound) res" where
  "deliver w pid packet now s =
     (case verdict w s packet of
        Forward \<Rightarrow> (count rc_uplink s, Ok (Uplink pid packet))
      | LoopbackTo to \<Rightarrow> (count rc_loopback s, Ok (Loopback to packet))
      | DropWith reason \<Rightarrow> (note_for pid reason s, Ok (Dropped reason))
      | AnswerWith reason \<Rightarrow>
          let s = (case counted reason of None \<Rightarrow> s | Some class \<Rightarrow> count (rc_dropped class) s);
              (b, admitted) = tb_admit (r_answers s) now;
              s = s\<lparr>r_answers := b\<rparr>
          in if \<not> admitted then (count rc_answer_suppressed s, Ok Consumed)
             else (case build_answer w (r_plan s) packet reason of
                     Panic \<Rightarrow> (s, Panic)
                   | Err _ \<Rightarrow> (s, Ok Consumed)
                   | Ok built \<Rightarrow>
                       (case encapsulate_into w pid built s of
                          (s, Some out) \<Rightarrow> (count (rc_reply False) s, Ok (Reply out))
                        | (s, None) \<Rightarrow> (s, Ok Consumed))))"

definition demux ::
  "('n, 't) wire \<Rightarrow> ip_addr \<times> u16 \<Rightarrow> bytes \<Rightarrow> u32 \<Rightarrow> u8 \<Rightarrow> instant \<Rightarrow> ('n, 't) responder \<Rightarrow>
     ('n, 't) responder \<times> (unit, inbound) res" where
  "demux w src datagram receiver_idx kind now s =
     (let pid = drop_bit 8 receiver_idx in
      if get_peer s pid = None then (note_drop UnknownIndex s, Ok (Dropped UnknownIndex))
      else
        let (s, outcome) = decapsulate w pid src datagram s;
            roam = (case outcome of
                      FailedOut _ \<Rightarrow> False
                    | NetworkOut _ out \<Rightarrow> kind = 4 \<or> kind = 2 \<and> out \<noteq> 3
                    | _ \<Rightarrow> kind = 4);
            s = (if roam then upd_peer pid (\<lambda>p. p\<lparr>pr_endpoint := Some src\<rparr>) s else s)
        in (case outcome of
              FailedOut reason \<Rightarrow> (note_for pid reason s, Ok (Dropped reason))
            | DoneOut \<Rightarrow> (s, Ok Consumed)
            | NetworkOut bs _ \<Rightarrow>
                if \<not> g_open (r_gate s) then (note_for pid GateClosed s, Ok (Dropped GateClosed))
                else (count (rc_reply False) s, Ok (Reply bs))
            | TunnelOut packet inner \<Rightarrow>
                (case get_peer s pid of
                   None \<Rightarrow> (note_drop UnknownIndex s, Ok (Dropped UnknownIndex))
                 | Some p \<Rightarrow>
                     if \<not> owns (wr_codec w) p inner then
                       let reason = (if is_link_local inner then LinkLocalSource else SpoofedSource)
                       in (note_for pid reason s, Ok (Dropped reason))
                     else if \<not> g_open (r_gate s) then (note_for pid GateClosed s, Ok (Dropped GateClosed))
                     else deliver w pid packet now
                       (upd_peer pid (\<lambda>p. p\<lparr>pr_stats := (pr_stats p)\<lparr>ps_rx_bytes := ps_rx_bytes (pr_stats p) + of_nat (length packet)\<rparr>\<rparr>) s))))"

definition handshake_init ::
  "('n, 't) wire \<Rightarrow> ip_addr \<times> u16 \<Rightarrow> bytes \<Rightarrow> bytes \<Rightarrow> instant \<Rightarrow> ('n, 't) responder \<Rightarrow> ('n, 't) responder \<times> (unit, inbound) res" where
  "handshake_init w src datagram init now s =
     (if \<not> g_open (r_gate s) then (count rc_handshake_refused_gate_closed s, Ok (Dropped GateClosed))
      else
        let (h, admitted) = hb_admit (r_per_source s) (fst src) now;
            s = s\<lparr>r_per_source := h\<rparr>
        in if \<not> admitted then (note_drop SourceRateLimited s, Ok (Dropped SourceRateLimited))
           else (case wg_anon w (gk_secret (r_key s)) (gk_public (r_key s)) init of
                   None \<Rightarrow> (note_drop Auth s, Ok (Dropped Auth))
                 | Some public \<Rightarrow>
                     (case r_by_pubkey s public of
                        None \<Rightarrow> (note_drop UnknownPeer s, Ok (Dropped UnknownPeer))
                      | Some pid \<Rightarrow>
                          let (s, outcome) = decapsulate w pid src datagram s
                          in (case outcome of
                                NetworkOut bs kind \<Rightarrow>
                                  let s = (if kind = 2
                                           then count rc_handshake (upd_peer pid (\<lambda>p. p\<lparr>pr_endpoint := Some src,
                                                  pr_stats := (pr_stats p)\<lparr>ps_handshakes := ps_handshakes (pr_stats p) + 1\<rparr>\<rparr>) s)
                                           else s)
                                  in (count (rc_reply (kind = 3)) s, Ok (Reply bs))
                              | FailedOut reason \<Rightarrow> (note_for pid reason s, Ok (Dropped reason))
                              | _ \<Rightarrow> (note_for pid Auth s, Ok (Dropped Auth))))))"

definition handle_datagram ::
  "('n, 't) wire \<Rightarrow> ip_addr \<times> u16 \<Rightarrow> bytes \<Rightarrow> instant \<Rightarrow> ('n, 't) responder \<Rightarrow> ('n, 't) responder \<times> (unit, inbound) res" where
  "handle_datagram w src datagram now s =
     (let s = count rc_datagram s in
      if 65535 < length datagram then (note_drop Oversize s, Ok (Dropped Oversize))
      else
        let (n, verified) = wg_verify w (r_noise s) (fst src) datagram;
            s = s\<lparr>r_noise := n\<rparr>
        in (case verified of
              Inl (WriteToNetwork cookie) \<Rightarrow> (count (rc_reply True) s, Ok (Reply cookie))
            | Inl _ \<Rightarrow> (note_drop MalformedDatagram s, Ok (Dropped MalformedDatagram))
            | Inr (HandshakeInit init) \<Rightarrow> handshake_init w src datagram init now s
            | Inr (HandshakeResponse receiver_idx) \<Rightarrow> demux w src datagram receiver_idx 2 now s
            | Inr (PacketCookieReply receiver_idx) \<Rightarrow> demux w src datagram receiver_idx 3 now s
            | Inr (PacketData receiver_idx) \<Rightarrow> demux w src datagram receiver_idx 4 now s))"

section \<open>Packets for a peer, and the timers\<close>

definition flush_queue :: "('n, 't) wire \<Rightarrow> peer_id \<Rightarrow> ('n, 't) responder \<Rightarrow> ('n, 't) responder \<times> bytes option" where
  "flush_queue w pid s =
     (if \<not> g_open (r_gate s) then (s, None)
      else (case get_peer s pid of
              None \<Rightarrow> (s, None)
            | Some p \<Rightarrow>
                let (n, t, r) = wg_decapsulate w (r_noise s) (pr_tunn p) None [];
                    s = upd_peer pid (\<lambda>p. p\<lparr>pr_tunn := t\<rparr>) (s\<lparr>r_noise := n\<rparr>)
                in (case r of WriteToNetwork bs \<Rightarrow> (s, Some bs) | _ \<Rightarrow> (s, None))))"

definition send_to_peer ::
  "('n, 't) wire \<Rightarrow> peer_id \<Rightarrow> bytes \<Rightarrow> ('n, 't) responder \<Rightarrow> ('n, 't) responder \<times> (route_error, encapsulated) res" where
  "send_to_peer w pid packet s =
     (if \<not> g_open (r_gate s) then (s, Err RouteGateClosed)
      else (case get_peer s pid of
              None \<Rightarrow> (s, Err RouteUnknownPeer)
            | Some p \<Rightarrow>
                let (n, t, r) = wg_encapsulate w (r_noise s) (pr_tunn p) packet;
                    s = upd_peer pid (\<lambda>p. p\<lparr>pr_tunn := t\<rparr>) (s\<lparr>r_noise := n\<rparr>);
                    deferred = upd_peer pid (\<lambda>p. p\<lparr>pr_stats := (pr_stats p)\<lparr>ps_deferred := ps_deferred (pr_stats p) + 1\<rparr>\<rparr>) s
                in (case r of
                      WriteToNetwork bs \<Rightarrow>
                        if first_byte bs = 4 then
                          let s = upd_peer pid (\<lambda>p. p\<lparr>pr_stats := (pr_stats p)\<lparr>ps_tx_bytes := ps_tx_bytes (pr_stats p) + of_nat (length packet)\<rparr>\<rparr>) s
                          in (case pr_endpoint p of
                                Some to \<Rightarrow> (s, Ok (Sent to bs))
                              | None \<Rightarrow> (count rc_dropped_without_endpoint s, Ok (Deferred None)))
                        else
                          (case pr_endpoint p of
                             Some to \<Rightarrow> (count rc_downlink_queued deferred, Ok (Deferred (Some (to, bs))))
                           | None \<Rightarrow> (count rc_dropped_without_endpoint (count rc_downlink_queued deferred), Ok (Deferred None)))
                    | TunnDone \<Rightarrow> (count rc_downlink_queued deferred, Ok (Deferred None))
                    | _ \<Rightarrow> (s, Err RouteEncapsulation))))"

definition encapsulate_to ::
  "('n, 't) wire \<Rightarrow> ip_addr \<Rightarrow> bytes \<Rightarrow> ('n, 't) responder \<Rightarrow> ('n, 't) responder \<times> (route_error, encapsulated) res" where
  "encapsulate_to w dst packet s =
     (case rt_longest_match w (r_routes s) dst of
        None \<Rightarrow> (count (rc_dropped NoRoute) s, Err RouteNoRoute)
      | Some owner \<Rightarrow> send_to_peer w owner packet s)"

definition rebuild :: "('n, 't) wire \<Rightarrow> peer_id \<Rightarrow> ('n, 't) responder \<Rightarrow> ('n, 't) responder" where
  "rebuild w pid s =
     (case get_peer s pid of
        None \<Rightarrow> s
      | Some p \<Rightarrow> let (s, t) = build_tunn w (conf_of p) pid s in upd_peer pid (\<lambda>p. p\<lparr>pr_tunn := t\<rparr>) s)"

definition detect_clock_jump :: "('n, 't) wire \<Rightarrow> instant \<Rightarrow> ('n, 't) responder \<Rightarrow> ('n, 't) responder" where
  "detect_clock_jump w wall s =
     (let jumped = (case r_last_wall s of None \<Rightarrow> False | Some before \<Rightarrow> CLOCK_JUMP < wall - before \<or> CLOCK_JUMP < before - wall);
          s = s\<lparr>r_last_wall := Some wall\<rparr>
      in if \<not> jumped then s
         else fold (\<lambda>pid s. count rc_clock_jump_reset (rebuild w pid s))
                (map fst (filter (\<lambda>(_, p). pr_endpoint p \<noteq> None) (r_peers s))) s)"

definition tick_peer ::
  "('n, 't) wire \<Rightarrow> peer_id \<Rightarrow> ('n, 't) responder \<times> ((ip_addr \<times> u16) \<times> bytes) list \<Rightarrow>
     ('n, 't) responder \<times> ((ip_addr \<times> u16) \<times> bytes) list" where
  "tick_peer w pid so =
     (let (s, out) = so in
      case get_peer s pid of
        None \<Rightarrow> (s, out)
      | Some p \<Rightarrow>
          (case pr_endpoint p of
             None \<Rightarrow> (s, out)
           | Some to \<Rightarrow>
               let (n, t, r) = wg_update_timers w (r_noise s) (pr_tunn p);
                   s = upd_peer pid (\<lambda>p. p\<lparr>pr_tunn := t\<rparr>) (s\<lparr>r_noise := n\<rparr>)
               in (case r of
                     WriteToNetwork bs \<Rightarrow> (s, if g_open (r_gate s) then out @ [(to, bs)] else out)
                   | TunnErr ConnectionExpired \<Rightarrow> (upd_peer pid (\<lambda>p. p\<lparr>pr_endpoint := None\<rparr>) s, out)
                   | _ \<Rightarrow> (s, out))))"

definition tick ::
  "('n, 't) wire \<Rightarrow> instant \<Rightarrow> instant \<Rightarrow> ('n, 't) responder \<Rightarrow> ('n, 't) responder \<times> ((ip_addr \<times> u16) \<times> bytes) list" where
  "tick w now wall s =
     (let s = (if (case r_last_reset s of None \<Rightarrow> True | Some before \<Rightarrow> secs 1 \<le> now - before)
               then s\<lparr>r_noise := wg_reset_count w (r_noise s), r_last_reset := Some now\<rparr> else s);
          s = detect_clock_jump w wall s
      in fold (tick_peer w) (map fst (r_peers s)) (s, []))"

definition reset_peer :: "('n, 't) wire \<Rightarrow> bytes \<Rightarrow> ('n, 't) responder \<Rightarrow> ('n, 't) responder \<times> (unknown_peer, unit) res" where
  "reset_peer w label s =
     (case r_by_label s label of
        None \<Rightarrow> (s, Err NoSuchPeer)
      | Some pid \<Rightarrow> (upd_peer pid (\<lambda>p. p\<lparr>pr_last_drop := None\<rparr>) (rebuild w pid s), Ok ()))"

section \<open>Reload\<close>

fun draw_fresh :: "(bytes \<Rightarrow> peer_id option) \<Rightarrow> peer_conf list \<Rightarrow> index_gen \<Rightarrow> (conf_error, index_gen \<times> u32 list) res" where
  "draw_fresh by_label [] g = Ok (g, [])"
| "draw_fresh by_label (conf # confs) g =
     (if by_label (pc_label conf) = None
      then attempt (draw_index g) id (\<lambda>(g, i). attempt (draw_fresh by_label confs g) id (\<lambda>(g, is). Ok (g, i # is)))
      else draw_fresh by_label confs g)"

definition remove_peer ::
  "peer_id \<times> bytes \<Rightarrow> ('n, 't) responder \<times> reload_report \<Rightarrow> ('n, 't) responder \<times> reload_report" where
  "remove_peer gone sr =
     (let (pid, label) = gone; (s, report) = sr
      in (s\<lparr>r_peers := bt_remove pid (r_peers s), r_by_label := (r_by_label s)(label := None)\<rparr>,
          report\<lparr>rr_removed := rr_removed report @ [label]\<rparr>))"

fun apply_peers ::
  "('n, 't) wire \<Rightarrow> peer_conf list \<Rightarrow> u32 list \<Rightarrow> ('n, 't) responder \<times> reload_report \<Rightarrow>
     (conf_error, ('n, 't) responder \<times> reload_report) res" where
  "apply_peers w [] fresh (s, report) = Ok (s, report)"
| "apply_peers w (conf # confs) fresh (s, report) =
     (case r_by_label s (pc_label conf) of
        Some pid \<Rightarrow>
          if (case get_peer s pid of None \<Rightarrow> False | Some live \<Rightarrow> same_material live conf)
          then apply_peers w confs fresh (s, report\<lparr>rr_unchanged := rr_unchanged report + 1\<rparr>)
          else
            let (s, tunn) = build_tunn w conf pid s;
                s = upd_peer pid (\<lambda>live. live\<lparr>pr_public := pc_public conf, pr_psk := pc_psk conf, pr_allowed := pc_allowed conf,
                      pr_tunn := tunn, pr_endpoint := None, pr_last_drop := None\<rparr>) s
            in apply_peers w confs fresh (s, report\<lparr>rr_rebuilt := rr_rebuilt report @ [pc_label conf]\<rparr>)
      | None \<Rightarrow>
          (case fresh of
             [] \<Rightarrow> Panic
           | index # fresh \<Rightarrow>
               apply_peers w confs fresh
                 (insert_peer_at w conf index s, report\<lparr>rr_added := rr_added report @ [pc_label conf]\<rparr>)))"

text \<open>A refused reload returns before it assigns to anything, so its state is the one it was given.\<close>

definition reload ::
  "('n, 't) wire \<Rightarrow> gateway_conf \<Rightarrow> ('n, 't) responder \<Rightarrow> (conf_error, ('n, 't) responder \<times> reload_report) res" where
  "reload w conf s =
     attempt (validate (wr_codec w) conf) id (\<lambda>_.
     attempt (check_against (wr_codec w) conf (r_plan s)) id (\<lambda>_.
     attempt (draw_fresh (r_by_label s) (gc_peers conf) (r_indexes s)) id (\<lambda>(indexes, fresh).
     let s = s\<lparr>r_indexes := indexes\<rparr>;
         wanted = pc_label ` set (gc_peers conf);
         gone = map (\<lambda>(pid, p). (pid, pr_label p)) (filter (\<lambda>(_, p). pr_label p \<notin> wanted) (r_peers s));
         sr = fold remove_peer gone (s, \<lparr>rr_added = [], rr_removed = [], rr_rebuilt = [], rr_unchanged = 0\<rparr>)
     in attempt (apply_peers w (gc_peers conf) fresh sr) id (\<lambda>(s, report).
        Ok (rebuild_routes (rebuild_lookups s), report)))))"

end
