(* ===== verification/Responder_State.thy ===== *)
theory Responder_State
  imports Responder Conf_Reading
begin

text \<open>
  The state of the responder: its ordered map of peers, the parts of it that traffic leaves alone,
  and the invariant that its indexes are views of the peers and name every peer without ambiguity.
\<close>

section \<open>Ordered maps\<close>

text \<open>What a map of entries promises its client, and what follows for a sequence of removals.\<close>

locale entry_map =
  fixes valid :: "'m \<Rightarrow> bool" and get :: "'m \<Rightarrow> 'k \<Rightarrow> 'v option"
    and ins :: "'k \<Rightarrow> 'v \<Rightarrow> 'm \<Rightarrow> 'm" and del :: "'k \<Rightarrow> 'm \<Rightarrow> 'm" and upd :: "'k \<Rightarrow> ('v \<Rightarrow> 'v) \<Rightarrow> 'm \<Rightarrow> 'm"
  assumes valid_ins: "valid m \<Longrightarrow> valid (ins k v m)"
    and valid_del: "valid m \<Longrightarrow> valid (del k m)"
    and valid_upd: "valid m \<Longrightarrow> valid (upd k f m)"
    and get_ins: "valid m \<Longrightarrow> get (ins k v m) = (get m)(k \<mapsto> v)"
    and get_del: "valid m \<Longrightarrow> get (del k m) = (get m)(k := None)"
    and get_upd: "valid m \<Longrightarrow> get (upd k f m) = (get m)(k := map_option f (get m k))"
begin

lemma valid_dels: "valid m \<Longrightarrow> valid (fold del ks m)"
  by (induction ks arbitrary: m) (simp_all add: valid_del)

lemma get_dels: "valid m \<Longrightarrow> get (fold del ks m) k = (if k \<in> set ks then None else get m k)"
  by (induction ks arbitrary: m) (auto simp: valid_del get_del)

end

definition bt_ok :: "('k::linorder \<times> 'v) list \<Rightarrow> bool" where
  "bt_ok xs \<longleftrightarrow> sorted_wrt (<) (map fst xs)"

lemma bt_ok_distinct: "bt_ok xs \<Longrightarrow> distinct (map fst xs)"
  unfolding bt_ok_def using strict_sorted_iff by blast

lemma bt_insert_keys: "fst ` set (bt_insert k v xs) = insert k (fst ` set xs)"
  by (induction k v xs rule: bt_insert.induct) auto

lemma bt_insert_ok: "bt_ok xs \<Longrightarrow> bt_ok (bt_insert k v xs)"
proof (induction k v xs rule: bt_insert.induct)
  case (2 k v a b xs)
  have "\<forall>y\<in>set (map fst (bt_insert k v xs)). a < y" if "a < k"
    using 2(2) that bt_insert_keys [of k v xs] by (auto simp: bt_ok_def)
  then show ?case using 2 by (auto simp: bt_ok_def)
qed (simp add: bt_ok_def)

lemma bt_insert_get: "bt_ok xs \<Longrightarrow> map_of (bt_insert k v xs) = (map_of xs)(k \<mapsto> v)"
proof (induction k v xs rule: bt_insert.induct)
  case (2 k v a b xs)
  then show ?case by (auto simp: bt_ok_def fun_eq_iff)
qed auto

lemma bt_update_keys [simp]: "map fst (bt_update k f xs) = map fst xs"
  by (simp add: bt_update_def case_prod_beta)

lemma bt_update_get: "map_of (bt_update k f xs) = (map_of xs)(k := map_option f (map_of xs k))"
  by (induction xs) (auto simp: bt_update_def fun_eq_iff)

lemma bt_remove_ok: "bt_ok xs \<Longrightarrow> bt_ok (bt_remove k xs)"
  by (induction xs) (auto simp: bt_ok_def bt_remove_def)

lemma bt_remove_get: "map_of (bt_remove k xs) = (map_of xs)(k := None)"
  by (induction xs) (auto simp: bt_remove_def fun_eq_iff)

interpretation bt: entry_map "bt_ok :: ('k::linorder \<times> 'v) list \<Rightarrow> bool" map_of bt_insert bt_remove bt_update
  by unfold_locales (simp_all add: bt_insert_ok bt_remove_ok bt_insert_get bt_remove_get bt_update_get, simp add: bt_ok_def)

section \<open>What traffic leaves alone\<close>

definition confs :: "('n, 't) responder \<Rightarrow> (peer_id \<times> peer_conf) list" where
  "confs s = map (\<lambda>(i, p). (i, conf_of p)) (r_peers s)"

definition shape ::
  "('n, 't) responder \<Rightarrow> gateway_key \<times> (peer_id \<times> peer_conf) list \<times> (bytes \<Rightarrow> peer_id option) \<times> (bytes \<Rightarrow> peer_id option) \<times>
     (ip_network \<times> peer_id) list \<times> index_gen \<times> peer_plan \<times> bool \<times> gate \<times> v6_state" where
  "shape s = (r_key s, confs s, r_by_pubkey s, r_by_label s, r_routes s, r_indexes s, r_plan s, r_isolation s, r_gate s, r_v6 s)"

lemma shapeD:
  assumes "shape t = shape s"
  shows "r_key t = r_key s" "confs t = confs s" "r_by_pubkey t = r_by_pubkey s" "r_by_label t = r_by_label s" "r_routes t = r_routes s"
    "r_indexes t = r_indexes s" "r_plan t = r_plan s" "r_isolation t = r_isolation s" "r_gate t = r_gate s" "r_v6 t = r_v6 s"
  using assms by (simp_all add: shape_def)

lemma conf_of_simps [simp]:
  "conf_of (p\<lparr>pr_tunn := t\<rparr>) = conf_of p" "conf_of (p\<lparr>pr_endpoint := e\<rparr>) = conf_of p" "conf_of (p\<lparr>pr_stats := st\<rparr>) = conf_of p"
  "conf_of (p\<lparr>pr_last_drop := d\<rparr>) = conf_of p"
  by (simp_all add: conf_of_def)

lemma confs_upd: "(\<And>p. conf_of (f p) = conf_of p) \<Longrightarrow> confs (upd_peer i f s) = confs s"
  by (simp add: confs_def upd_peer_def bt_update_def case_prod_beta)

lemma upd_peer_fields [simp]:
  "r_key (upd_peer i f s) = r_key s" "r_noise (upd_peer i f s) = r_noise s" "r_by_pubkey (upd_peer i f s) = r_by_pubkey s"
  "r_by_label (upd_peer i f s) = r_by_label s" "r_routes (upd_peer i f s) = r_routes s" "r_indexes (upd_peer i f s) = r_indexes s"
  "r_plan (upd_peer i f s) = r_plan s" "r_isolation (upd_peer i f s) = r_isolation s" "r_gate (upd_peer i f s) = r_gate s"
  "r_v6 (upd_peer i f s) = r_v6 s" "r_counters (upd_peer i f s) = r_counters s" "r_answers (upd_peer i f s) = r_answers s"
  by (simp_all add: upd_peer_def)

lemma shape_upd: "(\<And>p. conf_of (f p) = conf_of p) \<Longrightarrow> shape (upd_peer i f s) = shape s"
  by (simp add: shape_def confs_upd)

lemma shape_simps [simp]:
  "shape (s\<lparr>r_noise := n\<rparr>) = shape s" "shape (s\<lparr>r_per_source := h\<rparr>) = shape s" "shape (s\<lparr>r_answers := b\<rparr>) = shape s"
  "shape (s\<lparr>r_last_reset := x\<rparr>) = shape s" "shape (s\<lparr>r_last_wall := x\<rparr>) = shape s" "shape (count f s) = shape s"
  "shape (note_drop d s) = shape s" "shape (note_for i d s) = shape s"
  "shape (s\<lparr>r_noise := n, r_last_reset := x\<rparr>) = shape s"
proof -
  show c: "shape (count f s) = shape s" for f s by (simp add: shape_def count_def confs_def)
  show n: "shape (note_drop d s) = shape s" for d s by (simp add: note_drop_def c)
  show "shape (note_for i d s) = shape s" by (simp add: note_for_def n shape_upd)
qed (simp_all add: shape_def confs_def)

lemma decapsulate_shape: "shape (fst (decapsulate w i src d s)) = shape s"
  by (simp add: decapsulate_def shape_upd split: option.split prod.split)

lemma encapsulate_into_shape: "shape (fst (encapsulate_into w i p s)) = shape s"
  by (simp add: encapsulate_into_def shape_upd Let_def split: option.split prod.split tunn_result.split)

lemma deliver_shape: "shape (fst (deliver w i p now s)) = shape s"
proof -
  have e: "shape (fst (case encapsulate_into w i b s' of (s, Some out) \<Rightarrow> (count (rc_reply False) s, Ok (Reply out)) | (s, None) \<Rightarrow> (s, Ok Consumed)))
      = shape s'" for b s'
    using encapsulate_into_shape [of w i b s'] by (cases "encapsulate_into w i b s'") (simp split: option.split)
  show ?thesis by (simp add: deliver_def Let_def e split: ruling.split option.split prod.split res.split)
qed

lemma demux_shape: "shape (fst (demux w src d idx k now s)) = shape s"
proof -
  let ?i = "drop_bit 8 idx :: u32"
  obtain s1 r where d: "decapsulate w ?i src d s = (s1, r)" by force
  have s1: "shape s1 = shape s" using decapsulate_shape [of w ?i src d s] d by simp
  show ?thesis
    by (simp add: demux_def Let_def d s1 shape_upd deliver_shape split: outcome.split option.split)
qed

lemma handshake_init_shape: "shape (fst (handshake_init w src d init now s)) = shape s"
proof -
  have e: "shape t = shape s'" if "decapsulate w i src d s' = (t, r)" for i s' t r
    using decapsulate_shape [of w i src d s'] that by simp
  show ?thesis unfolding handshake_init_def Let_def
    by (auto simp: shape_upd dest!: e split: option.split prod.split outcome.split)
qed

lemma handle_datagram_shape: "shape (fst (handle_datagram w src d now s)) = shape s"
  by (simp add: handle_datagram_def Let_def demux_shape handshake_init_shape
      split: prod.split sum.split tunn_result.split wg_packet.split)

lemma flush_queue_shape: "shape (fst (flush_queue w i s)) = shape s"
  by (simp add: flush_queue_def Let_def shape_upd split: option.split prod.split tunn_result.split)

lemma send_to_peer_shape: "shape (fst (send_to_peer w i p s)) = shape s"
  by (simp add: send_to_peer_def Let_def shape_upd split: option.split prod.split tunn_result.split)

lemma encapsulate_to_shape: "shape (fst (encapsulate_to w a p s)) = shape s"
  by (simp add: encapsulate_to_def send_to_peer_shape split: option.split)

lemma rebuild_shape: "shape (rebuild w i s) = shape s"
  by (simp add: rebuild_def build_tunn_def shape_upd split: option.split prod.split)

lemma detect_clock_jump_shape: "shape (detect_clock_jump w wall s) = shape s"
proof -
  have "shape (fold (\<lambda>i s. count rc_clock_jump_reset (rebuild w i s)) is s') = shape s'" for "is" s'
    by (induction "is" arbitrary: s') (simp_all add: rebuild_shape)
  then show ?thesis by (simp add: detect_clock_jump_def Let_def)
qed

lemma tick_peer_shape: "shape (fst (tick_peer w i so)) = shape (fst so)"
  by (simp add: tick_peer_def Let_def shape_upd split: prod.split option.split tunn_result.split wireguard_error.split)

lemma tick_shape: "shape (fst (tick w now wall s)) = shape s"
proof -
  have f: "shape (fst (fold (tick_peer w) is so)) = shape (fst so)" for "is" so
    by (induction "is" arbitrary: so) (simp_all add: tick_peer_shape)
  show ?thesis by (simp add: tick_def Let_def f detect_clock_jump_shape)
qed

lemma reset_peer_shape: "shape (fst (reset_peer w l s)) = shape s"
  by (simp add: reset_peer_def shape_upd rebuild_shape split: option.split)

end
