(* ===== verification/Responder_Reload.thy ===== *)
theory Responder_Reload
  imports Responder_State
begin

text \<open>
  Drawing indexes, adding and removing peers, and the reload: the peers afterwards are exactly those
  of the new configuration, and the ones that did not change are the ones that were there.
\<close>

section \<open>Indexes\<close>

text \<open>The generator has already given, or will never give, each of the indexes in use.\<close>

definition issued :: "index_gen \<Rightarrow> u32 set \<Rightarrow> bool" where
  "issued g used \<longleftrightarrow> (\<exists>s m n. is24 s \<and> s \<noteq> 0 \<and> is24 m \<and> ig_at s m n g \<and> used \<subseteq> set (outputs s m n))"

lemma issued_seed: "issued (from_seed seed m) {}"
proof -
  have "is24 (ig_initial (from_seed seed m))" "ig_initial (from_seed seed m) \<noteq> 0" using from_seed_inv [of seed m] by (simp_all add: ig_inv_def)
  then show ?thesis using from_seed_at [of seed m] is24_and [of m] unfolding issued_def by blast
qed

lemma issued_mono: "issued g used \<Longrightarrow> used' \<subseteq> used \<Longrightarrow> issued g used'"
  unfolding issued_def by (meson order_trans)

lemma draw_index_issued:
  assumes "issued g used"
  shows "draw_index g \<noteq> Panic" "draw_index g = Ok (g', i) \<Longrightarrow> i \<notin> used \<and> issued g' (insert i used)"
proof -
  obtain s m n where s: "is24 s" "s \<noteq> 0" "is24 m" "ig_at s m n g" "used \<subseteq> set (outputs s m n)" using assms by (auto simp: issued_def)
  obtain g1 n1 r where g1: "next_index g = Some (g1, r)" "ig_at s m n1 g1"
    "case r of None \<Rightarrow> n1 = period s \<and> outputs s m n1 = outputs s m n | Some i \<Rightarrow> n < n1 \<and> outputs s m n1 = outputs s m n @ [i]"
    using next_index_at [OF s(1-4)] by blast
  show "draw_index g \<noteq> Panic" using g1(1) by (simp add: draw_index_def split: option.split)
  assume d: "draw_index g = Ok (g', i)"
  then have r: "r = Some i" "g' = g1" using g1(1) by (auto simp: draw_index_def split: option.splits)
  have o: "outputs s m n1 = outputs s m n @ [i]" using g1(3) r by simp
  have "distinct (outputs s m n1)" using outputs_distinct [OF s(1,2)] g1(2) by (simp add: ig_at_def)
  then have "i \<notin> used" using o s(5) by auto
  moreover have "issued g' (insert i used)" unfolding issued_def using s g1(2) o r(2) by (intro exI [of _ s] exI [of _ m] exI [of _ n1]) auto
  ultimately show "i \<notin> used \<and> issued g' (insert i used)" ..
qed

lemma draw_fresh_issued:
  assumes "issued g used"
  shows "draw_fresh L P g \<noteq> Panic \<and> (\<forall>g' fr. draw_fresh L P g = Ok (g', fr) \<longrightarrow>
    length fr = length (filter (\<lambda>p. L (pc_label p) = None) P) \<and> distinct fr \<and> set fr \<inter> used = {} \<and> issued g' (set fr \<union> used))"
  using assms
proof (induction L P g arbitrary: used rule: draw_fresh.induct)
  case (2 L p P g)
  show ?case
  proof (cases "L (pc_label p) = None")
    case True
    note D = draw_index_issued [OF 2(3)]
    show ?thesis
    proof (cases "draw_index g")
      case (Ok gi)
      obtain g1 i where gi: "gi = (g1, i)" by force
      have i: "i \<notin> used" "issued g1 (insert i used)" using D(2) Ok gi by blast+
      note ih = 2(1) [OF True i(2)]
      obtain r where r: "draw_fresh L P g1 = r" by blast
      show ?thesis using ih True i(1)
        by (cases r) (auto simp: Ok gi r)
    qed (use True D(1) in auto)
  qed (use 2 in auto)
qed auto

section \<open>Peers by identifier\<close>

definition conf_at :: "('n, 't) responder \<Rightarrow> peer_id \<Rightarrow> peer_conf option" where
  "conf_at s i = map_option conf_of (get_peer s i)"

lemma map_of_conf: "map_of (map (\<lambda>(i, p). (i, conf_of p)) ps) i = map_option conf_of (map_of ps i)"
  by (induction ps) auto

lemma map_of_confs: "map_of (confs s) = conf_at s"
  by (simp add: confs_def conf_at_def fun_eq_iff map_of_conf)

lemma keys_confs: "map fst (confs s) = map fst (r_peers s)"
  by (simp add: confs_def case_prod_beta)

text \<open>An index of the peers by one of their fields.\<close>

definition names :: "(bytes \<Rightarrow> peer_id option) \<Rightarrow> (peer_conf \<Rightarrow> bytes) \<Rightarrow> (peer_id \<Rightarrow> peer_conf option) \<Rightarrow> bool" where
  "names m f cm \<longleftrightarrow> (\<forall>k i. m k = Some i \<longleftrightarrow> (\<exists>p. cm i = Some p \<and> f p = k))"

lemma namesD:
  assumes "names m f cm"
  shows "m k = Some i \<Longrightarrow> \<exists>p. cm i = Some p \<and> f p = k" and "cm i = Some p \<Longrightarrow> m (f p) = Some i"
    and "cm i = Some p \<Longrightarrow> cm j = Some q \<Longrightarrow> f p = f q \<Longrightarrow> i = j"
proof -
  show "m k = Some i \<Longrightarrow> \<exists>p. cm i = Some p \<and> f p = k" using assms by (simp add: names_def)
  show c: "cm i = Some p \<Longrightarrow> m (f p) = Some i" for i p using assms by (auto simp: names_def)
  show "cm i = Some p \<Longrightarrow> cm j = Some q \<Longrightarrow> f p = f q \<Longrightarrow> i = j" using c [of i p] c [of j q] by simp
qed

lemma names_None: "names m f cm \<Longrightarrow> m k = None \<longleftrightarrow> (\<forall>i p. cm i = Some p \<longrightarrow> f p \<noteq> k)"
  using namesD by (metis option.distinct(1) option.exhaust)

lemma names_insert:
  assumes "names m f cm" and "m (f p) = None" and "cm i = None"
  shows "names (m(f p \<mapsto> i)) f (cm(i \<mapsto> p))"
  unfolding names_def
proof (intro allI)
  fix k j
  have n: "f q \<noteq> f p" if "cm j = Some q" for j q using names_None [OF assms(1), of "f p"] assms(2) that by simp
  show "(m(f p \<mapsto> i)) k = Some j \<longleftrightarrow> (\<exists>q. (cm(i \<mapsto> p)) j = Some q \<and> f q = k)"
  proof (cases "k = f p")
    case True
    then show ?thesis using n by auto
  next
    case False
    then have "(m(f p \<mapsto> i)) k = Some j \<longleftrightarrow> (\<exists>q. cm j = Some q \<and> f q = k)" using assms(1) by (simp add: names_def)
    then show ?thesis using False assms(3) by auto
  qed
qed

lemma names_replace:
  assumes "names m f cm" and "cm i = Some q" and "f p = f q"
  shows "names m f (cm(i \<mapsto> p))"
  using assms unfolding names_def by auto

text \<open>What the rebuilt lookups are, when the field tells the peers apart.\<close>

lemma names_rebuilt:
  assumes ok: "bt_ok ps" and inj: "\<And>i j p q. map_of ps i = Some p \<Longrightarrow> map_of ps j = Some q \<Longrightarrow> g p = g q \<Longrightarrow> i = j"
  shows "foldl (\<lambda>m (i, p). m(g p \<mapsto> i)) Map.empty ps k = Some i \<longleftrightarrow> (\<exists>p. map_of ps i = Some p \<and> g p = k)"
proof -
  have f: "foldl (\<lambda>m (i, p). m(g p \<mapsto> i)) m0 ps k = Some i \<longleftrightarrow> (\<exists>p. (i, p) \<in> set ps \<and> g p = k) \<or> (\<forall>(j, p)\<in>set ps. g p \<noteq> k) \<and> m0 k = Some i"
    if "\<And>i j p q. (i, p) \<in> set ps \<Longrightarrow> (j, q) \<in> set ps \<Longrightarrow> g p = g q \<Longrightarrow> i = j" for m0
    using that
  proof (induction ps arbitrary: m0)
    case (Cons e ps)
    obtain j q where e: "e = (j, q)" by force
    have ih: "foldl (\<lambda>m (i, p). m(g p \<mapsto> i)) (m0(g q \<mapsto> j)) ps k = Some i \<longleftrightarrow>
        (\<exists>p. (i, p) \<in> set ps \<and> g p = k) \<or> (\<forall>(j, p)\<in>set ps. g p \<noteq> k) \<and> (m0(g q \<mapsto> j)) k = Some i"
      by (rule Cons.IH) (use Cons.prems in auto)
    have st: "foldl (\<lambda>m (i, p). m(g p \<mapsto> i)) m0 (e # ps) = foldl (\<lambda>m (i, p). m(g p \<mapsto> i)) (m0(g q \<mapsto> j)) ps" by (simp add: e)
    have same: "j' = j" if "(j', p) \<in> set ps" "g p = g q" for j' p using Cons.prems [of j' p j q] that e by auto
    show ?case
    proof (cases "g q = k")
      case True
      then have "(\<exists>p. (i, p) \<in> set ps \<and> g p = k) \<or> (\<forall>(j, p)\<in>set ps. g p \<noteq> k) \<and> j = i \<longleftrightarrow> i = j" using same by fastforce
      moreover have "(\<exists>p. (i, p) \<in> set (e # ps) \<and> g p = k) \<longleftrightarrow> i = j" using same True e by auto
      moreover have "\<not> (\<forall>(j, p)\<in>set (e # ps). g p \<noteq> k)" using True e by simp
      ultimately show ?thesis unfolding st ih using True e by simp
    next
      case False
      then show ?thesis unfolding st ih using e by auto
    qed
  qed simp
  have m: "(i, p) \<in> set ps \<longleftrightarrow> map_of ps i = Some p" for i p using bt_ok_distinct [OF ok] by simp
  show ?thesis using f [of Map.empty] inj by (simp add: m)
qed

section \<open>Operations on the peers\<close>

lemma bt_ok_confs: "bt_ok (confs s) = bt_ok (r_peers s)"
  by (simp add: bt_ok_def keys_confs)


text \<open>The parts of the state that adding and removing peers leaves alone.\<close>

definition steady :: "('n, 't) responder \<Rightarrow> gateway_key \<times> peer_plan \<times> bool \<times> gate \<times> v6_state \<times> responder_counters \<times> index_gen" where
  "steady s = (r_key s, r_plan s, r_isolation s, r_gate s, r_v6 s, r_counters s, r_indexes s)"

lemma insert_peer_at_facts:
  assumes "bt_ok (r_peers s)"
  shows "bt_ok (r_peers (insert_peer_at w c i s))" "steady (insert_peer_at w c i s) = steady s"
    "r_by_label (insert_peer_at w c i s) = (r_by_label s)(pc_label c \<mapsto> i)"
    "r_by_pubkey (insert_peer_at w c i s) = (r_by_pubkey s)(pc_public c \<mapsto> i)"
    "conf_at (insert_peer_at w c i s) = (conf_at s)(i \<mapsto> c)"
    "j \<noteq> i \<Longrightarrow> get_peer (insert_peer_at w c i s) j = get_peer s j" "get_peer (insert_peer_at w c i s) i \<noteq> None"
    "\<exists>p. get_peer (insert_peer_at w c i s) i = Some p \<and> pr_endpoint p = None"
  using assms
  by (auto simp: insert_peer_at_def build_tunn_def Let_def steady_def conf_at_def conf_of_def fun_eq_iff bt.valid_ins bt.get_ins split: prod.split)

lemma build_tunn_facts [simp]:
  "r_peers (fst (build_tunn w c i s)) = r_peers s" "steady (fst (build_tunn w c i s)) = steady s"
  "r_by_label (fst (build_tunn w c i s)) = r_by_label s" "r_by_pubkey (fst (build_tunn w c i s)) = r_by_pubkey s"
  by (simp_all add: build_tunn_def steady_def split: prod.split)

lemma upd_peer_get: "get_peer (upd_peer i f s) = (get_peer s)(i := map_option f (get_peer s i))"
  by (simp add: upd_peer_def bt_update_get)

lemma upd_peer_ok [simp]: "bt_ok (r_peers (upd_peer i f s)) = bt_ok (r_peers s)"
  by (simp add: upd_peer_def bt_ok_def)

lemma steady_upd [simp]: "steady (upd_peer i f s) = steady s"
  by (simp add: steady_def)

section \<open>Reload\<close>

text \<open>
  The state midway through the second loop of \<open>reload\<close>: \<open>dn\<close> are the peers of the new configuration
  already handled, \<open>todo\<close> the ones to come, \<open>fresh\<close> the indexes left, \<open>s0\<close> the state before.
\<close>

definition midway ::
  "peer_conf list \<Rightarrow> peer_conf list \<Rightarrow> u32 list \<Rightarrow> u32 set \<Rightarrow> ('n, 't) responder \<Rightarrow> ('n, 't) responder \<Rightarrow> bool" where
  "midway dn todo fresh used s0 s \<longleftrightarrow>
     bt_ok (r_peers s) \<and> names (r_by_label s) pc_label (conf_at s) \<and> steady s = steady s0 \<and>
     (\<forall>p\<in>set dn. \<exists>i. conf_at s i = Some p) \<and>
     (\<forall>i p. conf_at s i = Some p \<longrightarrow> p \<in> set dn \<or> pc_label p \<in> pc_label ` set todo) \<and>
     length fresh = length (filter (\<lambda>p. r_by_label s (pc_label p) = None) todo) \<and> distinct fresh \<and>
     (\<forall>i\<in>set fresh. get_peer s i = None) \<and> set fresh \<subseteq> used \<and> (\<forall>i. get_peer s i \<noteq> None \<longrightarrow> i \<in> used) \<and>
     (\<forall>i live. get_peer s0 i = Some live \<longrightarrow> conf_of live \<in> set dn \<union> set todo \<longrightarrow> get_peer s i = Some live)"

lemma midwayD:
  assumes "midway dn todo fresh used s0 s"
  shows "bt_ok (r_peers s)" "names (r_by_label s) pc_label (conf_at s)" "steady s = steady s0"
    "p \<in> set dn \<Longrightarrow> \<exists>i. conf_at s i = Some p"
    "conf_at s i = Some p \<Longrightarrow> p \<in> set dn \<or> pc_label p \<in> pc_label ` set todo"
    "length fresh = length (filter (\<lambda>p. r_by_label s (pc_label p) = None) todo)" "distinct fresh"
    "i \<in> set fresh \<Longrightarrow> get_peer s i = None" "set fresh \<subseteq> used" "get_peer s i \<noteq> None \<Longrightarrow> i \<in> used"
    "get_peer s0 i = Some live \<Longrightarrow> conf_of live \<in> set dn \<union> set todo \<Longrightarrow> get_peer s i = Some live"
  using assms unfolding midway_def by blast+

lemma same_material_conf:
  assumes "conf_at s i = Some q" "pc_label q = pc_label c" "get_peer s i = Some live"
  shows "same_material live c \<longleftrightarrow> q = c"
  using assms by (cases c; cases q) (auto simp: same_material_def conf_at_def conf_of_def)

lemma conf_at_upd:
  assumes "get_peer s i = Some live" "\<And>p. pr_label p = pr_label live \<Longrightarrow> conf_of (f p) = c"
  shows "conf_at (upd_peer i f s) = (conf_at s)(i \<mapsto> c)"
  using assms by (simp add: conf_at_def upd_peer_get fun_eq_iff)

lemma midway_keep:
  assumes m: "midway dn (c # todo) fresh used s0 s" and i: "conf_at s i = Some c"
    and d: "distinct (map pc_label (dn @ c # todo))"
  shows "midway (dn @ [c]) todo fresh used s0 s"
proof -
  note M = midwayD [OF m]
  have lab: "r_by_label s (pc_label c) = Some i" using namesD(2) [OF M(2) i] .
  have "p \<in> set (dn @ [c]) \<or> pc_label p \<in> pc_label ` set todo" if p: "conf_at s j = Some p" for j p
  proof (cases "pc_label p = pc_label c")
    case True
    then have "j = i" using namesD(3) [OF M(2) p i] by simp
    then show ?thesis using p i by simp
  qed (use M(5) [OF p] in auto)
  moreover have "length fresh = length (filter (\<lambda>p. r_by_label s (pc_label p) = None) todo)" using M(6) lab by simp
  moreover have "\<exists>i. conf_at s i = Some p" if "p \<in> set (dn @ [c])" for p using that M(4) i by auto
  ultimately show ?thesis using M(1-3,7-11) unfolding midway_def by (simp add: insert_commute)
qed

lemma midway_rebuild:
  assumes m: "midway dn (c # todo) fresh used s0 s" and i: "r_by_label s (pc_label c) = Some i"
    and live: "get_peer s i = Some live" "\<not> same_material live c" and d: "distinct (map pc_label (dn @ c # todo))"
    and t: "t = upd_peer i (\<lambda>p. p\<lparr>pr_public := pc_public c, pr_psk := pc_psk c, pr_allowed := pc_allowed c, pr_tunn := tunn,
      pr_endpoint := None, pr_last_drop := None\<rparr>) (s\<lparr>r_noise := n\<rparr>)"
  shows "midway (dn @ [c]) todo fresh used s0 t"
proof -
  note M = midwayD [OF m]
  have one: "p = q" if "p \<in> set (dn @ c # todo)" "q \<in> set (dn @ c # todo)" "pc_label p = pc_label q" for p q
    using d that by (metis distinct_map inj_onD)
  obtain q where q: "conf_at s i = Some q" "pc_label q = pc_label c" using namesD(1) [OF M(2) i] by blast
  have ql: "pr_label live = pc_label c" using q live(1) by (auto simp: conf_at_def conf_of_def)
  have cn: "conf_at (s\<lparr>r_noise := n\<rparr>) = conf_at s" by (simp add: conf_at_def fun_eq_iff)
  have ct: "conf_at t = (conf_at s)(i \<mapsto> c)"
    unfolding t cn [symmetric] using live(1) ql by (intro conf_at_upd [of _ _ live]) (simp_all add: conf_of_def)
  have gt: "get_peer t j = get_peer s j" if "j \<noteq> i" for j using that by (simp add: t upd_peer_get)
  have gi: "get_peer t i \<noteq> None" using live(1) by (simp add: t upd_peer_get)
  have lt: "r_by_label t = r_by_label s" "steady t = steady s" "bt_ok (r_peers t)" using M(1) by (simp_all add: t) (simp add: steady_def)
  have "names (r_by_label t) pc_label (conf_at t)" unfolding lt ct using names_replace [OF M(2) q(1)] q(2) by simp
  moreover have "\<exists>j. conf_at t j = Some p" if pin: "p \<in> set (dn @ [c])" for p
  proof (cases "p = c")
    case False
    then obtain j where j: "conf_at s j = Some p" using pin M(4) [of p] by auto
    have "pc_label p \<noteq> pc_label c" using one [of p c] pin False by auto
    then have "j \<noteq> i" using j q by auto
    then show ?thesis using j ct by auto
  qed (use ct in auto)
  moreover have "p \<in> set (dn @ [c]) \<or> pc_label p \<in> pc_label ` set todo" if p: "conf_at t j = Some p" for j p
  proof (cases "j = i")
    case False
    then have p': "conf_at s j = Some p" using p ct by simp
    have "pc_label p \<noteq> pc_label c" using namesD(3) [OF M(2) p' q(1)] q(2) False by auto
    then show ?thesis using M(5) [OF p'] by auto
  qed (use p ct in simp)
  moreover have "length fresh = length (filter (\<lambda>p. r_by_label t (pc_label p) = None) todo)" using M(6) i lt(1) by simp
  moreover have "get_peer t j = None" if "j \<in> set fresh" for j using M(8) [OF that] gt live(1) by (cases "j = i") auto
  moreover have "j \<in> used" if "get_peer t j \<noteq> None" for j using that M(10) gt live(1) by (cases "j = i") auto
  moreover have "get_peer t j = Some old" if o: "get_peer s0 j = Some old" "conf_of old \<in> set (dn @ [c]) \<union> set todo" for j old
  proof -
    have g: "get_peer s j = Some old" using M(11) [OF o(1)] o(2) by auto
    have "j \<noteq> i"
    proof
      assume "j = i"
      then have "conf_of old = q" "old = live" using g q(1) live(1) by (auto simp: conf_at_def)
      then have "conf_of old = c" using one [of "conf_of old" c] o(2) q(2) by auto
      then show False using \<open>conf_of old = q\<close> \<open>old = live\<close> same_material_conf [OF q live(1)] live(2) by simp
    qed
    then show ?thesis using g gt by simp
  qed
  moreover have "steady t = steady s0" using lt(2) M(3) by simp
  ultimately show ?thesis using lt(3) M(7,9) unfolding midway_def by blast
qed


lemma midway_insert:
  assumes m: "midway dn (c # todo) (i # fresh) used s0 s" and l: "r_by_label s (pc_label c) = None"
    and d: "distinct (map pc_label (dn @ c # todo))"
  shows "midway (dn @ [c]) todo fresh used s0 (insert_peer_at w c i s)"
proof -
  let ?t = "insert_peer_at w c i s"
  note M = midwayD [OF m]
  note I = insert_peer_at_facts [OF M(1), where w = w and c = c and i = i]
  have gi: "get_peer s i = None" using M(8) [of i] by simp
  have ci: "conf_at s i = None" using gi by (simp add: conf_at_def)
  have "names (r_by_label ?t) pc_label (conf_at ?t)" unfolding I using names_insert [OF M(2) l ci] .
  moreover have "\<exists>j. conf_at ?t j = Some p" if pin: "p \<in> set (dn @ [c])" for p
  proof (cases "p = c")
    case False
    then obtain j where j: "conf_at s j = Some p" using pin M(4) [of p] by auto
    then have "j \<noteq> i" using ci by auto
    then show ?thesis using j I(5) by auto
  qed (use I(5) in auto)
  moreover have "p \<in> set (dn @ [c]) \<or> pc_label p \<in> pc_label ` set todo" if p: "conf_at ?t j = Some p" for j p
  proof (cases "j = i")
    case False
    then have p': "conf_at s j = Some p" using p I(5) by simp
    have "pc_label p \<noteq> pc_label c" using namesD(2) [OF M(2) p'] l by auto
    then show ?thesis using M(5) [OF p'] by auto
  qed (use p I(5) in simp)
  moreover have "length fresh = length (filter (\<lambda>p. r_by_label ?t (pc_label p) = None) todo)"
  proof -
    have "filter (\<lambda>p. r_by_label ?t (pc_label p) = None) todo = filter (\<lambda>p. r_by_label s (pc_label p) = None) todo"
      using d by (intro filter_cong) (auto simp: I(3) image_iff)
    then show ?thesis using M(6) l by simp
  qed
  moreover have "get_peer ?t j = None" if "j \<in> set fresh" for j using M(7) M(8) [of j] I(6) [of j] that by auto
  moreover have "j \<in> used" if "get_peer ?t j \<noteq> None" for j using that M(9) M(10) [of j] I(6) [of j] by (cases "j = i") auto
  moreover have "get_peer ?t j = Some old" if o: "get_peer s0 j = Some old" "conf_of old \<in> set (dn @ [c]) \<union> set todo" for j old
  proof -
    have g: "get_peer s j = Some old" using M(11) [OF o(1)] o(2) by auto
    then have "j \<noteq> i" using gi by auto
    then show ?thesis using g I(6) by simp
  qed
  moreover have "steady ?t = steady s0" "distinct fresh" "set fresh \<subseteq> used" using I(2) M(3,7,9) by simp_all
  ultimately show ?thesis using I(1) unfolding midway_def by blast
qed

lemma apply_peers_ok:
  assumes "midway dn todo fresh used s0 s" and "distinct (map pc_label (dn @ todo))"
  shows "\<exists>t report' fresh'. apply_peers w todo fresh (s, report) = Ok (t, report') \<and> midway (dn @ todo) [] fresh' used s0 t"
  using assms
proof (induction todo arbitrary: dn fresh s report)
  case (Cons c todo)
  note M = midwayD [OF Cons.prems(1)]
  show ?case
  proof (cases "r_by_label s (pc_label c)")
    case None
    then have "fresh \<noteq> []" using M(6) by auto
    then obtain i fr where f: "fresh = i # fr" by (cases fresh) auto
    have "midway (dn @ [c]) todo fr used s0 (insert_peer_at w c i s)"
      using midway_insert [OF Cons.prems(1) [unfolded f] None Cons.prems(2)] .
    from Cons.IH [OF this, of "report\<lparr>rr_added := rr_added report @ [pc_label c]\<rparr>"] show ?thesis
      using Cons.prems(2) None f by simp
  next
    case (Some i)
    obtain q where q: "conf_at s i = Some q" "pc_label q = pc_label c" using namesD(1) [OF M(2) Some] by blast
    then obtain live where live: "get_peer s i = Some live" by (auto simp: conf_at_def)
    show ?thesis
    proof (cases "same_material live c")
      case True
      then have "conf_at s i = Some c" using q(1) same_material_conf [OF q live] by simp
      from Cons.IH [OF midway_keep [OF Cons.prems(1) this Cons.prems(2)], of "report\<lparr>rr_unchanged := rr_unchanged report + 1\<rparr>"]
      show ?thesis using Cons.prems(2) Some live True by simp
    next
      case False
      obtain n tn where b: "wg_new w (r_noise s) (gk_secret (r_key s)) (pc_public c) (pc_psk c) i = (n, tn)" by force
      note t = midway_rebuild [OF Cons.prems(1) Some live False Cons.prems(2) refl, of tn n]
      from Cons.IH [OF t, of "report\<lparr>rr_rebuilt := rr_rebuilt report @ [pc_label c]\<rparr>"] show ?thesis
        using Cons.prems(2) Some live False b by (simp add: build_tunn_def)
    qed
  qed
qed auto

lemma remove_peers:
  assumes "bt_ok (r_peers s)"
  shows "\<exists>t rep. fold remove_peer gone (s, report) = (t, rep) \<and> bt_ok (r_peers t) \<and> steady t = steady s \<and>
    r_by_label t = (\<lambda>l. if l \<in> snd ` set gone then None else r_by_label s l) \<and>
    get_peer t = (\<lambda>i. if i \<in> fst ` set gone then None else get_peer s i)"
  using assms
proof (induction gone arbitrary: s report)
  case (Cons e gone)
  obtain i l where e: "e = (i, l)" by force
  let ?s = "s\<lparr>r_peers := bt_remove i (r_peers s), r_by_label := (r_by_label s)(l := None)\<rparr>"
  have st: "remove_peer e (s, report) = (?s, report\<lparr>rr_removed := rr_removed report @ [l]\<rparr>)" by (simp add: remove_peer_def e)
  have "bt_ok (r_peers ?s)" using Cons.prems by (simp add: bt.valid_del)
  from Cons.IH [OF this, of "report\<lparr>rr_removed := rr_removed report @ [l]\<rparr>"] show ?case
    using st by (auto simp: e fun_eq_iff bt_remove_get steady_def)
qed auto

end
