(* ===== verification/Responder_Reach.thy ===== *)
theory Responder_Reach
  imports Responder_Reload
begin

text \<open>
  The invariant of the responder, the states its runs reach, and what a reload makes of them.
\<close>

section \<open>The invariant\<close>

lemma conf_of_fields [simp]:
  "pc_label (conf_of p) = pr_label p" "pc_public (conf_of p) = pr_public p" "pc_psk (conf_of p) = pr_psk p" "pc_allowed (conf_of p) = pr_allowed p"
  by (simp_all add: conf_of_def)

lemma conf_at_SomeI: "get_peer s i = Some p \<Longrightarrow> conf_at s i = Some (conf_of p)"
  by (simp add: conf_at_def)

lemma conf_at_SomeD: "conf_at s i = Some c \<Longrightarrow> \<exists>p. get_peer s i = Some p \<and> conf_of p = c"
  by (auto simp: conf_at_def)

definition unambiguous :: "(peer_id \<Rightarrow> peer_conf option) \<Rightarrow> bool" where
  "unambiguous cm \<longleftrightarrow> (\<forall>i j p q. cm i = Some p \<longrightarrow> cm j = Some q \<longrightarrow>
     pc_public p = pc_public q \<or> pc_label p = pc_label q \<or> (\<exists>a. claims p a \<and> claims q a) \<longrightarrow> i = j)"

definition conf_entries :: "(peer_id \<times> peer_conf) list \<Rightarrow> (ip_network \<times> peer_id) list" where
  "conf_entries cs = concat (map (\<lambda>(i, p). map (\<lambda>n. (n, i)) (pc_allowed p)) cs)"

lemma network_entries_confs: "network_entries (r_peers (s :: ('a, 'b) responder)) = conf_entries (confs s)"
proof -
  have "concat (map (\<lambda>(i, p). map (\<lambda>n. (n, i)) (pr_allowed p)) ps) =
    concat (map (\<lambda>(i, p). map (\<lambda>n. (n, i)) (pc_allowed p)) (map (\<lambda>(i, p). (i, conf_of p)) ps))" for ps :: "(peer_id \<times> 'b peer) list"
    by (induction ps) (auto simp: conf_of_def)
  then show ?thesis by (simp only: network_entries_def conf_entries_def confs_def)
qed

definition resp_inv :: "('n, 't) responder \<Rightarrow> bool" where
  "resp_inv s \<longleftrightarrow> bt_ok (r_peers s) \<and> unambiguous (conf_at s) \<and> names (r_by_pubkey s) pc_public (conf_at s) \<and>
     names (r_by_label s) pc_label (conf_at s) \<and> r_routes s = conf_entries (confs s) \<and>
     issued (r_indexes s) {i. conf_at s i \<noteq> None} \<and>
     (\<forall>i p a. conf_at s i = Some p \<longrightarrow> claims p a \<longrightarrow> \<not> is_tunnel_pool a \<and> \<not> plan_is_gateway (r_plan s) a)"

lemma resp_invD:
  assumes "resp_inv s"
  shows "bt_ok (r_peers s)" "unambiguous (conf_at s)" "names (r_by_pubkey s) pc_public (conf_at s)"
    "names (r_by_label s) pc_label (conf_at s)" "r_routes s = conf_entries (confs s)" "issued (r_indexes s) {i. conf_at s i \<noteq> None}"
    "conf_at s i = Some p \<Longrightarrow> claims p a \<Longrightarrow> \<not> is_tunnel_pool a \<and> \<not> plan_is_gateway (r_plan s) a"
  using assms by (auto simp: resp_inv_def)

lemma resp_inv_shape:
  assumes "shape t = shape s"
  shows "resp_inv t \<longleftrightarrow> resp_inv s"
proof -
  note S = shapeD [OF assms]
  have "conf_at t = conf_at s" using S(2) by (metis map_of_confs)
  then show ?thesis unfolding resp_inv_def bt_ok_confs [symmetric] using S by simp
qed

text \<open>A state whose peers are those of a checked configuration.\<close>

lemma checked_peers:
  assumes n: "nets_ok c" and v: "validate c conf = Ok ()" "check_against c conf plan = Ok ()"
    and lab: "names m pc_label cm" and all: "\<And>i p. cm i = Some p \<Longrightarrow> p \<in> set (gc_peers conf)"
  shows "unambiguous cm" "cm i = Some p \<Longrightarrow> claims p a \<Longrightarrow> \<not> is_tunnel_pool a \<and> \<not> plan_is_gateway plan a"
    "distinct (map pc_label (gc_peers conf))" "distinct (map pc_public (gc_peers conf))"
proof -
  have c: "check_each (gc_peers conf) = Ok ()" "check_pairs c (gc_peers conf) = Ok ()" using v(1) by (simp_all add: validate_def check_peers_ok)
  note P = check_pairs_ok [OF n c(2)]
  show d: "distinct (map pc_label (gc_peers conf))" "distinct (map pc_public (gc_peers conf))" using P by blast+
  have pub: "p = q" if "p \<in> set (gc_peers conf)" "q \<in> set (gc_peers conf)" "pc_public p = pc_public q" for p q
    using d(2) that by (metis distinct_map inj_onD)
  show "unambiguous cm" unfolding unambiguous_def
  proof (intro allI impI)
    fix i j p q assume a: "cm i = Some p" "cm j = Some q" "pc_public p = pc_public q \<or> pc_label p = pc_label q \<or> (\<exists>a. claims p a \<and> claims q a)"
    note pq = all [OF a(1)] all [OF a(2)]
    have "pc_label p = pc_label q" using a(3) pub [OF pq] P(3) [OF pq] by metis
    then show "i = j" using namesD(3) [OF lab a(1,2)] by simp
  qed
  assume p: "cm i = Some p" "claims p a"
  have "\<not> is_tunnel_pool a" using c(1) all [OF p(1)] p(2) by (auto simp: check_each_ok list_all_iff list_ex_iff claims_def overlaps_pool_common)
  moreover have "\<not> plan_is_gateway plan a"
    using v(2) n all [OF p(1)] p(2) by (auto simp: check_against_def nets_ok_def claims_def plan_is_gateway_def list_ex_iff split: if_splits)
  ultimately show "\<not> is_tunnel_pool a \<and> \<not> plan_is_gateway plan a" ..
qed

lemma checks_total: "check_peers c ps \<noteq> Panic"
proof -
  have "check_each ps \<noteq> Panic" by (induction ps) auto
  moreover have o: "check_others c p qs \<noteq> Panic" for p qs by (induction qs) auto
  moreover have "check_pairs c ps \<noteq> Panic"
  proof (induction ps)
    case (Cons p ps)
    then show ?case using o [of p ps] by (cases "check_others c p ps") auto
  qed simp
  ultimately show ?thesis by (cases "check_each ps") (auto simp: check_peers_def)
qed

section \<open>Building\<close>

lemma insert_peers_ok:
  assumes "insert_peers w cs s = Ok t" and "bt_ok (r_peers s)" and "names (r_by_label s) pc_label (conf_at s)"
    and "names (r_by_pubkey s) pc_public (conf_at s)" and "issued (r_indexes s) {i. conf_at s i \<noteq> None}"
    and "\<And>p. (\<exists>i. conf_at s i = Some p) \<longleftrightarrow> p \<in> set dn"
    and "distinct (map pc_label (dn @ cs))" and "distinct (map pc_public (dn @ cs))"
  shows "bt_ok (r_peers t) \<and> names (r_by_label t) pc_label (conf_at t) \<and> names (r_by_pubkey t) pc_public (conf_at t) \<and>
    issued (r_indexes t) {i. conf_at t i \<noteq> None} \<and> (\<forall>p. (\<exists>i. conf_at t i = Some p) \<longleftrightarrow> p \<in> set (dn @ cs)) \<and> r_plan t = r_plan s"
  using assms
proof (induction cs arbitrary: s dn)
  case (Cons c cs)
  obtain gi where gi: "draw_index (r_indexes s) = Ok gi" using Cons.prems(1) by (cases "draw_index (r_indexes s)") (simp_all add: insert_peer_def)
  obtain g i where pair: "gi = (g, i)" by force
  have d: "draw_index (r_indexes s) = Ok (g, i)" and r: "insert_peers w cs (insert_peer_at w c i (s\<lparr>r_indexes := g\<rparr>)) = Ok t"
    using Cons.prems(1) gi pair by (simp_all add: insert_peer_def)
  let ?s = "s\<lparr>r_indexes := g\<rparr>" and ?t = "insert_peer_at w c i (s\<lparr>r_indexes := g\<rparr>)"
  note D = draw_index_issued(2) [OF Cons.prems(5) d]
  have eq: "conf_at ?s = conf_at s" by (simp add: conf_at_def fun_eq_iff)
  have ok: "bt_ok (r_peers ?s)" using Cons.prems(2) by simp
  note I = insert_peer_at_facts [OF ok, where w = w and c = c and i = i, unfolded eq]
  have ci: "conf_at s i = None" using D by simp
  have old: "pc_label p \<noteq> pc_label c \<and> pc_public p \<noteq> pc_public c" if "conf_at s j = Some p" for j p
  proof -
    have "p \<in> set dn" using Cons.prems(6) that by blast
    moreover have "pc_label c \<notin> pc_label ` set dn" "pc_public c \<notin> pc_public ` set dn" using Cons.prems(7,8) by simp_all
    ultimately show ?thesis by (metis image_eqI)
  qed
  have l: "r_by_label s (pc_label c) = None" using names_None [OF Cons.prems(3)] old by simp
  have k: "r_by_pubkey s (pc_public c) = None" using names_None [OF Cons.prems(4)] old by simp
  have "r_indexes ?t = g" using I(2) by (simp add: steady_def)
  moreover have "{j. conf_at ?t j \<noteq> None} = insert i {j. conf_at s j \<noteq> None}" using I(5) by auto
  ultimately have iss: "issued (r_indexes ?t) {j. conf_at ?t j \<noteq> None}" using D by simp
  have ran: "(\<exists>j. conf_at ?t j = Some p) \<longleftrightarrow> p \<in> set (dn @ [c])" for p
  proof -
    have "(\<exists>j. conf_at ?t j = Some p) \<longleftrightarrow> p = c \<or> (\<exists>j. j \<noteq> i \<and> conf_at s j = Some p)" unfolding I(5) by auto
    also have "\<dots> \<longleftrightarrow> p = c \<or> (\<exists>j. conf_at s j = Some p)" using ci by (metis option.distinct(1))
    finally show ?thesis using Cons.prems(6) [of p] by auto
  qed
  have nm: "names (r_by_label ?t) pc_label (conf_at ?t)" "names (r_by_pubkey ?t) pc_public (conf_at ?t)"
    unfolding I using names_insert [OF Cons.prems(3) l ci] names_insert [OF Cons.prems(4) k ci] by simp_all
  have ih: "bt_ok (r_peers t) \<and> names (r_by_label t) pc_label (conf_at t) \<and> names (r_by_pubkey t) pc_public (conf_at t) \<and>
    issued (r_indexes t) {i. conf_at t i \<noteq> None} \<and> (\<forall>p. (\<exists>i. conf_at t i = Some p) \<longleftrightarrow> p \<in> set ((dn @ [c]) @ cs)) \<and> r_plan t = r_plan ?t"
    by (rule Cons.IH [OF r I(1) nm iss ran]) (use Cons.prems(7,8) in simp_all)
  moreover have "r_plan ?t = r_plan s" using I(2) by (simp add: steady_def)
  ultimately show ?case by simp
qed auto

lemma routes_rebuilt [simp]:
  "r_peers (rebuild_routes s) = r_peers s" "conf_at (rebuild_routes s) = conf_at s" "r_by_label (rebuild_routes s) = r_by_label s"
  "r_by_pubkey (rebuild_routes s) = r_by_pubkey s" "r_indexes (rebuild_routes s) = r_indexes s" "r_plan (rebuild_routes s) = r_plan s"
  "r_routes (rebuild_routes s) = conf_entries (confs (rebuild_routes s))" "steady (rebuild_routes s) = steady s"
  by (simp_all add: rebuild_routes_def conf_at_def fun_eq_iff steady_def network_entries_confs) (simp add: confs_def)

lemma with_indexes_ok:
  assumes n: "nets_ok (wr_codec w)" and s: "with_indexes w conf plan options g = Ok s" and g: "issued g {}"
  shows "resp_inv s \<and> (\<forall>p. (\<exists>i. conf_at s i = Some p) \<longleftrightarrow> p \<in> set (gc_peers conf))"
proof -
  have v: "validate (wr_codec w) conf = Ok ()" "check_against (wr_codec w) conf plan = Ok ()"
    using s by (auto simp: with_indexes_def attempt_Ok)
  obtain s1 s2 where i: "insert_peers w (gc_peers conf) s1 = Ok s2" "s = rebuild_routes s2" "r_peers s1 = []" "r_by_pubkey s1 = Map.empty"
    "r_by_label s1 = Map.empty" "r_indexes s1 = g" "r_plan s1 = plan"
    using s by (auto simp: with_indexes_def attempt_Ok)
  have cm: "conf_at s1 = Map.empty" using i(3) by (simp add: conf_at_def fun_eq_iff)
  have none: "names Map.empty f Map.empty" for f :: "peer_conf \<Rightarrow> bytes" by (simp add: names_def)
  note C0 = checked_peers(3,4) [OF n v none]
  have d: "distinct (map pc_label (gc_peers conf))" "distinct (map pc_public (gc_peers conf))" using C0 by simp_all
  have r: "bt_ok (r_peers s2) \<and> names (r_by_label s2) pc_label (conf_at s2) \<and> names (r_by_pubkey s2) pc_public (conf_at s2) \<and>
    issued (r_indexes s2) {i. conf_at s2 i \<noteq> None} \<and> (\<forall>p. (\<exists>i. conf_at s2 i = Some p) \<longleftrightarrow> p \<in> set ([] @ gc_peers conf)) \<and> r_plan s2 = r_plan s1"
    by (rule insert_peers_ok [OF i(1)]) (use i(3-6) cm none g d in \<open>simp_all add: bt_ok_def\<close>)
  have all: "p \<in> set (gc_peers conf)" if "conf_at s2 i = Some p" for i p using r that by auto
  note C = checked_peers [OF n v _ all]
  show ?thesis using r C(1,2) [OF conjunct1 [OF conjunct2 [OF r]]] unfolding resp_inv_def i(2) by (simp add: i(7))
qed

section \<open>Reloading\<close>

lemma rebuilt_lookups:
  assumes "bt_ok (r_peers s)" and "unambiguous (conf_at s)"
  shows "names (r_by_pubkey (rebuild_lookups s)) pc_public (conf_at s)" "names (r_by_label (rebuild_lookups s)) pc_label (conf_at s)"
proof -
  have u: "i = j" if "get_peer s i = Some p" "get_peer s j = Some q" "pr_public p = pr_public q \<or> pr_label p = pr_label q" for i j p q
    using assms(2) that by (auto simp: unambiguous_def conf_at_def conf_of_def)
  have k: "foldl (\<lambda>m (i, p). m(pr_public p \<mapsto> i)) Map.empty (r_peers s) k = Some i \<longleftrightarrow> (\<exists>p. get_peer s i = Some p \<and> pr_public p = k)" for k i
    by (rule names_rebuilt [OF assms(1)]) (use u in blast)
  have l: "foldl (\<lambda>m (i, p). m(pr_label p \<mapsto> i)) Map.empty (r_peers s) k = Some i \<longleftrightarrow> (\<exists>p. get_peer s i = Some p \<and> pr_label p = k)" for k i
    by (rule names_rebuilt [OF assms(1)]) (use u in blast)
  show "names (r_by_pubkey (rebuild_lookups s)) pc_public (conf_at s)" "names (r_by_label (rebuild_lookups s)) pc_label (conf_at s)"
    by (auto simp: names_def rebuild_lookups_def k l conf_at_def conf_of_def)
qed


lemma lookups_rebuilt [simp]:
  "r_peers (rebuild_lookups s) = r_peers s" "conf_at (rebuild_lookups s) = conf_at s" "steady (rebuild_lookups s) = steady s"
  by (simp_all add: rebuild_lookups_def conf_at_def fun_eq_iff steady_def)

text \<open>The start of the second loop, after the peers that are gone are removed.\<close>

lemma midway_start:
  assumes inv: "resp_inv s" and fr: "length fr = length (filter (\<lambda>p. r_by_label s (pc_label p) = None) P)" "distinct fr"
      "set fr \<inter> {i. conf_at s i \<noteq> None} = {}"
    and gone: "gone = map (\<lambda>(i, p). (i, pr_label p)) (filter (\<lambda>(_, p). pr_label p \<notin> pc_label ` set P) (r_peers s))"
  shows "\<exists>t rep. fold remove_peer gone (s\<lparr>r_indexes := g\<rparr>, report) = (t, rep) \<and>
    midway [] P fr (set fr \<union> {i. conf_at s i \<noteq> None}) (s\<lparr>r_indexes := g\<rparr>) t"
proof -
  note R = resp_invD [OF inv]
  let ?s = "s\<lparr>r_indexes := g\<rparr>"
  have eq: "conf_at ?s = conf_at s" by (simp add: conf_at_def fun_eq_iff)
  have mem: "(i, l) \<in> set gone \<longleftrightarrow> (\<exists>p. get_peer s i = Some p \<and> pr_label p = l \<and> l \<notin> pc_label ` set P)" for i l
  proof -
    have "(i, p) \<in> set (r_peers s) \<longleftrightarrow> get_peer s i = Some p" for p using bt_ok_distinct [OF R(1)] by simp
    then show ?thesis by (auto simp: gone image_iff)
  qed
  have ids: "i \<in> fst ` set gone \<longleftrightarrow> (\<exists>p. get_peer s i = Some p \<and> pr_label p \<notin> pc_label ` set P)" for i
  proof -
    have "i \<in> fst ` set gone \<longleftrightarrow> (\<exists>l. (i, l) \<in> set gone)" by force
    then show ?thesis unfolding mem by blast
  qed
  have labs: "l \<in> snd ` set gone \<longleftrightarrow> r_by_label s l \<noteq> None \<and> l \<notin> pc_label ` set P" for l
  proof -
    have "r_by_label s l \<noteq> None \<longleftrightarrow> (\<exists>i p. get_peer s i = Some p \<and> pr_label p = l)"
      unfolding names_None [OF R(4)] not_all not_imp not_not by (metis conf_at_SomeD conf_at_SomeI conf_of_fields(1))
    moreover have "l \<in> snd ` set gone \<longleftrightarrow> (\<exists>i. (i, l) \<in> set gone)" by force
    ultimately show ?thesis unfolding mem by blast
  qed
  have "bt_ok (r_peers ?s)" using R(1) by simp
  from remove_peers [OF this, of gone report] obtain t rep where f: "fold remove_peer gone (?s, report) = (t, rep)"
    and ok: "bt_ok (r_peers t)" and st: "steady t = steady ?s"
    and tl0: "r_by_label t = (\<lambda>l. if l \<in> snd ` set gone then None else r_by_label ?s l)"
    and tg0: "get_peer t = (\<lambda>i. if i \<in> fst ` set gone then None else get_peer ?s i)"
    by blast
  have tl: "r_by_label t = (\<lambda>l. if l \<in> snd ` set gone then None else r_by_label s l)"
    and tg: "get_peer t = (\<lambda>i. if i \<in> fst ` set gone then None else get_peer s i)"
    unfolding tl0 tg0 by (simp_all add: fun_eq_iff)
  have tc: "conf_at t i = Some p \<longleftrightarrow> conf_at s i = Some p \<and> pc_label p \<in> pc_label ` set P" for i p
    unfolding conf_at_def tg ids by (cases "get_peer s i") (auto simp: conf_of_def)
  have tl': "r_by_label t l = (if l \<in> pc_label ` set P then r_by_label s l else None)" for l unfolding tl labs by auto
  have nm: "names (r_by_label t) pc_label (conf_at t)"
    unfolding names_def
  proof (intro allI)
    fix k i
    have "r_by_label s k = Some i \<longleftrightarrow> (\<exists>p. conf_at s i = Some p \<and> pc_label p = k)" using R(4) by (simp add: names_def)
    then show "r_by_label t k = Some i \<longleftrightarrow> (\<exists>p. conf_at t i = Some p \<and> pc_label p = k)" unfolding tl' tc by auto
  qed
  have "filter (\<lambda>p. r_by_label t (pc_label p) = None) P = filter (\<lambda>p. r_by_label s (pc_label p) = None) P"
    by (intro filter_cong) (auto simp: tl')
  then have len: "length fr = length (filter (\<lambda>p. r_by_label t (pc_label p) = None) P)" using fr(1) by simp
  have new: "\<forall>i\<in>set fr. get_peer t i = None" using fr(3) by (auto simp: tg conf_at_def)
  have used: "\<forall>i. get_peer t i \<noteq> None \<longrightarrow> i \<in> set fr \<union> {i. conf_at s i \<noteq> None}" by (simp add: tg conf_at_def)
  have kept: "\<forall>i live. get_peer ?s i = Some live \<longrightarrow> conf_of live \<in> set [] \<union> set P \<longrightarrow> get_peer t i = Some live"
  proof (intro allI impI)
    fix i live assume l: "get_peer ?s i = Some live" "conf_of live \<in> set [] \<union> set P"
    then have "pr_label live \<in> pc_label ` set P" by (auto simp: conf_of_def intro: image_eqI [rotated])
    then show "get_peer t i = Some live" using l by (simp add: tg ids)
  qed
  have left: "\<forall>i p. conf_at t i = Some p \<longrightarrow> p \<in> set [] \<or> pc_label p \<in> pc_label ` set P" by (simp add: tc)
  have "midway [] P fr (set fr \<union> {i. conf_at s i \<noteq> None}) ?s t"
    unfolding midway_def using ok st nm fr(2) len new used kept left by simp
  then show ?thesis using f by blast
qed

lemma reload_ok:
  assumes inv: "resp_inv s" and n: "nets_ok (wr_codec w)"
  shows "reload w conf s \<noteq> Panic" and "reload w conf s = Ok (t, rep) \<Longrightarrow>
    resp_inv t \<and> (\<forall>p. (\<exists>i. conf_at t i = Some p) \<longleftrightarrow> p \<in> set (gc_peers conf)) \<and>
    (\<forall>i live. get_peer s i = Some live \<longrightarrow> conf_of live \<in> set (gc_peers conf) \<longrightarrow> get_peer t i = Some live) \<and>
    r_gate t = r_gate s \<and> r_v6 t = r_v6 s \<and> r_plan t = r_plan s \<and> r_isolation t = r_isolation s \<and> r_key t = r_key s"
proof -
  let ?c = "wr_codec w" and ?P = "gc_peers conf" and ?D = "draw_fresh (r_by_label s) (gc_peers conf) (r_indexes s)"
  note F = draw_fresh_issued [OF resp_invD(6) [OF inv], of "r_by_label s" ?P]
  have main: "\<exists>t rep. reload w conf s = Ok (t, rep) \<and> resp_inv t \<and> (\<forall>p. (\<exists>i. conf_at t i = Some p) \<longleftrightarrow> p \<in> set ?P) \<and>
      (\<forall>i live. get_peer s i = Some live \<longrightarrow> conf_of live \<in> set ?P \<longrightarrow> get_peer t i = Some live) \<and>
      r_gate t = r_gate s \<and> r_v6 t = r_v6 s \<and> r_plan t = r_plan s \<and> r_isolation t = r_isolation s \<and> r_key t = r_key s"
    if v: "validate ?c conf = Ok ()" "check_against ?c conf (r_plan s) = Ok ()" and D: "?D = Ok (g, fr)" for g fr
  proof -
    have fr: "length fr = length (filter (\<lambda>p. r_by_label s (pc_label p) = None) ?P)" "distinct fr"
      "set fr \<inter> {i. conf_at s i \<noteq> None} = {}" "issued g (set fr \<union> {i. conf_at s i \<noteq> None})" using F D by blast+
    let ?s = "s\<lparr>r_indexes := g\<rparr>"
    let ?gone = "map (\<lambda>(i, p). (i, pr_label p)) (filter (\<lambda>(_, p). pr_label p \<notin> pc_label ` set ?P) (r_peers s))"
    let ?rep = "\<lparr>rr_added = [], rr_removed = [], rr_rebuilt = [], rr_unchanged = 0\<rparr>"
    have none: "names Map.empty f Map.empty" for f :: "peer_conf \<Rightarrow> bytes" by (simp add: names_def)
    have d: "distinct (map pc_label ?P)" using checked_peers(3) [OF n v none] by simp
    obtain s1 r1 where s1: "fold remove_peer ?gone (?s, ?rep) = (s1, r1)" "midway [] ?P fr (set fr \<union> {i. conf_at s i \<noteq> None}) ?s s1"
      using midway_start [OF inv fr(1-3) refl] by blast
    obtain s2 r2 fr2 where s2: "apply_peers w ?P fr (s1, r1) = Ok (s2, r2)" "midway ([] @ ?P) [] fr2 (set fr \<union> {i. conf_at s i \<noteq> None}) ?s s2"
      using apply_peers_ok [OF s1(2), of w r1] d by auto
    note M = midwayD [OF s2(2)]
    let ?t = "rebuild_routes (rebuild_lookups s2)"
    have r: "reload w conf s = Ok (?t, r2)" using v D s1(1) s2(1) by (simp add: reload_def)
    have ran: "(\<exists>i. conf_at s2 i = Some p) \<longleftrightarrow> p \<in> set ?P" for p using M(4) [of p] M(5) [of _ p] by auto
    then have all: "p \<in> set ?P" if "conf_at s2 i = Some p" for i p using that by blast
    have st: "steady ?t = steady ?s" using M(3) by simp
    note C = checked_peers [OF n v M(2) all]
    have "issued g {i. conf_at s2 i \<noteq> None}" using fr(4) by (rule issued_mono) (use M(10) in \<open>auto simp: conf_at_def\<close>)
    moreover have "r_indexes ?t = g" "r_plan ?t = r_plan s" using st by (simp_all add: steady_def)
    ultimately have "resp_inv ?t" unfolding resp_inv_def
      using M(1) C(1,2) rebuilt_lookups [OF M(1) C(1)] by (simp add: C(1))
    moreover have "get_peer ?t i = Some live" if "get_peer s i = Some live" "conf_of live \<in> set ?P" for i live
      using M(11) [of i live] that by simp
    ultimately show ?thesis using r ran st by (simp add: steady_def)
  qed
  have nv: "validate ?c conf \<noteq> Panic" "check_against ?c conf (r_plan s) \<noteq> Panic"
    using checks_total by (simp_all add: validate_def check_against_def)
  show "reload w conf s \<noteq> Panic"
  proof (cases "validate ?c conf")
    case v: (Ok u)
    show ?thesis
    proof (cases "check_against ?c conf (r_plan s)")
      case a: (Ok u')
      show ?thesis
      proof (cases ?D)
        case (Ok gf)
        obtain g fr where "gf = (g, fr)" by force
        then show ?thesis using main [of g fr] v a Ok by auto
      qed (use v a F in \<open>simp_all add: reload_def\<close>)
    qed (use v nv in \<open>simp_all add: reload_def\<close>)
  qed (use nv in \<open>simp_all add: reload_def\<close>)
  assume r: "reload w conf s = Ok (t, rep)"
  then have "validate ?c conf = Ok ()" "check_against ?c conf (r_plan s) = Ok ()" by (auto simp: reload_def attempt_Ok)
  moreover from this r obtain g fr where "?D = Ok (g, fr)" by (cases ?D) (auto simp: reload_def)
  ultimately show "resp_inv t \<and> (\<forall>p. (\<exists>i. conf_at t i = Some p) \<longleftrightarrow> p \<in> set ?P) \<and>
    (\<forall>i live. get_peer s i = Some live \<longrightarrow> conf_of live \<in> set ?P \<longrightarrow> get_peer t i = Some live) \<and>
    r_gate t = r_gate s \<and> r_v6 t = r_v6 s \<and> r_plan t = r_plan s \<and> r_isolation t = r_isolation s \<and> r_key t = r_key s"
    using main [of g fr] r by auto
qed


section \<open>Runs\<close>

inductive resp_step :: "('n, 't) wire \<Rightarrow> ('n, 't) responder \<Rightarrow> ('n, 't) responder \<Rightarrow> bool" for w where
  step_gate: "resp_step w s (set_gate op generation s)"
| step_ipv6: "resp_step w s (set_ipv6 state s)"
| step_datagram: "resp_step w s (fst (handle_datagram w src datagram now s))"
| step_flush: "resp_step w s (fst (flush_queue w pid s))"
| step_send: "resp_step w s (fst (send_to_peer w pid packet s))"
| step_encapsulate: "resp_step w s (fst (encapsulate_to w dst packet s))"
| step_tick: "resp_step w s (fst (tick w now wall s))"
| step_reset: "resp_step w s (fst (reset_peer w label s))"
| step_reload: "reload w conf s = Ok (t, report) \<Longrightarrow> resp_step w s t"

inductive resp_run :: "('n, 't) wire \<Rightarrow> ('n, 't) responder \<Rightarrow> bool" for w where
  resp_start: "with_indexes w conf plan options (from_seed seed msk) = Ok s \<Longrightarrow> resp_run w s"
| resp_next: "resp_run w s \<Longrightarrow> resp_step w s t \<Longrightarrow> resp_run w t"

inductive_cases resp_stepE: "resp_step w s t"

lemma gate_keeps: "resp_inv (set_gate b g s) = resp_inv s" "resp_inv (set_ipv6 v s) = resp_inv s"
proof -
  have "conf_at (set_gate b g s) = conf_at s" "conf_at (set_ipv6 v s) = conf_at s"
    by (simp_all add: conf_at_def fun_eq_iff set_gate_def set_ipv6_def)
  moreover have "confs (set_gate b g s) = confs s" "confs (set_ipv6 v s) = confs s" by (simp_all add: confs_def set_gate_def set_ipv6_def)
  ultimately show "resp_inv (set_gate b g s) = resp_inv s" "resp_inv (set_ipv6 v s) = resp_inv s"
    by (simp_all add: resp_inv_def) (simp_all add: set_gate_def set_ipv6_def)
qed

lemmas op_inv = handle_datagram_shape [THEN resp_inv_shape] flush_queue_shape [THEN resp_inv_shape]
  send_to_peer_shape [THEN resp_inv_shape] encapsulate_to_shape [THEN resp_inv_shape] tick_shape [THEN resp_inv_shape]
  reset_peer_shape [THEN resp_inv_shape] gate_keeps

lemma resp_step_inv:
  assumes "resp_step w s t" and "resp_inv s" and "nets_ok (wr_codec w)"
  shows "resp_inv t"
  using assms(1)
proof (cases rule: resp_step.cases)
  case (step_reload conf report)
  then show ?thesis using reload_ok(2) [OF assms(2,3)] by blast
qed (use assms(2) in \<open>simp_all add: op_inv\<close>)

lemma resp_run_inv:
  assumes "resp_run w s" and "nets_ok (wr_codec w)"
  shows "resp_inv s"
  using assms(1)
proof (induction rule: resp_run.induct)
  case (resp_start conf plan options seed msk s)
  then show ?case using with_indexes_ok [OF assms(2) _ issued_seed] by blast
next
  case (resp_next s t)
  then show ?case using resp_step_inv assms(2) by blast
qed

end
