(* ===== verification/Responder_Traffic.thy ===== *)
theory Responder_Traffic
  imports Responder_Reach
begin

text \<open>
  What a datagram can lead to: the verdict on a decrypted packet, where an uplink packet comes from,
  what is emitted while the gate is closed, and what moves a peer's endpoint.
\<close>

section \<open>The verdict\<close>

lemma verdict_shape:
  assumes "shape t = shape s"
  shows "verdict w t p = verdict w s p"
  unfolding verdict_def shapeD(5,7,8,10) [OF assms] ..

text \<open>The destinations a decrypted packet may be forwarded to.\<close>

definition may_forward :: "('n, 't) wire \<Rightarrow> ('n, 't) responder \<Rightarrow> bytes \<Rightarrow> ip_addr \<Rightarrow> bool" where
  "may_forward w s packet dst \<longleftrightarrow> is_unicast dst \<and> \<not> plan_is_gateway (r_plan s) dst \<and> rt_longest_match w (r_routes s) dst = None \<and>
     \<not> plan_contains (wr_codec w) (r_plan s) dst \<and>
     (if is_tunnel_pool dst then is_tunnel_gateway dst \<and> is_resolver_port packet
      else \<not> is_private dst \<and> (is_ipv6 dst \<longrightarrow> r_v6 s = V6Available))"

lemma verdict_Forward: "verdict w s p = Forward \<longleftrightarrow> (\<exists>dst. wg_dst_address w p = Some dst \<and> may_forward w s p dst)"
  by (cases "wg_dst_address w p")
    (auto simp: verdict_def may_forward_def split: if_splits option.splits v6_state.splits)

lemma verdict_Loopback: "verdict w s p = LoopbackTo j \<Longrightarrow> \<not> r_isolation s"
  by (auto simp: verdict_def split: if_splits option.splits v6_state.splits)

section \<open>Packets for the tunnel\<close>

lemma echo_reply_no_panic:
  assumes e: "engine_sums e"
  shows "build_echo_reply_v4 e p \<noteq> Panic \<and> build_echo_reply_v6 e p \<noteq> Panic"
proof (cases "\<exists>h. parse_ip p = Ok h \<and> answerable p h")
  case True
  then obtain h where h: "parse_ip p = Ok h" "answerable p h" by blast
  show ?thesis
  proof (cases "is_v6 h")
    case True
    then show ?thesis using echo_reply_v6_ok [OF e h True] echo_reply_other_family(1) [OF h(1) True, of e] by auto
  next
    case False
    then show ?thesis using echo_reply_v4_ok [OF e h False] echo_reply_other_family(2) [OF h(1) False, of e] by auto
  qed
next
  case False
  then show ?thesis using echo_reply_refused [of p e] by auto
qed

lemma unreachable_no_panic:
  assumes e: "engine_sums e"
  shows "build_unreachable_v4 e p a \<noteq> Panic" "build_unreachable_v6 e p b \<noteq> Panic"
proof -
  have "build_unreachable_v4 e p a \<noteq> Panic \<and> build_unreachable_v6 e p b \<noteq> Panic"
  proof (cases "parse_ip p")
    case (Ok h)
    show ?thesis
      using unreachable_v4_ok [OF e Ok, of a] unreachable_v6_ok [OF e Ok, of b] unreachable_refused [OF Ok, of e]
      by (cases "is_v6 h"; cases "refusable p h") auto
  qed (simp_all add: build_unreachable_v4_def build_unreachable_v6_def parse_ip_def)
  then show "build_unreachable_v4 e p a \<noteq> Panic" "build_unreachable_v6 e p b \<noteq> Panic" by blast+
qed

lemma encapsulated_cases:
  "(case encapsulate_into w i b s of (s, Some out) \<Rightarrow> (count (rc_reply False) s, Ok (Reply out)) | (s, None) \<Rightarrow> (s, Ok Consumed)) = (t, Ok r) \<Longrightarrow>
     r = Consumed \<or> (\<exists>out. r = Reply out)"
  by (auto split: prod.splits option.splits)

lemma deliver_cases:
  assumes "deliver w i p now s = (t, r)" and "wg_dst_address w [] = None" and "engine_sums (wr_engine w)"
  obtains "r = Ok (Uplink i p)" "verdict w s p = Forward" "t = count rc_uplink s"
  | j where "r = Ok (Loopback j p)" "verdict w s p = LoopbackTo j" "t = count rc_loopback s"
  | d where "r = Ok (Dropped d)" "verdict w s p = DropWith d" "t = note_for i d s"
  | a where "r = Ok Consumed \<or> (\<exists>out. r = Ok (Reply out))" "verdict w s p = AnswerWith a"
proof (cases "verdict w s p")
  case (AnswerWith a)
  then have "p \<noteq> []" using assms(2) by (auto simp: verdict_def)
  obtain b rest where p: "p = b # rest" using \<open>p \<noteq> []\<close> by (cases p) auto
  have np: "build_answer w (r_plan s) p a \<noteq> Panic"
    using echo_reply_no_panic [OF assms(3), of p] unreachable_no_panic [OF assms(3), of p] by (cases a) (simp_all add: p with_nth_def)
  have "r = Ok Consumed \<or> (\<exists>out. r = Ok (Reply out))"
    using assms(1) AnswerWith np by (auto simp: deliver_def Let_def count_def split: option.splits prod.splits if_splits res.splits)
  then show thesis using AnswerWith that(4) by blast
qed (use assms(1) that in \<open>auto simp: deliver_def\<close>)


text \<open>
  What the crates promise: a destination is only read from a packet that has one, the checksum
  engine computes what it documents.
\<close>

definition wire_ok :: "('n, 't) wire \<Rightarrow> bool" where
  "wire_ok w \<longleftrightarrow> wg_dst_address w [] = None \<and> engine_sums (wr_engine w)"

text \<open>Whom a datagram is opened for, and with what outcome.\<close>

definition opens ::
  "('n, 't) wire \<Rightarrow> ip_addr \<times> u16 \<Rightarrow> bytes \<Rightarrow> ('n, 't) responder \<Rightarrow> peer_id \<Rightarrow> 't peer \<Rightarrow> tunn_result \<Rightarrow> bool" where
  "opens w src datagram s pid p r \<longleftrightarrow> get_peer s pid = Some p \<and>
     (\<exists>n t. wg_decapsulate w (r_noise s) (pr_tunn p) (Some (fst src)) datagram = (n, t, r))"

lemma decapsulate_cases:
  obtains "get_peer s pid = None" "decapsulate w pid src d s = (s, FailedOut UnknownIndex)"
  | p n t r where "opens w src d s pid p r" "decapsulate w pid src d s = (upd_peer pid (\<lambda>p. p\<lparr>pr_tunn := t\<rparr>) (s\<lparr>r_noise := n\<rparr>), summarize r)"
proof (cases "get_peer s pid")
  case (Some p)
  obtain n t r where d: "wg_decapsulate w (r_noise s) (pr_tunn p) (Some (fst src)) d = (n, t, r)" by (metis prod_cases3)
  then have "opens w src d s pid p r" using Some by (auto simp: opens_def)
  then show thesis using that(2) Some d by (simp add: decapsulate_def)
qed (use that(1) in \<open>simp add: decapsulate_def\<close>)

lemma summarize_Tunnel: "summarize r = TunnelOut q a \<longleftrightarrow> (case r of WriteToTunnelV4 b x \<Rightarrow> b = q \<and> a = V4 x | WriteToTunnelV6 b x \<Rightarrow> b = q \<and> a = V6 x | _ \<Rightarrow> False)"
  by (cases r rule: summarize.cases) auto

definition roams :: "u8 \<Rightarrow> outcome \<Rightarrow> bool" where
  "roams kind out \<longleftrightarrow> (case out of FailedOut _ \<Rightarrow> False | NetworkOut _ k \<Rightarrow> kind = 4 \<or> kind = 2 \<and> k \<noteq> 3 | _ \<Rightarrow> kind = 4)"

text \<open>The state in which a datagram that was opened is judged.\<close>

definition opened :: "u8 \<Rightarrow> ip_addr \<times> u16 \<Rightarrow> peer_id \<Rightarrow> 'n \<Rightarrow> 't \<Rightarrow> outcome \<Rightarrow> ('n, 't) responder \<Rightarrow> ('n, 't) responder" where
  "opened kind src pid n t out s =
     (let s = upd_peer pid (\<lambda>p. p\<lparr>pr_tunn := t\<rparr>) (s\<lparr>r_noise := n\<rparr>)
      in if roams kind out then upd_peer pid (\<lambda>p. p\<lparr>pr_endpoint := Some src\<rparr>) s else s)"

lemma opened_shape [simp]: "shape (opened kind src pid n t out s) = shape s"
  by (simp add: opened_def Let_def shape_upd)

lemma opened_get:
  "get_peer (opened kind src pid n t out s) i = (if i = pid
     then map_option (\<lambda>p. let p = p\<lparr>pr_tunn := t\<rparr> in if roams kind out then p\<lparr>pr_endpoint := Some src\<rparr> else p) (get_peer s i) else get_peer s i)"
  by (auto simp: opened_def Let_def upd_peer_get option.map_comp o_def intro: map_option_cong)

text \<open>The datagram is judged for its peer once the tunnel has opened it.\<close>

definition judged ::
  "('n, 't) wire \<Rightarrow> peer_id \<Rightarrow> 't peer \<Rightarrow> outcome \<Rightarrow> instant \<Rightarrow> ('n, 't) responder \<Rightarrow> ('n, 't) responder \<times> (unit, inbound) res" where
  "judged w i p out now s = (case out of
      FailedOut reason \<Rightarrow> (note_for i reason s, Ok (Dropped reason))
    | DoneOut \<Rightarrow> (s, Ok Consumed)
    | NetworkOut bs _ \<Rightarrow> if \<not> g_open (r_gate s) then (note_for i GateClosed s, Ok (Dropped GateClosed)) else (count (rc_reply False) s, Ok (Reply bs))
    | TunnelOut q inner \<Rightarrow>
        if \<not> owns (wr_codec w) p inner then
          let reason = (if is_link_local inner then LinkLocalSource else SpoofedSource) in (note_for i reason s, Ok (Dropped reason))
        else if \<not> g_open (r_gate s) then (note_for i GateClosed s, Ok (Dropped GateClosed))
        else deliver w i q now (upd_peer i (\<lambda>p. p\<lparr>pr_stats := (pr_stats p)\<lparr>ps_rx_bytes := ps_rx_bytes (pr_stats p) + of_nat (length q)\<rparr>\<rparr>) s))"

lemma demux_cases:
  assumes "demux w src d idx kind now s = (u, r)"
  obtains (unknown) "get_peer s (drop_bit 8 idx) = None" "u = note_drop UnknownIndex s" "r = Ok (Dropped UnknownIndex)"
  | (known) p n t res where "opens w src d s (drop_bit 8 idx) p res"
      "judged w (drop_bit 8 idx) p (summarize res) now (opened kind src (drop_bit 8 idx) n t (summarize res) s) = (u, r)"
proof (cases "get_peer s (drop_bit 8 idx :: u32)")
  case None
  then show thesis using assms by (intro unknown) (simp_all add: demux_def)
next
  case (Some p)
  let ?i = "drop_bit 8 idx :: u32"
  obtain n t res where o: "opens w src d s ?i p res"
    and dc: "decapsulate w ?i src d s = (upd_peer ?i (\<lambda>p. p\<lparr>pr_tunn := t\<rparr>) (s\<lparr>r_noise := n\<rparr>), summarize res)"
    using Some by (cases rule: decapsulate_cases [of s ?i w src d]) (auto simp: opens_def)
  define out where "out = summarize res"
  obtain p' where p': "get_peer (opened kind src ?i n t out s) ?i = Some p'" "pr_allowed p' = pr_allowed p"
    using Some by (simp add: opened_get Let_def)
  have own: "owns (wr_codec w) p' = owns (wr_codec w) p" using p'(2) by (simp add: owns_def fun_eq_iff)
  have "demux w src d idx kind now s = judged w ?i p out now (opened kind src ?i n t out s)"
    using Some p'(1) own dc [folded out_def]
    by (cases out) (simp_all add: demux_def judged_def opened_def roams_def Let_def split: if_splits)
  then show thesis using known [OF o] assms by (simp add: out_def)
qed

lemma judged_cases:
  assumes "judged w i p out now s = (u, r)"
  obtains (dropped) reason where "u = note_for i reason s" "r = Ok (Dropped reason)"
  | (quiet) "out = DoneOut" "u = s" "r = Ok Consumed"
  | (answered) bs k where "out = NetworkOut bs k" "g_open (r_gate s)" "u = count (rc_reply False) s" "r = Ok (Reply bs)"
  | (delivered) q inner where "out = TunnelOut q inner" "owns (wr_codec w) p inner" "g_open (r_gate s)"
      "deliver w i q now (upd_peer i (\<lambda>p. p\<lparr>pr_stats := (pr_stats p)\<lparr>ps_rx_bytes := ps_rx_bytes (pr_stats p) + of_nat (length q)\<rparr>\<rparr>) s) = (u, r)"
proof (cases out)
  case (TunnelOut q inner)
  then show thesis using assms dropped delivered by (auto simp: judged_def Let_def split: if_splits)
next
  case (NetworkOut bs k)
  then show thesis using assms dropped answered by (auto simp: judged_def split: if_splits)
qed (use assms quiet dropped in \<open>auto simp: judged_def\<close>)

text \<open>The messages a peer's tunnel handles, with the kind each is demultiplexed under.\<close>

definition addressed :: "wg_packet \<Rightarrow> u32 \<Rightarrow> u8 \<Rightarrow> bool" where
  "addressed packet idx kind \<longleftrightarrow>
     packet = HandshakeResponse idx \<and> kind = 2 \<or> packet = PacketCookieReply idx \<and> kind = 3 \<or> packet = PacketData idx \<and> kind = 4"

lemma handle_cases:
  assumes "handle_datagram w src d now s = (u, r)"
  obtains (oversize) "65535 < length d" "u = note_drop Oversize (count rc_datagram s)" "r = Ok (Dropped Oversize)"
  | (cookie) n c where "length d \<le> 65535" "wg_verify w (r_noise s) (fst src) d = (n, Inl (WriteToNetwork c))"
      "u = count (rc_reply True) ((count rc_datagram s)\<lparr>r_noise := n\<rparr>)" "r = Ok (Reply c)"
  | (malformed) n where "u = note_drop MalformedDatagram ((count rc_datagram s)\<lparr>r_noise := n\<rparr>)" "r = Ok (Dropped MalformedDatagram)"
  | (initiation) n init where "length d \<le> 65535" "wg_verify w (r_noise s) (fst src) d = (n, Inr (HandshakeInit init))"
      "handshake_init w src d init now ((count rc_datagram s)\<lparr>r_noise := n\<rparr>) = (u, r)"
  | (session) n packet idx kind where "length d \<le> 65535" "wg_verify w (r_noise s) (fst src) d = (n, Inr packet)" "addressed packet idx kind"
      "demux w src d idx kind now ((count rc_datagram s)\<lparr>r_noise := n\<rparr>) = (u, r)"
proof (cases "65535 < length d")
  case True
  then show thesis using assms by (intro oversize) (simp_all add: handle_datagram_def)
next
  case False
  then have l: "length d \<le> 65535" by simp
  have cn: "r_noise (count rc_datagram s) = r_noise s" by (simp add: count_def)
  obtain n v where v: "wg_verify w (r_noise s) (fst src) d = (n, v)" by force
  show thesis
  proof (cases v)
    case (Inl res)
    then show thesis using assms False v cn cookie [OF l] malformed by (cases res) (auto simp: handle_datagram_def)
  next
    case (Inr packet)
    then show thesis using assms False v cn initiation [OF l] session [OF l]
      by (cases packet) (auto simp: handle_datagram_def addressed_def)
  qed
qed

lemma handshake_init_cases:
  assumes "handshake_init w src d init now s = (u, r)"
  obtains (closed) "\<not> g_open (r_gate s)" "u = count rc_handshake_refused_gate_closed s" "r = Ok (Dropped GateClosed)"
  | (refused) h reason where "g_open (r_gate s)" "u = note_drop reason (s\<lparr>r_per_source := h\<rparr>)" "r = Ok (Dropped reason)"
  | (failed) h pid s' out reason where "g_open (r_gate s)" "decapsulate w pid src d (s\<lparr>r_per_source := h\<rparr>) = (s', out)"
      "u = note_for pid reason s'" "r = Ok (Dropped reason)"
  | (answered) h pid public s' bs kind where "g_open (r_gate s)" "wg_anon w (gk_secret (r_key s)) (gk_public (r_key s)) init = Some public"
      "r_by_pubkey s public = Some pid" "decapsulate w pid src d (s\<lparr>r_per_source := h\<rparr>) = (s', NetworkOut bs kind)"
      "u = count (rc_reply (kind = 3)) (if kind = 2 then count rc_handshake (upd_peer pid (\<lambda>p. p\<lparr>pr_endpoint := Some src,
             pr_stats := (pr_stats p)\<lparr>ps_handshakes := ps_handshakes (pr_stats p) + 1\<rparr>\<rparr>) s') else s')" "r = Ok (Reply bs)"
proof (cases "g_open (r_gate s)")
  case True
  obtain h adm where h: "hb_admit (r_per_source s) (fst src) now = (h, adm)" by force
  consider (no) "\<not> adm" | (anon) "adm" "wg_anon w (gk_secret (r_key s)) (gk_public (r_key s)) init = None"
    | (who) public where "adm" "wg_anon w (gk_secret (r_key s)) (gk_public (r_key s)) init = Some public" by (cases adm) auto
  then show thesis
  proof cases
    case (who public)
    show thesis
    proof (cases "r_by_pubkey s public")
      case None
      then show thesis using assms True h who refused by (auto simp: handshake_init_def)
    next
      case (Some pid)
      obtain s' out where dc: "decapsulate w pid src d (s\<lparr>r_per_source := h\<rparr>) = (s', out)" by force
      show thesis
      proof (cases out)
        case (NetworkOut bs kind)
        then show thesis using assms True h who Some dc answered [OF True who(2) Some] by (auto simp: handshake_init_def)
      qed (use assms True h who Some dc failed [OF True dc] in \<open>auto simp: handshake_init_def\<close>)
    qed
  qed (use assms True h refused in \<open>auto simp: handshake_init_def\<close>)
qed (use assms closed in \<open>auto simp: handshake_init_def\<close>)

section \<open>Endpoints\<close>

lemma endpoint_keeps [simp]:
  "endpoint (count f s) = endpoint s" "endpoint (s\<lparr>r_noise := n\<rparr>) = endpoint s" "endpoint (s\<lparr>r_per_source := h\<rparr>) = endpoint s"
  "endpoint (s\<lparr>r_answers := b\<rparr>) = endpoint s" "endpoint (note_drop d s) = endpoint s"
  by (simp_all add: endpoint_def count_def note_drop_def fun_eq_iff)

lemma endpoint_upd [simp]:
  "endpoint (upd_peer i (\<lambda>p. p\<lparr>pr_tunn := t\<rparr>) s) = endpoint s" "endpoint (upd_peer i (\<lambda>p. p\<lparr>pr_stats := g p\<rparr>) s) = endpoint s"
  "endpoint (note_for i d s) = endpoint s"
proof -
  have "endpoint (upd_peer i f s) = endpoint s" if "\<And>p. pr_endpoint (f p) = pr_endpoint p" for f
    using that by (auto simp: endpoint_def upd_peer_get fun_eq_iff Option.bind_map_option o_def)
  then show "endpoint (upd_peer i (\<lambda>p. p\<lparr>pr_tunn := t\<rparr>) s) = endpoint s" "endpoint (upd_peer i (\<lambda>p. p\<lparr>pr_stats := g p\<rparr>) s) = endpoint s"
    "endpoint (note_for i d s) = endpoint s" by (simp_all add: note_for_def)
qed

lemma endpoint_set:
  "endpoint (upd_peer i (\<lambda>p. p\<lparr>pr_endpoint := Some src, pr_stats := g p\<rparr>) s) j = (if j = i \<and> get_peer s i \<noteq> None then Some src else endpoint s j)"
  by (cases "get_peer s j") (auto simp: endpoint_def upd_peer_get)

lemma encapsulate_into_endpoint: "endpoint (fst (encapsulate_into w i p s)) = endpoint s"
  by (simp add: encapsulate_into_def Let_def split: option.split prod.split tunn_result.split)

lemma deliver_endpoint: "endpoint (fst (deliver w i p now s)) = endpoint s"
proof -
  have e: "endpoint (fst (case encapsulate_into w i b s' of (s, Some out) \<Rightarrow> (count (rc_reply False) s, Ok (Reply out)) | (s, None) \<Rightarrow> (s, Ok Consumed)))
      = endpoint s'" for b s'
    using encapsulate_into_endpoint [of w i b s'] by (cases "encapsulate_into w i b s'") (simp split: option.split)
  show ?thesis by (simp add: deliver_def Let_def e split: ruling.split option.split prod.split res.split)
qed

lemma judged_endpoint:
  assumes "judged w i p out now s = (u, r)"
  shows "endpoint u = endpoint s"
proof (cases rule: judged_cases [OF assms])
  case (4 q inner)
  then show ?thesis
    using deliver_endpoint [of w i q now "upd_peer i (\<lambda>p. p\<lparr>pr_stats := (pr_stats p)\<lparr>ps_rx_bytes := ps_rx_bytes (pr_stats p) + of_nat (length q)\<rparr>\<rparr>) s"]
    by simp
qed simp_all

lemma opened_endpoint:
  "endpoint (opened kind src i n t out s) j = (if j = i \<and> roams kind out \<and> get_peer s i \<noteq> None then Some src else endpoint s j)"
  by (cases "get_peer s j") (auto simp: endpoint_def opened_get Let_def)

text \<open>
  The messages that prove who sent them: a handshake the tunnel of the named peer answers with its
  response, a transport packet or a response that the tunnel of the addressed session accepts.
\<close>

definition proves :: "('n, 't) wire \<Rightarrow> ('n, 't) responder \<Rightarrow> wg_packet \<Rightarrow> peer_id \<Rightarrow> tunn_result \<Rightarrow> bool" where
  "proves w s packet i res \<longleftrightarrow> (case packet of
      HandshakeInit init \<Rightarrow> (\<exists>public bs. wg_anon w (gk_secret (r_key s)) (gk_public (r_key s)) init = Some public \<and>
        r_by_pubkey s public = Some i \<and> res = WriteToNetwork bs \<and> first_byte bs = 2) \<and> g_open (r_gate s)
    | HandshakeResponse idx \<Rightarrow> drop_bit 8 idx = i \<and> (\<exists>bs. res = WriteToNetwork bs \<and> first_byte bs \<noteq> 3)
    | PacketCookieReply idx \<Rightarrow> False
    | PacketData idx \<Rightarrow> drop_bit 8 idx = i \<and> (\<forall>e. res \<noteq> TunnErr e))"

lemma summarize_Network: "summarize r = NetworkOut bs k \<longleftrightarrow> r = WriteToNetwork bs \<and> k = first_byte bs"
  by (cases r rule: summarize.cases) auto

lemma summarize_Failed: "(\<forall>d. summarize r \<noteq> FailedOut d) \<longleftrightarrow> (\<forall>e. r \<noteq> TunnErr e)"
  by (cases r rule: summarize.cases) auto

lemma addressed_proves:
  assumes "addressed packet idx kind" and "roams kind (summarize res)"
  shows "proves w s packet (drop_bit 8 idx) res"
  using assms summarize_Failed [of res]
  by (auto simp: addressed_def roams_def proves_def summarize_Network split: outcome.splits)

lemma opens_state:
  "r_peers t = r_peers s \<Longrightarrow> r_noise t = r_noise s \<Longrightarrow> opens w src d t = opens w src d s"
  by (simp add: opens_def fun_eq_iff)

lemma endpoint_step:
  assumes h: "handle_datagram w src d now s = (u, r)" and moved: "endpoint u i \<noteq> endpoint s i"
  obtains n packet p res where "endpoint u i = Some src" "wg_verify w (r_noise s) (fst src) d = (n, Inr packet)"
    "opens w src d (s\<lparr>r_noise := n\<rparr>) i p res" "proves w s packet i res"
proof (cases rule: handle_cases [OF h])
  case (4 n init)
  let ?s = "(count rc_datagram s)\<lparr>r_noise := n\<rparr>"
  have gk: "r_gate ?s = r_gate s" "r_key ?s = r_key s" "r_by_pubkey ?s = r_by_pubkey s" by (simp_all add: count_def)
  have same: "endpoint s' = endpoint s" if "decapsulate w pid src d (?s\<lparr>r_per_source := hb\<rparr>) = (s', out)" for pid hb s' out
    using that by (auto simp: decapsulate_def split: option.splits prod.splits)
  show thesis
  proof (cases rule: handshake_init_cases [OF 4(3)])
    case (3 hb pid s' out reason)
    then show thesis using same [OF 3(2)] moved by simp
  next
    case (4 hb pid public s' bs kind)
    note ep = same [OF 4(4)]
    have k: "kind = 2" "i = pid" and ei: "endpoint u i = Some src"
      using moved ep 4(5) by (auto simp: endpoint_set split: if_splits)
    obtain p res where o: "opens w src d (?s\<lparr>r_per_source := hb\<rparr>) pid p res" "summarize res = NetworkOut bs kind"
      using 4(4) by (cases rule: decapsulate_cases [of "?s\<lparr>r_per_source := hb\<rparr>" pid w src d]) auto
    have "opens w src d (s\<lparr>r_noise := n\<rparr>) pid p res"
      using o(1) opens_state [of "?s\<lparr>r_per_source := hb\<rparr>" "s\<lparr>r_noise := n\<rparr>" w src d] by (simp add: count_def)
    moreover have "proves w s (HandshakeInit init) pid res" using 4 o(2) gk k by (auto simp: proves_def summarize_Network)
    ultimately show thesis using that ei k \<open>wg_verify w (r_noise s) (fst src) d = (n, Inr (HandshakeInit init))\<close> by blast
  qed (use moved in simp_all)
next
  case (5 n packet idx kind)
  let ?s = "(count rc_datagram s)\<lparr>r_noise := n\<rparr>" and ?i = "drop_bit 8 idx :: u32"
  show thesis
  proof (cases rule: demux_cases [OF 5(4)])
    case (2 p n' t res)
    have e: "endpoint u j = endpoint (opened kind src ?i n' t (summarize res) ?s) j" for j
      using judged_endpoint [OF 2(2)] by simp
    have m: "i = ?i" "roams kind (summarize res)" "endpoint u i = Some src"
      using moved e [of i] by (auto simp: opened_endpoint split: if_splits)
    have "opens w src d (s\<lparr>r_noise := n\<rparr>) i p res"
      using 2(1) opens_state [of ?s "s\<lparr>r_noise := n\<rparr>" w src d] m(1) by (simp add: count_def)
    then show thesis using that [OF m(3) 5(2)] addressed_proves [OF 5(3) m(2), of w s] m(1) by simp
  qed (use moved in simp)
qed (use moved in simp_all)

section \<open>What a datagram leads to\<close>

lemma deliver_total:
  assumes "wire_ok w" and "deliver w i p now s = (t, r)"
  shows "\<exists>inb. r = Ok inb"
  using deliver_cases [OF assms(2)] assms(1) by (auto simp: wire_ok_def)

lemma handle_total:
  assumes "wire_ok w" and h: "handle_datagram w src d now s = (u, r)"
  shows "\<exists>inb. r = Ok inb"
proof (cases rule: handle_cases [OF h])
  case (4 n init)
  then show ?thesis by (cases rule: handshake_init_cases [OF 4(3)]) simp_all
next
  case (5 n packet idx kind)
  show ?thesis
  proof (cases rule: demux_cases [OF 5(4)])
    case (2 p n' t res)
    then show ?thesis using deliver_total [OF assms(1)] by (cases rule: judged_cases [OF 2(2)]) auto
  qed simp
qed simp_all

text \<open>A packet that leaves towards the network, or towards another peer, comes from a session.\<close>

lemma handle_delivered:
  assumes "wire_ok w" and h: "handle_datagram w src d now s = (u, Ok inb)" and b: "\<forall>bs. inb \<noteq> Reply bs" "inb \<noteq> Consumed" "\<forall>x. inb \<noteq> Dropped x"
  obtains n packet idx kind p res q inner where "length d \<le> 65535" "wg_verify w (r_noise s) (fst src) d = (n, Inr packet)"
    "addressed packet idx kind" "opens w src d (s\<lparr>r_noise := n\<rparr>) (drop_bit 8 idx) p res" "summarize res = TunnelOut q inner"
    "owns (wr_codec w) p inner" "g_open (r_gate s)"
    "inb = Uplink (drop_bit 8 idx) q \<and> verdict w s q = Forward \<or> (\<exists>j. inb = Loopback j q \<and> verdict w s q = LoopbackTo j)"
proof (cases rule: handle_cases [OF h])
  case (4 n init)
  then show thesis using b by (cases rule: handshake_init_cases [OF 4(3)]) simp_all
next
  case (5 n packet idx kind)
  let ?s = "(count rc_datagram s)\<lparr>r_noise := n\<rparr>" and ?i = "drop_bit 8 idx :: u32"
  show thesis
  proof (cases rule: demux_cases [OF 5(4)])
    case (2 p n' t res)
    let ?o = "opened kind src ?i n' t (summarize res) ?s"
    have so: "shape ?o = shape s" by simp
    show thesis
    proof (cases rule: judged_cases [OF 2(2)])
      case (4 q inner)
      let ?s' = "upd_peer ?i (\<lambda>p. p\<lparr>pr_stats := (pr_stats p)\<lparr>ps_rx_bytes := ps_rx_bytes (pr_stats p) + of_nat (length q)\<rparr>\<rparr>) ?o"
      have ss: "shape ?s' = shape s" using so by (simp add: shape_upd)
      have g: "g_open (r_gate s)" using 4(3) shapeD(9) [OF so] by simp
      have o: "opens w src d (s\<lparr>r_noise := n\<rparr>) ?i p res"
        using 2(1) opens_state [of ?s "s\<lparr>r_noise := n\<rparr>" w src d] by (simp add: count_def)
      have "inb = Uplink ?i q \<and> verdict w s q = Forward \<or> (\<exists>j. inb = Loopback j q \<and> verdict w s q = LoopbackTo j)"
        by (rule deliver_cases [OF 4(4)]) (use assms(1) b in \<open>auto simp: wire_ok_def verdict_shape [OF ss]\<close>)
      then show thesis using that [OF 5(1-3) o 4(1,2) g] by blast
    qed (use b in simp_all)
  qed (use b in simp)
qed (use b in simp_all)

section \<open>The closed gate\<close>

lemma handle_closed:
  assumes g: "\<not> g_open (r_gate s)" and h: "handle_datagram w src d now s = (u, r)"
  shows "r = Ok Consumed \<or> (\<exists>reason. r = Ok (Dropped reason)) \<or>
    (\<exists>n c. wg_verify w (r_noise s) (fst src) d = (n, Inl (WriteToNetwork c)) \<and> r = Ok (Reply c) \<and> shape u = shape s \<and> r_peers u = r_peers s)"
proof (cases rule: handle_cases [OF h])
  case (2 n c)
  then show ?thesis by (auto simp: count_def shape_def confs_def)
next
  case (4 n init)
  show ?thesis by (cases rule: handshake_init_cases [OF 4(3)]) (use g in \<open>simp_all add: count_def\<close>)
next
  case (5 n packet idx kind)
  let ?s = "(count rc_datagram s)\<lparr>r_noise := n\<rparr>" and ?i = "drop_bit 8 idx :: u32"
  show ?thesis
  proof (cases rule: demux_cases [OF 5(4)])
    case (2 p n' t res)
    have "shape (opened kind src ?i n' t (summarize res) ?s) = shape s" by simp
    then have "\<not> g_open (r_gate (opened kind src ?i n' t (summarize res) ?s))" using g shapeD(9) by metis
    then show ?thesis by (cases rule: judged_cases [OF 2(2)]) simp_all
  qed simp
qed simp_all

lemma tick_peer_closed:
  assumes "\<not> g_open (r_gate s)"
  shows "snd (tick_peer w i (s, [])) = []"
proof (cases "endpoint s i")
  case None
  then show ?thesis by (cases "get_peer s i") (simp_all add: tick_peer_def endpoint_def)
next
  case (Some to)
  then obtain p where p: "get_peer s i = Some p" "pr_endpoint p = Some to" by (cases "get_peer s i") (simp_all add: endpoint_def)
  obtain n t r where "wg_update_timers w (r_noise s) (pr_tunn p) = (n, t, r)" by (metis prod_cases3)
  then show ?thesis using p assms
    by (cases r) (simp_all add: tick_peer_def upd_peer_def Let_def split: wireguard_error.split)
qed

lemma tick_closed:
  assumes "\<not> g_open (r_gate s)"
  shows "snd (tick w now wall s) = []"
proof -
  have f: "snd (fold (tick_peer w) is (s', [])) = []" if "\<not> g_open (r_gate s')" for "is" s'
    using that
  proof (induction "is" arbitrary: s')
    case (Cons i "is")
    obtain u where u: "tick_peer w i (s', []) = (u, [])" using tick_peer_closed [OF Cons.prems, of w i] by (metis prod.collapse)
    have "r_gate u = r_gate s'" by (rule shapeD(9)) (use tick_peer_shape [of w i "(s', [])"] u in simp)
    then show ?case using Cons.IH [of u] Cons.prems u by simp
  qed simp
  define a where "a = (if (case r_last_reset s of None \<Rightarrow> True | Some before \<Rightarrow> secs 1 \<le> now - before)
    then s\<lparr>r_noise := wg_reset_count w (r_noise s), r_last_reset := Some now\<rparr> else s)"
  have "shape (detect_clock_jump w wall a) = shape s" by (simp add: detect_clock_jump_shape a_def)
  then have "\<not> g_open (r_gate (detect_clock_jump w wall a))" using assms shapeD(9) by metis
  then show ?thesis unfolding tick_def Let_def a_def [symmetric] by (rule f)
qed

section \<open>Counters\<close>

definition balanced :: "('n, 't) responder \<Rightarrow> bool" where
  "balanced s \<longleftrightarrow> rs_dropped (r_counters s) = reason_sum (r_counters s)"

lemma balanced_keeps [simp]:
  "balanced (s\<lparr>r_noise := n\<rparr>) = balanced s" "balanced (s\<lparr>r_per_source := h\<rparr>) = balanced s" "balanced (s\<lparr>r_answers := b\<rparr>) = balanced s"
  "balanced (upd_peer i f s) = balanced s" "balanced (s\<lparr>r_noise := n, r_last_reset := x\<rparr>) = balanced s" "balanced (s\<lparr>r_last_wall := y\<rparr>) = balanced s"
  "balanced (s\<lparr>r_indexes := g\<rparr>) = balanced s" "balanced (rebuild_lookups s) = balanced s" "balanced (rebuild_routes s) = balanced s"
  "balanced (set_gate op gn s) = balanced s" "balanced (set_ipv6 v s) = balanced s"
  by (simp_all add: balanced_def upd_peer_def rebuild_lookups_def rebuild_routes_def set_gate_def set_ipv6_def)

lemma balanced_count [simp]:
  "balanced s \<Longrightarrow> balanced (count rc_datagram s)" "balanced s \<Longrightarrow> balanced (count rc_handshake s)" "balanced s \<Longrightarrow> balanced (count rc_uplink s)"
  "balanced s \<Longrightarrow> balanced (count (rc_reply c) s)" "balanced s \<Longrightarrow> balanced (count rc_loopback s)" "balanced s \<Longrightarrow> balanced (count rc_downlink_queued s)"
  "balanced s \<Longrightarrow> balanced (count rc_dropped_without_endpoint s)" "balanced s \<Longrightarrow> balanced (count rc_answer_suppressed s)"
  "balanced s \<Longrightarrow> balanced (count rc_clock_jump_reset s)" "balanced s \<Longrightarrow> balanced (count (rc_dropped d) s)"
  "balanced s \<Longrightarrow> balanced (count rc_handshake_refused_gate_closed s)"
proof -
  assume b: "balanced s"
  have "balanced (count (rc_apply ev) s)" for ev using rc_apply_accounted [of "r_counters s" ev] b by (simp add: balanced_def count_def)
  from this [of EvDatagram] this [of EvHandshake] this [of EvUplink] this [of "EvReply c"] this [of EvLoopback] this [of EvQueued]
    this [of EvNoEndpoint] this [of EvSuppressed] this [of EvClockJump] this [of "EvDropped d"] this [of EvRefusedGateClosed]
  show "balanced (count rc_datagram s)" "balanced (count rc_handshake s)" "balanced (count rc_uplink s)"
    "balanced (count (rc_reply c) s)" "balanced (count rc_loopback s)" "balanced (count rc_downlink_queued s)"
    "balanced (count rc_dropped_without_endpoint s)" "balanced (count rc_answer_suppressed s)"
    "balanced (count rc_clock_jump_reset s)" "balanced (count (rc_dropped d) s)" "balanced (count rc_handshake_refused_gate_closed s)" by simp_all
qed

lemma balanced_notes [simp]: "balanced s \<Longrightarrow> balanced (note_drop d s)" "balanced s \<Longrightarrow> balanced (note_for i d s)"
  by (simp_all add: note_drop_def note_for_def)

text \<open>What a datagram adds to each total, by what it led to.\<close>

definition totals :: "responder_counters \<Rightarrow> u64 \<times> u64 \<times> u64 \<times> u64" where
  "totals c = (rs_datagrams c, rs_uplink c, rs_loopback c, rs_replies c)"

abbreviation tally :: "('n, 't) responder \<Rightarrow> u64 \<times> u64 \<times> u64 \<times> u64" where
  "tally s \<equiv> totals (r_counters s)"

lemma by_reason_totals [simp]: "totals (by_reason d c) = totals c"
  by (cases d) (simp_all add: totals_def)

lemma tally_keeps [simp]:
  "tally (s\<lparr>r_noise := n\<rparr>) = tally s" "tally (upd_peer i f s) = tally s" "tally (count (rc_dropped d) s) = tally s"
  "tally (count rc_handshake s) = tally s" "tally (count rc_answer_suppressed s) = tally s" "tally (note_drop d s) = tally s" "tally (note_for i d s) = tally s"
  "tally (count rc_handshake_refused_gate_closed s) = tally s"
proof -
  have d: "totals (rc_dropped d c) = totals c" for d c by (simp add: rc_dropped_def) (simp add: totals_def)
  show "tally (upd_peer i f s) = tally s" by (simp add: upd_peer_def)
  show "tally (s\<lparr>r_noise := n\<rparr>) = tally s" "tally (count (rc_dropped d) s) = tally s"
    "tally (note_drop d s) = tally s" "tally (note_for i d s) = tally s"
    by (simp_all add: count_def d note_drop_def note_for_def upd_peer_def)
  show "tally (count rc_handshake s) = tally s" "tally (count rc_answer_suppressed s) = tally s" by (simp_all add: count_def rc_defs totals_def)
  show "tally (count rc_handshake_refused_gate_closed s) = tally s" by (simp add: count_def rc_handshake_refused_gate_closed_def d) (simp add: totals_def)
qed

definition booked :: "inbound \<Rightarrow> u64 \<times> u64 \<times> u64 \<times> u64 \<Rightarrow> u64 \<times> u64 \<times> u64 \<times> u64" where
  "booked inb t = (case t of (d, u, l, r) \<Rightarrow> (case inb of
      Uplink _ _ \<Rightarrow> (d, u + 1, l, r) | Loopback _ _ \<Rightarrow> (d, u, l + 1, r) | Reply _ \<Rightarrow> (d, u, l, r + 1) | _ \<Rightarrow> (d, u, l, r)))"

lemma tally_counts [simp]:
  "tally (count rc_uplink s) = booked (Uplink i p) (tally s)" "tally (count rc_loopback s) = booked (Loopback i p) (tally s)"
  "tally (count (rc_reply c) s) = booked (Reply p) (tally s)"
  by (simp_all add: count_def rc_defs totals_def booked_def Let_def)

lemma booked_other [simp]: "booked Consumed t = t" "booked (Dropped d) t = t"
  by (simp_all add: booked_def split: prod.split)

lemma decapsulate_counters: "r_counters (fst (decapsulate w i src d s)) = r_counters s"
  by (simp add: decapsulate_def upd_peer_def split: option.split prod.split)

lemma encapsulate_into_counters: "r_counters (fst (encapsulate_into w i p s)) = r_counters s"
  by (simp add: encapsulate_into_def upd_peer_def Let_def split: option.split prod.split tunn_result.split)

lemma deliver_counts:
  assumes "deliver w i p now s = (u, Ok inb)"
  shows "tally u = booked inb (tally s)" "balanced s \<Longrightarrow> balanced u"
proof -
  define s1 where "s1 a = (case counted a of None \<Rightarrow> s | Some class \<Rightarrow> count (rc_dropped class) s)" for a
  have s1: "tally (s1 a) = tally s" "balanced s \<Longrightarrow> balanced (s1 a)" for a
    by (simp_all add: s1_def split: option.split)
  have enc: "r_counters t = r_counters s'" if "encapsulate_into w i b s' = (t, out)" for b s' t out
    using encapsulate_into_counters [of w i b s'] that by simp
  have "tally u = booked inb (tally s) \<and> (balanced s \<longrightarrow> balanced u)"
  proof (cases "verdict w s p")
    case (AnswerWith a)
    obtain b adm where b: "tb_admit (r_answers (s1 a)) now = (b, adm)" by force
    let ?s2 = "s1 a\<lparr>r_answers := b\<rparr>"
    have s2: "tally ?s2 = tally s" "balanced s \<Longrightarrow> balanced ?s2" using s1 by simp_all
    have d: "(if \<not> adm then (count rc_answer_suppressed ?s2, Ok Consumed)
             else (case build_answer w (r_plan ?s2) p a of
                     Panic \<Rightarrow> (?s2, Panic)
                   | Err _ \<Rightarrow> (?s2, Ok Consumed)
                   | Ok built \<Rightarrow>
                       (case encapsulate_into w i built ?s2 of
                          (s, Some out) \<Rightarrow> (count (rc_reply False) s, Ok (Reply out))
                        | (s, None) \<Rightarrow> (s, Ok Consumed)))) = (u, Ok inb :: (unit, inbound) res)"
      using assms AnswerWith b unfolding deliver_def Let_def s1_def [symmetric] by (simp split del: if_split)
    then consider "u = count rc_answer_suppressed ?s2" "inb = Consumed" | "u = ?s2" "inb = Consumed"
      | t out where "r_counters t = r_counters ?s2" "u = count (rc_reply False) t" "inb = Reply out"
      | "r_counters u = r_counters ?s2" "inb = Consumed"
      by (auto split: if_splits res.splits prod.splits option.splits dest: enc)
    then show ?thesis
    proof cases
      case (3 t out)
      then have "tally t = tally s" "balanced s \<Longrightarrow> balanced t" using s2 by (simp_all add: balanced_def)
      then show ?thesis using 3 by (simp add: tally_counts(3) [where p = out])
    next
      case 4
      then have "tally u = tally s" "balanced s \<Longrightarrow> balanced u" using s2 by (simp_all add: balanced_def)
      then show ?thesis using 4 by simp
    qed (use s2 in simp_all)
  qed (use assms in \<open>auto simp: deliver_def\<close>)
  then show "tally u = booked inb (tally s)" "balanced s \<Longrightarrow> balanced u" by blast+
qed

lemma opened_counters [simp]: "r_counters (opened kind src i n t out s) = r_counters s"
  by (simp add: opened_def Let_def upd_peer_def)

lemma judged_counts:
  assumes "judged w i p out now s = (u, Ok inb)"
  shows "tally u = booked inb (tally s) \<and> (balanced s \<longrightarrow> balanced u)"
proof (cases rule: judged_cases [OF assms])
  case (4 q inner)
  show ?thesis using deliver_counts [OF 4(4)] by simp
qed simp_all

lemma handle_counts:
  assumes h: "handle_datagram w src d now s = (u, Ok inb)"
  shows "tally u = booked inb (tally (count rc_datagram s)) \<and> (balanced s \<longrightarrow> balanced u)"
proof (cases rule: handle_cases [OF h])
  case (2 n c)
  then show ?thesis by (simp add: tally_counts(3) [where p = c])
next
  case (4 n init)
  let ?s = "(count rc_datagram s)\<lparr>r_noise := n\<rparr>"
  have dc: "tally s' = tally (count rc_datagram s) \<and> (balanced s \<longrightarrow> balanced s')"
    if "decapsulate w pid src d (?s\<lparr>r_per_source := hb\<rparr>) = (s', out)" for pid hb s' out
  proof -
    have "r_counters s' = r_counters (count rc_datagram s)" using decapsulate_counters [of w pid src d "?s\<lparr>r_per_source := hb\<rparr>"] that by simp
    moreover have "balanced s \<Longrightarrow> balanced (count rc_datagram s)" by simp
    ultimately show ?thesis by (simp add: balanced_def)
  qed
  show ?thesis
  proof (cases rule: handshake_init_cases [OF 4(3)])
    case (3 hb pid s' out reason)
    then show ?thesis using dc [OF 3(2)] by simp
  next
    case (4 hb pid public s' bs kind)
    then show ?thesis using dc [OF 4(4)] by (cases "kind = 2") (simp_all add: tally_counts(3) [where p = bs])
  qed simp_all
next
  case (5 n packet idx kind)
  show ?thesis
  proof (cases rule: demux_cases [OF 5(4)])
    case (2 p n' t res)
    let ?o = "opened kind src (drop_bit 8 idx) n' t (summarize res) ((count rc_datagram s)\<lparr>r_noise := n\<rparr>)"
    have "balanced s \<Longrightarrow> balanced (count rc_datagram s)" by simp
    then have "balanced s \<Longrightarrow> balanced ?o" by (simp add: balanced_def)
    then show ?thesis using judged_counts [OF 2(2)] by simp
  qed simp
qed simp_all

lemma handle_balanced:
  assumes "wire_ok w" and "balanced s"
  shows "balanced (fst (handle_datagram w src d now s))"
proof (cases "handle_datagram w src d now s")
  case (Pair u r)
  then obtain inb where "r = Ok inb" using handle_total [OF assms(1) Pair] by blast
  then show ?thesis using handle_counts Pair assms(2) by fastforce
qed

lemma sending_balanced:
  assumes "balanced s"
  shows "balanced (fst (flush_queue w i s))" "balanced (fst (send_to_peer w i p s))" "balanced (fst (encapsulate_to w a p s))"
proof -
  show "balanced (fst (flush_queue w i s))"
    using assms by (simp add: flush_queue_def Let_def split: option.split prod.split tunn_result.split)
  have send: "balanced (fst (send_to_peer w i p s))" for i
    using assms by (simp add: send_to_peer_def Let_def split: option.split prod.split tunn_result.split)
  then show "balanced (fst (send_to_peer w i p s))" .
  show "balanced (fst (encapsulate_to w a p s))" using assms send by (simp add: encapsulate_to_def split: option.split)
qed

lemma rebuild_balanced [simp]: "balanced (rebuild w i s) = balanced s"
  by (simp add: rebuild_def build_tunn_def split: option.split prod.split)

lemma tick_balanced:
  assumes "balanced s"
  shows "balanced (fst (tick w now wall s))"
proof -
  have j: "balanced (fold (\<lambda>i s. count rc_clock_jump_reset (rebuild w i s)) is s')" if "balanced s'" for "is" s'
    using that by (induction "is" arbitrary: s') simp_all
  have p: "balanced (fst (tick_peer w i so))" if "balanced (fst so)" for i so
    using that by (cases so) (simp add: tick_peer_def Let_def split: option.split prod.split tunn_result.split wireguard_error.split)
  have f: "balanced (fst (fold (tick_peer w) is so))" if "balanced (fst so)" for "is" so
    using that p by (induction "is" arbitrary: so) simp_all
  have "balanced (detect_clock_jump w wall s')" if "balanced s'" for s'
    using that j by (simp add: detect_clock_jump_def Let_def)
  then show ?thesis unfolding tick_def Let_def using assms f by (simp split: option.split)
qed

lemma insert_peer_at_balanced [simp]: "balanced (insert_peer_at w c i s) = balanced s"
  by (simp add: insert_peer_at_def build_tunn_def Let_def balanced_def split: prod.split)

lemma apply_peers_balanced:
  "apply_peers w cs fresh (s, report) = Ok (t, rep) \<Longrightarrow> balanced s \<Longrightarrow> balanced t"
proof (induction cs arbitrary: fresh s report)
  case (Cons c cs)
  show ?case using Cons.prems Cons.IH
    by (auto simp: build_tunn_def split: option.splits if_splits list.splits prod.splits)
qed simp

lemma reload_balanced:
  assumes "reload w conf s = Ok (t, rep)" and "balanced s"
  shows "balanced t"
proof -
  have rm: "balanced (fst (fold remove_peer gone sr)) = balanced (fst sr)" for gone sr
    by (induction gone arbitrary: sr) (auto simp: remove_peer_def balanced_def split: prod.split)
  from assms(1) obtain g fr gone u where "apply_peers w (gc_peers conf) fr (fold remove_peer gone
      (s\<lparr>r_indexes := g\<rparr>, \<lparr>rr_added = [], rr_removed = [], rr_rebuilt = [], rr_unchanged = 0\<rparr>)) = Ok (u, rep)"
    "t = rebuild_routes (rebuild_lookups u)"
    by (auto simp: reload_def attempt_Ok Let_def split: prod.splits)
  then show ?thesis using apply_peers_balanced [OF _ _] rm assms(2) by (metis balanced_keeps(7-9) fst_conv prod.collapse)
qed

lemma insert_peers_balanced: "insert_peers w cs s = Ok t \<Longrightarrow> balanced s \<Longrightarrow> balanced t"
  by (induction cs arbitrary: s) (auto simp: insert_peer_def attempt_Ok split: prod.splits)

lemma resp_step_balanced:
  assumes "resp_step w s t" and "wire_ok w" and "balanced s"
  shows "balanced t"
  using assms(1)
proof (cases rule: resp_step.cases)
  case (step_datagram src d now)
  then show ?thesis using handle_balanced [OF assms(2,3)] by blast
next
  case (step_reload conf report)
  then show ?thesis using reload_balanced assms(3) by blast
next
  case (step_reset label)
  then show ?thesis using assms(3) by (simp add: reset_peer_def split: option.split)
qed (use assms(3) in \<open>simp_all add: sending_balanced tick_balanced\<close>)

lemma resp_run_balanced:
  assumes "resp_run w s" and "wire_ok w"
  shows "balanced s"
  using assms(1)
proof (induction rule: resp_run.induct)
  case (resp_start conf plan options seed msk s)
  then obtain s1 s2 where i: "insert_peers w (gc_peers conf) s1 = Ok s2" "s = rebuild_routes s2" "r_counters s1 = responder_snapshot_default"
    by (auto simp: with_indexes_def attempt_Ok)
  have "balanced s1" by (simp add: balanced_def i(3) responder_snapshot_default_def reason_sum_def)
  then show ?case using insert_peers_balanced [OF i(1)] i(2) by simp
next
  case (resp_next s t)
  then show ?case using resp_step_balanced assms(2) by blast
qed

text \<open>Conversely, such a packet is handed on.\<close>

lemma opens_unique: "opens w src d s i p r \<Longrightarrow> opens w src d s i p' r' \<Longrightarrow> p' = p \<and> r' = r"
  by (auto simp: opens_def)

lemma handle_uplink:
  assumes l: "length d \<le> 65535" and v: "wg_verify w (r_noise s) (fst src) d = (n, Inr packet)" and a: "addressed packet idx kind"
    and o: "opens w src d (s\<lparr>r_noise := n\<rparr>) (drop_bit 8 idx) p res" and r: "summarize res = TunnelOut q inner"
    and own: "owns (wr_codec w) p inner" and g: "g_open (r_gate s)" and f: "verdict w s q = Forward"
  shows "\<exists>t. handle_datagram w src d now s = (t, Ok (Uplink (drop_bit 8 idx) q))"
proof -
  let ?s = "(count rc_datagram s)\<lparr>r_noise := n\<rparr>" and ?i = "drop_bit 8 idx :: u32"
  have h: "handle_datagram w src d now s = demux w src d idx kind now ?s"
    using l v a by (auto simp: handle_datagram_def addressed_def count_def)
  obtain u x where d: "demux w src d idx kind now ?s = (u, x)" by force
  have o': "opens w src d ?s ?i p res" using o opens_state [of ?s "s\<lparr>r_noise := n\<rparr>" w src d] by (simp add: count_def)
  show ?thesis
  proof (cases rule: demux_cases [OF d])
    case 1
    then show ?thesis using o' by (simp add: opens_def)
  next
    case (2 p' n' t res')
    let ?o = "opened kind src ?i n' t (TunnelOut q inner) ?s"
    have eq: "p' = p" "res' = res" using opens_unique [OF o' 2(1)] by blast+
    have so: "shape ?o = shape s" by simp
    have "g_open (r_gate ?o)" using g shapeD(9) [OF so] by simp
    moreover have "verdict w (upd_peer ?i (\<lambda>p. p\<lparr>pr_stats := x p\<rparr>) ?o) q = Forward" for x
      using f verdict_shape [of "upd_peer ?i (\<lambda>p. p\<lparr>pr_stats := x p\<rparr>) ?o" s w q] by (simp add: shape_upd)
    ultimately have "x = Ok (Uplink ?i q)" using 2(2) own by (auto simp: eq r judged_def deliver_def)
    then show ?thesis using h d by simp
  qed
qed

lemma handle_roams:
  assumes l: "length d \<le> 65535" and v: "wg_verify w (r_noise s) (fst src) d = (n, Inr packet)" and a: "addressed packet idx kind"
    and o: "opens w src d (s\<lparr>r_noise := n\<rparr>) (drop_bit 8 idx) p res" and r: "roams kind (summarize res)"
  shows "endpoint (fst (handle_datagram w src d now s)) (drop_bit 8 idx) = Some src"
proof -
  let ?s = "(count rc_datagram s)\<lparr>r_noise := n\<rparr>" and ?i = "drop_bit 8 idx :: u32"
  have h: "handle_datagram w src d now s = demux w src d idx kind now ?s"
    using l v a by (auto simp: handle_datagram_def addressed_def count_def)
  obtain u x where d: "demux w src d idx kind now ?s = (u, x)" by force
  have o': "opens w src d ?s ?i p res" using o opens_state [of ?s "s\<lparr>r_noise := n\<rparr>" w src d] by (simp add: count_def)
  have g: "get_peer ?s ?i \<noteq> None" using o' by (simp add: opens_def)
  show ?thesis
  proof (cases rule: demux_cases [OF d])
    case 1
    then show ?thesis using o' by (simp add: opens_def)
  next
    case (2 p' n' t res')
    have "res' = res" using opens_unique [OF o' 2(1)] by blast
    then have "endpoint u ?i = Some src" using judged_endpoint [OF 2(2)] r g by (simp add: opened_endpoint)
    then show ?thesis using h d by simp
  qed
qed

end
