(* ===== verification/Responder_Properties.thy ===== *)
theory Responder_Properties
  imports Responder_Traffic Conf_Properties Lfsr_Period
begin

text \<open>
  The properties of the responder, with closed instances on a protocol that opens every datagram
  for the first peer.
\<close>

section \<open>A wire and a responder\<close>

definition sample_wire :: "(unit, unit) wire" where
  "sample_wire = \<lparr>wg_limiter = (\<lambda>_ _. ()), wg_reset_count = id, wg_verify = (\<lambda>n _ _. (n, Inr (PacketData 1024))),
     wg_anon = (\<lambda>_ _ _. None), wg_new = (\<lambda>n _ _ _ _. (n, ())), wg_decapsulate = (\<lambda>n t _ d. (n, t, WriteToTunnelV4 d 0x0a430002)),
     wg_encapsulate = (\<lambda>n t _. (n, t, TunnDone)), wg_update_timers = (\<lambda>n t. (n, t, TunnDone)), wg_stats = (\<lambda>_. (None, 0, 0)),
     wg_dst_address = (\<lambda>p. if p = [] then None else Some (V4 0x08080808)),
     rt_longest_match = (\<lambda>entries a. map_option snd (find (\<lambda>(n, _). in_net a n) entries)),
     wr_codec = spell_codec, wr_engine = sum_engine\<rparr>"

lemma sample_wire_ok: "wire_ok sample_wire" "nets_ok (wr_codec sample_wire)"
  using sum_engine_sums spell_codec_ok(2) by (simp_all add: wire_ok_def sample_wire_def)

definition lone_conf :: gateway_conf where
  "lone_conf = \<lparr>gc_key = \<lparr>gk_secret = replicate 32 1, gk_public = replicate 32 1\<rparr>,
     gc_peers = [\<lparr>pc_label = [97], pc_public = replicate 32 2, pc_psk = Some (replicate 32 3), pc_allowed = [NetV4 0x0a430002 32]\<rparr>]\<rparr>"

definition lone_peer :: "unit peer" where
  "lone_peer = \<lparr>pr_label = [97], pr_public = replicate 32 2, pr_psk = Some (replicate 32 3), pr_allowed = [NetV4 0x0a430002 32],
     pr_tunn = (), pr_endpoint = None, pr_stats = peer_stats_default, pr_last_drop = None\<rparr>"

definition sample_start :: "(unit, unit) responder" where
  "sample_start = \<lparr>r_key = gc_key lone_conf, r_noise = (), r_peers = [(4, lone_peer)],
     r_by_pubkey = [replicate 32 2 \<mapsto> 4], r_by_label = [[97] \<mapsto> 4], r_routes = [(NetV4 0x0a430002 32, 4)],
     r_per_source = hb_with_limits HANDSHAKE_RATE_PER_IP HANDSHAKE_BURST_PER_IP HANDSHAKE_SOURCES_TRACKED,
     r_answers = tb_new ANSWER_RATE_PER_SECOND ANSWER_BURST, r_indexes = \<lparr>ig_initial = 5, ig_lfsr = lfsr_step 5, ig_mask = 0, ig_exhausted = False\<rparr>,
     r_plan = plan_default, r_isolation = True, r_gate = \<lparr>g_open = False, g_generation = 0\<rparr>, r_v6 = V6Available,
     r_counters = responder_snapshot_default, r_last_reset = None, r_last_wall = None\<rparr>"

lemmas net_evals = mask32_def mask128_def overlaps_v4_def overlaps_v6_def in_v4_def in_v6_def TUNNEL_POOL_V4_def
  TUNNEL_POOL_V6_def overlaps_def mask_eq_exp_minus_1

lemma first_draw: "next_index (from_seed 5 0) = Some (\<lparr>ig_initial = 5, ig_lfsr = lfsr_step 5, ig_mask = 0, ig_exhausted = False\<rparr>, Some 4)"
  by (subst next_index.simps) (simp add: from_seed_def index_turn_def MAX_INDEX_def Let_def lfsr_step_def LFSR_POLY_def)

lemma sample_starts: "with_indexes sample_wire lone_conf plan_default responder_options_default (from_seed 5 0) = Ok sample_start"
proof -
  have v: "validate (wr_codec sample_wire) lone_conf = Ok ()"
    by (simp add: lone_conf_def validate_def check_peers_def sample_wire_def net_evals)
  have a: "check_against (wr_codec sample_wire) lone_conf plan_default = Ok ()"
    by (simp add: check_against_def lone_conf_def sample_wire_def spell_codec_def plan_default_def gateway_v4_def gateway_v6_def
        DEFAULT_PEER_SUBNET_V4_def DEFAULT_PEER_SUBNET_V6_def net_evals)
  show ?thesis unfolding with_indexes_def v a
    by (simp add: lone_conf_def insert_peer_def draw_index_def first_draw insert_peer_at_def build_tunn_def rebuild_routes_def
        network_entries_def sample_start_def lone_peer_def responder_options_default_def) (simp add: sample_wire_def)
qed

lemma sample_responder_run: "resp_run sample_wire sample_start"
  using sample_starts by (rule resp_start)

section \<open>Properties\<close>

text \<open>
  C8.  In every state a responder reaches, through any mix of datagrams, sends, timers, gate
  changes, resets and reloads, its tables agree: the key and label indexes name exactly the live
  peers, the route table is the list of their networks, no address has two owners, and no peer
  owns an address of the tunnel pool or of the gateway.
\<close>

theorem responder_consistent:
  assumes "resp_run w s" and "nets_ok (wr_codec w)"
  shows "(\<forall>key i. r_by_pubkey s key = Some i \<longleftrightarrow> (\<exists>p. get_peer s i = Some p \<and> pr_public p = key)) \<and>
    (\<forall>label i. r_by_label s label = Some i \<longleftrightarrow> (\<exists>p. get_peer s i = Some p \<and> pr_label p = label)) \<and>
    r_routes s = network_entries (r_peers s) \<and>
    (\<forall>i j p q a. get_peer s i = Some p \<and> get_peer s j = Some q \<and> owns (wr_codec w) p a \<and> owns (wr_codec w) q a \<longrightarrow> i = j) \<and>
    (\<forall>i p a. get_peer s i = Some p \<and> owns (wr_codec w) p a \<longrightarrow> \<not> is_tunnel_pool a \<and> \<not> plan_is_gateway (r_plan s) a)"
proof -
  note R = resp_invD [OF resp_run_inv [OF assms]]
  have own: "owns (wr_codec w) p a \<longleftrightarrow> claims (conf_of p) a" for p :: "'b peer" and a
    using assms(2) by (auto simp: owns_def claims_def nets_ok_def list_ex_iff)
  have k: "r_by_pubkey s key = Some i \<longleftrightarrow> (\<exists>p. get_peer s i = Some p \<and> pr_public p = key)" for key i
    using R(3) by (auto simp: names_def conf_at_def)
  have l: "r_by_label s label = Some i \<longleftrightarrow> (\<exists>p. get_peer s i = Some p \<and> pr_label p = label)" for label i
    using R(4) by (auto simp: names_def conf_at_def)
  have "i = j" if "get_peer s i = Some p" "get_peer s j = Some q" "owns (wr_codec w) p a" "owns (wr_codec w) q a" for i j p q a
    using R(2) that(3,4) conf_at_SomeI [OF that(1)] conf_at_SomeI [OF that(2)] unfolding unambiguous_def own by blast
  moreover have "\<not> is_tunnel_pool a \<and> \<not> plan_is_gateway (r_plan s) a" if "get_peer s i = Some p" "owns (wr_codec w) p a" for i p a
    using R(7) [OF conf_at_SomeI [OF that(1)]] that(2) by (simp add: own)
  moreover have "r_routes s = network_entries (r_peers s)" using R(5) by (simp add: network_entries_confs)
  ultimately show ?thesis using k l by blast
qed

theorem responder_consistent_witness:
  "r_by_label sample_start [97] = Some 4 \<and> (\<exists>p. get_peer sample_start 4 = Some p \<and> pr_label p = [97])"
proof -
  have "r_by_label sample_start [97] = Some 4" by (simp add: sample_start_def)
  then show ?thesis using responder_consistent [OF sample_responder_run sample_wire_ok(2)] by blast
qed

text \<open>
  C3.  The responder hands a packet towards the tunnel exactly when the datagram addresses a
  session of a live peer and that session opens it, its inner source is one of that peer's
  addresses, the gate is open, and its destination is one that may be forwarded: unicast, not the
  gateway, not a peer's, not of the peer subnets, of the pool only as a question to its resolver,
  otherwise public, and IPv6 only while the exit carries it.
\<close>

theorem uplink_authentic:
  assumes "wire_ok w"
  shows "(\<exists>t. handle_datagram w src d now s = (t, Ok (Uplink i q))) \<longleftrightarrow> length d \<le> 65535 \<and> g_open (r_gate s) \<and>
    (\<exists>n packet idx kind p res inner dst. wg_verify w (r_noise s) (fst src) d = (n, Inr packet) \<and>
      addressed packet idx kind \<and> drop_bit 8 idx = i \<and> opens w src d (s\<lparr>r_noise := n\<rparr>) i p res \<and>
      summarize res = TunnelOut q inner \<and> owns (wr_codec w) p inner \<and> wg_dst_address w q = Some dst \<and> may_forward w s q dst)"
    (is "?l \<longleftrightarrow> ?r")
proof
  assume ?l
  then obtain t where h: "handle_datagram w src d now s = (t, Ok (Uplink i q))" by blast
  obtain n packet idx kind p res q' inner where *: "length d \<le> 65535" "wg_verify w (r_noise s) (fst src) d = (n, Inr packet)"
    "addressed packet idx kind" "opens w src d (s\<lparr>r_noise := n\<rparr>) (drop_bit 8 idx) p res" "summarize res = TunnelOut q' inner"
    "owns (wr_codec w) p inner" "g_open (r_gate s)" "Uplink i q = Uplink (drop_bit 8 idx) q'" "verdict w s q' = Forward"
    using handle_delivered [OF assms h] by (metis inbound.distinct(1,3,5,7) inbound.simps(7))
  obtain dst where "wg_dst_address w q = Some dst" "may_forward w s q dst" using *(8,9) by (auto simp: verdict_Forward)
  then show ?r using * by blast
next
  assume ?r
  then show ?l using handle_uplink [of d w s src _ _ _ _ _ _ q] verdict_Forward [of w s q] by blast
qed

lemma sample_forwards: "verdict sample_wire (set_gate True 1 sample_start) [0x45] = Forward"
  by (simp add: verdict_Forward may_forward_def sample_wire_def plan_is_gateway_def set_gate_def sample_start_def
      plan_default_def gateway_v4_def gateway_v6_def DEFAULT_PEER_SUBNET_V4_def DEFAULT_PEER_SUBNET_V6_def spell_codec_def
      is_cgnat_def v4_is_private_def v4_is_link_local_def v4_is_multicast_def v4_is_broadcast_def v4_is_loopback_def net_evals)

lemma sample_opens:
  "opens sample_wire src d ((set_gate True 1 sample_start)\<lparr>r_noise := ()\<rparr>) 4 lone_peer (WriteToTunnelV4 d 0x0a430002)"
  "owns (wr_codec sample_wire) lone_peer (V4 0x0a430002)"
  by (simp_all add: opens_def sample_wire_def owns_def lone_peer_def spell_codec_def set_gate_def sample_start_def net_evals)

lemma sample_evidence:
  "\<exists>n packet idx kind p res inner dst. wg_verify sample_wire (r_noise (set_gate True 1 sample_start)) a d = (n, Inr packet) \<and>
      addressed packet idx kind \<and> drop_bit 8 idx = (4 :: u32) \<and> opens sample_wire src d ((set_gate True 1 sample_start)\<lparr>r_noise := n\<rparr>) 4 p res \<and>
      summarize res = TunnelOut d inner \<and> owns (wr_codec sample_wire) p inner"
proof -
  have "wg_verify sample_wire (r_noise (set_gate True 1 sample_start)) a d = ((), Inr (PacketData 1024))" by (simp add: sample_wire_def)
  moreover have "addressed (PacketData 1024) 1024 4" "drop_bit 8 1024 = (4 :: u32)" by (simp_all add: addressed_def)
  ultimately show ?thesis using sample_opens by fastforce
qed

theorem uplink_authentic_witness:
  "\<exists>t. handle_datagram sample_wire (V4 0x01020304, 9) [0x45] 0 (set_gate True 1 sample_start) = (t, Ok (Uplink 4 [0x45]))"
proof -
  have "g_open (r_gate (set_gate True 1 sample_start))" by (simp add: set_gate_def)
  then show ?thesis using sample_evidence [of "V4 0x01020304" "[0x45]" "(V4 0x01020304, 9)"] sample_forwards
    unfolding uplink_authentic [OF sample_wire_ok(1)] verdict_Forward by fastforce
qed

text \<open>
  C4.  While the gate is closed the gateway is silent: a datagram leads to nothing, or to the
  stateless cookie that the rate limiter computed before any session was looked up; nothing queued
  is flushed, no packet is encapsulated for a peer, and no timer emits anything.
\<close>

theorem gate_silent:
  assumes "\<not> g_open (r_gate s)"
  shows "(\<exists>r. snd (handle_datagram w src d now s) = r \<and> (r = Ok Consumed \<or> (\<exists>reason. r = Ok (Dropped reason)) \<or>
      (\<exists>n c. wg_verify w (r_noise s) (fst src) d = (n, Inl (WriteToNetwork c)) \<and> r = Ok (Reply c)))) \<and>
    flush_queue w i s = (s, None) \<and> send_to_peer w i packet s = (s, Err RouteGateClosed) \<and>
    (\<exists>e. snd (encapsulate_to w dst packet s) = Err e) \<and> snd (tick w now wall s) = []"
proof -
  obtain u r where "handle_datagram w src d now s = (u, r)" by force
  note h = this handle_closed [OF assms this]
  have "send_to_peer w j packet s = (s, Err RouteGateClosed)" for j using assms by (simp add: send_to_peer_def)
  moreover from this have "\<exists>e. snd (encapsulate_to w dst packet s) = Err e" by (simp add: encapsulate_to_def split: option.split)
  ultimately show ?thesis using h assms tick_closed [OF assms, of w now wall] by (auto simp: flush_queue_def)
qed

theorem gate_silent_witness:
  "\<not> g_open (r_gate sample_start) \<and> snd (tick sample_wire 0 0 sample_start) = [] \<and>
   send_to_peer sample_wire 4 [0x45] sample_start = (sample_start, Err RouteGateClosed)"
proof -
  have g: "\<not> g_open (r_gate sample_start)" by (simp add: sample_start_def)
  then show ?thesis using gate_silent [OF g] by blast
qed

text \<open>
  C9.  A peer's endpoint moves only to the source of a datagram that proved it came from that peer:
  a handshake that names the peer's key and that its tunnel answers with a response while the gate
  is open, a handshake response its tunnel accepts, or a transport packet its tunnel opens.  A
  replayed, forged or merely cookie-provoking datagram moves nothing.
\<close>

theorem endpoint_moves:
  assumes "handle_datagram w src d now s = (t, r)" and "endpoint t i \<noteq> endpoint s i"
  shows "endpoint t i = Some src \<and> (\<exists>n packet p res. wg_verify w (r_noise s) (fst src) d = (n, Inr packet) \<and>
    opens w src d (s\<lparr>r_noise := n\<rparr>) i p res \<and> proves w s packet i res)"
  by (rule endpoint_step [OF assms]) blast

theorem endpoint_moves_witness:
  "\<exists>t r. handle_datagram sample_wire (V4 0x01020304, 9) [0x45] 0 (set_gate True 1 sample_start) = (t, r) \<and>
     endpoint (set_gate True 1 sample_start) 4 = None \<and> endpoint t 4 = Some (V4 0x01020304, 9)"
proof -
  let ?s = "set_gate True 1 sample_start" and ?src = "(V4 0x01020304, 9) :: ip_addr \<times> u16"
  obtain t r where h: "handle_datagram sample_wire ?src [0x45] 0 ?s = (t, r)" by force
  have v: "wg_verify sample_wire (r_noise ?s) (fst ?src) [0x45] = ((), Inr (PacketData 1024))" by (simp add: sample_wire_def)
  have i: "drop_bit 8 1024 = (4 :: u32)" "addressed (PacketData 1024) 1024 4" by (simp_all add: addressed_def)
  have "endpoint t 4 = Some ?src"
    using handle_roams [OF _ v i(2), of lone_peer "WriteToTunnelV4 [0x45] 0x0a430002" 0] sample_opens(1) h by (simp add: i roams_def)
  moreover have "endpoint ?s 4 = None" by (simp add: endpoint_def set_gate_def sample_start_def lone_peer_def)
  ultimately have "endpoint t 4 \<noteq> endpoint ?s 4" by simp
  then show ?thesis using endpoint_moves [OF h] h by (auto simp: endpoint_def set_gate_def sample_start_def lone_peer_def)
qed

text \<open>
  C10.  A reload ends, never panics, and makes the peers exactly those of the new configuration:
  a peer whose label, key, preshared key and networks are unchanged keeps its session, its endpoint
  and its counters, a key that is gone is no longer known, and gate, plan and key stay.
\<close>

theorem reload_exact:
  assumes "resp_run w s" and "nets_ok (wr_codec w)"
  shows "reload w conf s \<noteq> Panic \<and> (\<forall>t report. reload w conf s = Ok (t, report) \<longrightarrow>
    (\<forall>p. (\<exists>i live. get_peer t i = Some live \<and> conf_of live = p) \<longleftrightarrow> p \<in> set (gc_peers conf)) \<and>
    (\<forall>i live. get_peer s i = Some live \<and> conf_of live \<in> set (gc_peers conf) \<longrightarrow> get_peer t i = Some live) \<and>
    (\<forall>key. key \<notin> pc_public ` set (gc_peers conf) \<longrightarrow> r_by_pubkey t key = None) \<and>
    r_gate t = r_gate s \<and> r_v6 t = r_v6 s \<and> r_plan t = r_plan s \<and> r_key t = r_key s)"
proof -
  note inv = resp_run_inv [OF assms]
  have "(\<forall>p. (\<exists>i live. get_peer t i = Some live \<and> conf_of live = p) \<longleftrightarrow> p \<in> set (gc_peers conf)) \<and>
    (\<forall>i live. get_peer s i = Some live \<and> conf_of live \<in> set (gc_peers conf) \<longrightarrow> get_peer t i = Some live) \<and>
    (\<forall>key. key \<notin> pc_public ` set (gc_peers conf) \<longrightarrow> r_by_pubkey t key = None) \<and>
    r_gate t = r_gate s \<and> r_v6 t = r_v6 s \<and> r_plan t = r_plan s \<and> r_key t = r_key s"
    if r: "reload w conf s = Ok (t, report)" for t report
  proof -
    note R = reload_ok(2) [OF inv assms(2) r]
    have ex: "(\<exists>i live. get_peer t i = Some live \<and> conf_of live = p) \<longleftrightarrow> p \<in> set (gc_peers conf)" for p
    proof -
      have "(\<exists>i live. get_peer t i = Some live \<and> conf_of live = p) \<longleftrightarrow> (\<exists>i. conf_at t i = Some p)" by (auto simp: conf_at_def)
      then show ?thesis using R by blast
    qed
    have nm: "names (r_by_pubkey t) pc_public (conf_at t)" using R resp_invD(3) by blast
    have gone: "r_by_pubkey t key = None" if k: "key \<notin> pc_public ` set (gc_peers conf)" for key
      unfolding names_None [OF nm] using R k by blast
    show ?thesis using R ex gone by blast
  qed
  then show ?thesis using reload_ok(1) [OF inv assms(2)] by blast
qed

lemma sample_reload: "\<exists>t report. reload sample_wire lone_conf sample_start = Ok (t, report)"
proof -
  have v: "validate (wr_codec sample_wire) lone_conf = Ok ()"
    by (simp add: lone_conf_def validate_def check_peers_def sample_wire_def net_evals)
  have a: "check_against (wr_codec sample_wire) lone_conf (r_plan sample_start) = Ok ()"
    by (simp add: check_against_def lone_conf_def sample_wire_def spell_codec_def sample_start_def plan_default_def gateway_v4_def gateway_v6_def
        DEFAULT_PEER_SUBNET_V4_def DEFAULT_PEER_SUBNET_V6_def net_evals)
  show ?thesis unfolding reload_def v a
    by (simp add: sample_start_def lone_conf_def lone_peer_def same_material_def)
qed

theorem reload_exact_witness:
  "\<exists>t report. reload sample_wire lone_conf sample_start = Ok (t, report) \<and> get_peer t 4 = Some lone_peer"
proof -
  obtain t report where r: "reload sample_wire lone_conf sample_start = Ok (t, report)" using sample_reload by blast
  have "get_peer sample_start 4 = Some lone_peer" "conf_of lone_peer \<in> set (gc_peers lone_conf)"
    by (simp_all add: sample_start_def conf_of_def lone_peer_def lone_conf_def)
  then show ?thesis using reload_exact [OF sample_responder_run sample_wire_ok(2), of lone_conf] r by blast
qed

text \<open>The counter of each class of refusal, and what one refusal (or none) adds to them.\<close>

fun reason_count :: "drop_reason \<Rightarrow> responder_counters \<Rightarrow> u64" where
  "reason_count Oversize c = rs_oversize c"
| "reason_count MalformedDatagram c = rs_malformed c"
| "reason_count GateClosed c = rs_dropped_gate_closed c"
| "reason_count SourceRateLimited c = rs_source_rate_limited c"
| "reason_count UnknownPeer c = rs_unknown_peer c"
| "reason_count UnknownIndex c = rs_unknown_index c"
| "reason_count Auth c = rs_auth_failed c"
| "reason_count Replay c = rs_replayed c"
| "reason_count SpoofedSource c = rs_spoofed_source c"
| "reason_count LinkLocalSource c = rs_link_local_source c"
| "reason_count NonUnicast c = rs_non_unicast c"
| "reason_count SelfDestination c = rs_self_destination c"
| "reason_count PeerIsolation c = rs_peer_isolation c"
| "reason_count UnownedPeerAddress c = rs_unowned_peer_address c"
| "reason_count PoolDestination c = rs_pool_destination c"
| "reason_count PrivateDestination c = rs_private_destination c"
| "reason_count V6Unavailable c = rs_v6_unavailable c"
| "reason_count V6Budget c = rs_v6_budget c"
| "reason_count NoRoute c = rs_no_route c"

definition refused :: "drop_reason option \<Rightarrow> responder_counters \<Rightarrow> responder_counters \<Rightarrow> bool" where
  "refused x c c' \<longleftrightarrow> rs_dropped c' = rs_dropped c + (if x = None then 0 else 1) \<and>
     (\<forall>r. reason_count r c' = reason_count r c + (if x = Some r then 1 else 0))"

lemma reason_count_by_reason: "reason_count r (by_reason d c) = reason_count r c + (if d = r then 1 else 0)"
  by (cases d; cases r) simp_all

lemma refused_quiet:
  "refused None c c" "refused None c (rc_datagram c)" "refused None c (rc_handshake c)" "refused None c (rc_uplink c)"
  "refused None c (rc_reply k c)" "refused None c (rc_loopback c)" "refused None c (rc_answer_suppressed c)"
proof -
  have q: "refused None c c'" if "rs_dropped c' = rs_dropped c" "\<And>r. reason_count r c' = reason_count r c" for c'
    using that by (simp add: refused_def)
  show "refused None c c" "refused None c (rc_datagram c)" "refused None c (rc_handshake c)" "refused None c (rc_uplink c)"
    "refused None c (rc_reply k c)" "refused None c (rc_loopback c)" "refused None c (rc_answer_suppressed c)"
    by (rule q, simp add: rc_defs Let_def, rename_tac r, case_tac r; simp add: rc_defs Let_def)+
qed

lemma refused_dropped: "refused (Some d) c (rc_dropped d c)" "refused (Some GateClosed) c (rc_handshake_refused_gate_closed c)"
proof -
  have d: "reason_count r (c\<lparr>rs_dropped := n\<rparr>) = reason_count r c"
    "reason_count r (c\<lparr>rs_handshake_refused_gate_closed := n\<rparr>) = reason_count r c" for r c n by (cases r; simp)+
  then show "refused (Some d) c (rc_dropped d c)" by (simp add: refused_def rc_dropped_def reason_count_by_reason)
  show "refused (Some GateClosed) c (rc_handshake_refused_gate_closed c)"
    unfolding refused_def rc_handshake_refused_gate_closed_def rc_dropped_def reason_count_by_reason d by simp
qed

lemma refused_trans: "refused None a b \<Longrightarrow> refused x b c \<Longrightarrow> refused x a c" "refused x a b \<Longrightarrow> refused None b c \<Longrightarrow> refused x a c"
  by (simp_all add: refused_def)

text \<open>
  A dropped datagram is one refusal, of the class it was dropped under; a forwarded or looped back one
  is none.  An answered or swallowed one is none, or one where the answer says a destination is refused.
\<close>

definition accounts :: "inbound \<Rightarrow> responder_counters \<Rightarrow> responder_counters \<Rightarrow> bool" where
  "accounts inb c c' \<longleftrightarrow> (case inb of
     Dropped reason \<Rightarrow> refused (Some reason) c c'
   | Uplink _ _ \<Rightarrow> refused None c c'
   | Loopback _ _ \<Rightarrow> refused None c c'
   | _ \<Rightarrow> (\<exists>x \<in> {None, Some PrivateDestination, Some V6Unavailable, Some V6Budget}. refused x c c'))"

lemma accounts_note: "accounts (Dropped d) (r_counters s) (r_counters (note_drop d s))"
    "accounts (Dropped d) (r_counters s) (r_counters (note_for i d s))"
  by (simp_all add: accounts_def note_for_def note_drop_def count_def refused_dropped upd_peer_def)

lemma accounts_quiet: "refused None c c' \<Longrightarrow> \<forall>d. inb \<noteq> Dropped d \<Longrightarrow> accounts inb c c'"
  by (cases inb) (auto simp: accounts_def)

lemma accounts_after: "refused None a b \<Longrightarrow> accounts inb b c \<Longrightarrow> accounts inb a c"
  using refused_trans(1) [of a b _ c] by (auto simp: accounts_def split: inbound.splits)

lemma counted_classes:
  "verdict w s p = AnswerWith a \<Longrightarrow> counted a \<in> {None, Some PrivateDestination, Some V6Unavailable, Some V6Budget}"
  by (auto simp: verdict_def split: option.splits if_splits v6_state.splits)

lemma deliver_accounts:
  assumes d: "deliver w i p now s = (u, Ok inb)"
  shows "accounts inb (r_counters s) (r_counters u)"
proof (cases "verdict w s p")
  case (AnswerWith a)
  define s1 where "s1 a = (case counted a of None \<Rightarrow> s | Some class \<Rightarrow> count (rc_dropped class) s)" for a
  have s1: "refused (counted a) (r_counters s) (r_counters (s1 a))"
    by (simp add: s1_def refused_quiet refused_dropped count_def split: option.split)
  obtain b adm where b: "tb_admit (r_answers (s1 a)) now = (b, adm)" by force
  let ?s2 = "s1 a\<lparr>r_answers := b\<rparr>"
  have enc: "r_counters t = r_counters ?s2" if "encapsulate_into w i q ?s2 = (t, out)" for q t out
    using encapsulate_into_counters [of w i q ?s2] that by simp
  have "(if \<not> adm then (count rc_answer_suppressed ?s2, Ok Consumed)
         else (case build_answer w (r_plan ?s2) p a of
                 Panic \<Rightarrow> (?s2, Panic)
               | Err _ \<Rightarrow> (?s2, Ok Consumed)
               | Ok built \<Rightarrow>
                   (case encapsulate_into w i built ?s2 of
                      (s, Some out) \<Rightarrow> (count (rc_reply False) s, Ok (Reply out))
                    | (s, None) \<Rightarrow> (s, Ok Consumed)))) = (u, Ok inb :: (unit, inbound) res)"
    using d AnswerWith b unfolding deliver_def Let_def s1_def [symmetric] by (simp split del: if_split)
  then have "refused None (r_counters (s1 a)) (r_counters u)" "inb = Consumed \<or> (\<exists>out. inb = Reply out)"
    using enc by (auto simp: refused_quiet count_def split: if_splits res.splits prod.splits option.splits)
  then show ?thesis
    using refused_trans(2) [OF s1] counted_classes [OF AnswerWith] by (auto simp: accounts_def)
qed (use d in \<open>auto simp: deliver_def accounts_note accounts_quiet refused_quiet count_def\<close>)

lemma judged_accounts:
  assumes "judged w i p out now s = (u, Ok inb)"
  shows "accounts inb (r_counters s) (r_counters u)"
proof (cases rule: judged_cases [OF assms])
  case (4 q inner)
  show ?thesis using deliver_accounts [OF 4(4)] by (simp add: upd_peer_def)
qed (auto simp: accounts_note accounts_quiet refused_quiet count_def)

lemma handshake_accounts:
  assumes "handshake_init w src d init now s = (u, Ok inb)"
  shows "accounts inb (r_counters s) (r_counters u)"
proof (cases rule: handshake_init_cases [OF assms])
  case 1
  then show ?thesis by (simp add: accounts_def count_def refused_dropped)
next
  case (2 h reason)
  then show ?thesis using accounts_note(1) [of reason "s\<lparr>r_per_source := h\<rparr>"] by simp
next
  case (3 h pid s' out reason)
  have "r_counters s' = r_counters s" using decapsulate_counters [of w pid src d "s\<lparr>r_per_source := h\<rparr>"] 3(2) by simp
  then show ?thesis using accounts_note(2) [of reason s' pid] 3 by simp
next
  case (4 h pid public s' bs kind)
  have c: "r_counters s' = r_counters s" using decapsulate_counters [of w pid src d "s\<lparr>r_per_source := h\<rparr>"] 4(4) by simp
  have "refused None (r_counters s) (r_counters u)"
    using 4(5) c refused_trans(1) [OF refused_quiet(3) [of "r_counters s"] refused_quiet(5)]
    by (cases "kind = 2") (simp_all add: count_def upd_peer_def refused_quiet)
  then show ?thesis using 4(6) by (simp add: accounts_quiet)
qed

lemma handle_accounts:
  assumes h: "handle_datagram w src d now s = (u, Ok inb)"
  shows "accounts inb (r_counters s) (r_counters u)"
proof -
  have "accounts inb (r_counters (count rc_datagram s)) (r_counters u)"
  proof (cases rule: handle_cases [OF h])
    case (4 n init)
    then show ?thesis using handshake_accounts [OF 4(3)] by simp
  next
    case (5 n packet idx kind)
    show ?thesis
    proof (cases rule: demux_cases [OF 5(4)])
      case 1
      then show ?thesis using accounts_note(1) [of UnknownIndex "(count rc_datagram s)\<lparr>r_noise := n\<rparr>"] by simp
    next
      case (2 p n' t res)
      then show ?thesis using judged_accounts [OF 2(2)] by simp
    qed
  next
    case (3 n)
    then show ?thesis using accounts_note(1) [of MalformedDatagram "(count rc_datagram s)\<lparr>r_noise := n\<rparr>"] by simp
  next
    case (2 n c)
    then show ?thesis by (auto intro!: accounts_quiet simp: count_def refused_quiet)
  qed (simp add: accounts_note)
  then show ?thesis by (rule_tac accounts_after [OF refused_quiet(2)]) (simp add: count_def)
qed

text \<open>
  C11.  Every datagram has an outcome, whatever its bytes, and is accounted once under it.  It adds
  one to the datagrams, and one to the forwarded, looped back or answered packets when that is what it
  led to.  When it is dropped, it adds one to the refusals and one to the class it was dropped under,
  and nothing to any other class; when it is forwarded or looped back it adds no refusal; when it is
  answered or swallowed it adds none, or one for a destination that is private or has no IPv6 route.
  The refusals always total the sum of their classes.
\<close>

theorem datagram_accounted:
  assumes "resp_run w s" and "wire_ok w"
  shows "\<exists>t inb. handle_datagram w src d now s = (t, Ok inb) \<and>
    rs_datagrams (r_counters t) = rs_datagrams (r_counters s) + 1 \<and>
    rs_uplink (r_counters t) = rs_uplink (r_counters s) + (case inb of Uplink _ _ \<Rightarrow> 1 | _ \<Rightarrow> 0) \<and>
    rs_loopback (r_counters t) = rs_loopback (r_counters s) + (case inb of Loopback _ _ \<Rightarrow> 1 | _ \<Rightarrow> 0) \<and>
    rs_replies (r_counters t) = rs_replies (r_counters s) + (case inb of Reply _ \<Rightarrow> 1 | _ \<Rightarrow> 0) \<and>
    (case inb of
       Dropped reason \<Rightarrow> refused (Some reason) (r_counters s) (r_counters t)
     | Uplink _ _ \<Rightarrow> refused None (r_counters s) (r_counters t)
     | Loopback _ _ \<Rightarrow> refused None (r_counters s) (r_counters t)
     | _ \<Rightarrow> (\<exists>x \<in> {None, Some PrivateDestination, Some V6Unavailable, Some V6Budget}.
              refused x (r_counters s) (r_counters t))) \<and>
    rs_dropped (r_counters t) = reason_sum (r_counters t)"
proof -
  obtain t inb where h: "handle_datagram w src d now s = (t, Ok inb)" using handle_total [OF assms(2)] by (metis prod.exhaust)
  note c = handle_counts [OF h]
  have "tally t = booked inb (tally (count rc_datagram s))" "balanced t" using c resp_run_balanced [OF assms] by blast+
  then show ?thesis using h handle_accounts [OF h, unfolded accounts_def]
    by (cases inb) (auto simp: balanced_def totals_def booked_def count_def rc_datagram_def)
qed

theorem datagram_accounted_witness:
  "\<exists>t. handle_datagram sample_wire (V4 0x01020304, 9) (replicate 65536 0) 7 sample_start = (t, Ok (Dropped Oversize)) \<and>
     rs_datagrams (r_counters t) = 1 \<and> rs_dropped (r_counters t) = 1 \<and> rs_oversize (r_counters t) = 1"
proof -
  have z: "rs_datagrams (r_counters sample_start) = 0" "rs_dropped (r_counters sample_start) = 0"
    "rs_oversize (r_counters sample_start) = 0" by (simp_all add: sample_start_def responder_snapshot_default_def)
  obtain t where t: "handle_datagram sample_wire (V4 0x01020304, 9) (replicate 65536 0) 7 sample_start = (t, Ok (Dropped Oversize))"
    by (simp add: handle_datagram_def)
  then have "refused (Some Oversize) (r_counters sample_start) (r_counters t) \<and> rs_datagrams (r_counters t) = 1"
    using datagram_accounted [OF sample_responder_run sample_wire_ok(1), of "(V4 0x01020304, 9)" "replicate 65536 0" 7] z by auto
  moreover have "rs_oversize (r_counters t) = reason_count Oversize (r_counters t)" by simp
  ultimately show ?thesis using t z by (auto simp: refused_def simp del: reason_count.simps) (simp add: z)
qed

lemma insert_peers_draws:
  "next_n (length cs) (r_indexes s) = Some (map Some is) \<Longrightarrow> \<exists>t. insert_peers w cs s = Ok t"
proof (induction cs arbitrary: s "is")
  case (Cons c cs)
  then obtain g i js where d: "next_index (r_indexes s) = Some (g, Some i)" "next_n (length cs) g = Some (map Some js)"
    by (auto split: option.splits)
  have "r_indexes (insert_peer_at w c i (s\<lparr>r_indexes := g\<rparr>)) = g"
    by (simp add: insert_peer_at_def build_tunn_def split: prod.split)
  then show ?case using Cons.IH [of "insert_peer_at w c i (s\<lparr>r_indexes := g\<rparr>)" js] d by (simp add: insert_peer_def draw_index_def)
qed simp

text \<open>
  C16.  Building a responder ends, and succeeds for every configuration that passes the checks and
  has at most \<open>2 ^ 24 - 2\<close> peers, whatever the seed of its index generator: no draw loops and none is
  refused before the space of indexes is spent.
\<close>

theorem responder_builds:
  assumes "validate (wr_codec w) conf = Ok ()" and "check_against (wr_codec w) conf plan = Ok ()" and "length (gc_peers conf) \<le> 16777214"
  shows "\<exists>s. with_indexes w conf plan options (from_seed seed msk) = Ok s"
proof -
  obtain js where d: "next_n (length (gc_peers conf)) (from_seed seed msk) = Some (map Some js)" using first_draws [OF assms(3)] by blast
  have "\<exists>t. insert_peers w (gc_peers conf) s = Ok t" if "r_indexes s = from_seed seed msk" for s :: "('a, 'b) responder"
    using insert_peers_draws d that by metis
  then show ?thesis using assms(1,2) by (auto simp: with_indexes_def attempt_Ok)
qed

theorem responder_builds_witness:
  "\<exists>s. with_indexes sample_wire sample_conf plan_default responder_options_default (from_seed 0 7) = Ok s"
proof (rule responder_builds)
  show "validate (wr_codec sample_wire) sample_conf = Ok ()" using sample_conf_ok(3) by (simp add: sample_wire_def)
  show "check_against (wr_codec sample_wire) sample_conf plan_default = Ok ()"
    by (simp add: check_against_def sample_conf_def sample_wire_def spell_codec_def plan_default_def gateway_v4_def gateway_v6_def
        DEFAULT_PEER_SUBNET_V4_def DEFAULT_PEER_SUBNET_V6_def net_evals)
  show "length (gc_peers sample_conf) \<le> 16777214" by (simp add: sample_conf_def)
qed

end
