(* ===== verification/Raw_Udp.thy ===== *)
theory Raw_Udp
  imports Ip
begin

text \<open>
  \<open>warren-net/src/raw_udp.rs\<close>: the UDP datagrams a device that carries whole packets builds and
  reads for its own control plane, and the demultiplexer that hands an answer to the flow that
  asked.  A channel is the list of what it holds; its inbox is kept in the demultiplexer's state
  under the token of the registration.
\<close>

section \<open>Checksums\<close>

definition IPV4_HEADER_LEN :: nat where "IPV4_HEADER_LEN = 20"
definition IPV6_HEADER_LEN :: nat where "IPV6_HEADER_LEN = 40"
definition UDP_HEADER_LEN :: nat where "UDP_HEADER_LEN = 8"
definition TTL :: u8 where "TTL = 64"
definition FLOW_INBOX_DEPTH :: nat where "FLOW_INBOX_DEPTH = 64"

text \<open>One turn of the folding loop makes the sum smaller, so the loop ends.\<close>

lemma fold_sum:
  fixes x :: u32
  shows "unat (x AND 0xFFFF) = unat x mod 65536" "unat (drop_bit 16 x) = unat x div 65536"
    "unat ((x AND 0xFFFF) + drop_bit 16 x) = unat x mod 65536 + unat x div 65536"
proof -
  have m: "x AND 0xFFFF = take_bit 16 x" by (simp add: take_bit_eq_mask mask_eq_exp_minus_1)
  show a: "unat (x AND 0xFFFF) = unat x mod 65536" unfolding m by (simp add: take_bit_eq_mod unat_mod)
  show b: "unat (drop_bit 16 x) = unat x div 65536" by (simp add: drop_bit_eq_div unat_div)
  have "unat x < 2 ^ 32" using unsigned_less [of x, where ?'a = nat] by simp
  then have "unat x mod 65536 + unat x div 65536 < 2 ^ 32" by (simp add: less_mult_imp_div_less)
  then show "unat ((x AND 0xFFFF) + drop_bit 16 x) = unat x mod 65536 + unat x div 65536"
    by (simp add: unat_word_ariths a b)
qed

function fold_carries :: "u32 \<Rightarrow> u32" where
  "fold_carries s = (if 0xFFFF < s then fold_carries ((s AND 0xFFFF) + drop_bit 16 s) else s)"
  by auto
termination fold_carries
proof (relation "measure unat")
  fix s :: u32 assume "0xFFFF < s"
  then have "65536 \<le> unat s" by (simp add: word_less_nat_alt)
  then have "0 < unat s div 65536" by (simp add: div_greater_zero_iff)
  then have "unat s mod 65536 + unat s div 65536 < unat s" using div_mult_mod_eq [of "unat s" 65536] by linarith
  then show "((s AND 0xFFFF) + drop_bit 16 s, s) \<in> measure unat" by (simp add: fold_sum)
qed simp

declare fold_carries.simps [simp del]

definition checksum_from :: "u32 \<Rightarrow> u16" where
  "checksum_from s = NOT (ucast (fold_carries s))"

fun sum_bytes :: "u32 \<Rightarrow> bytes \<Rightarrow> u32" where
  "sum_bytes s [] = s"
| "sum_bytes s [x] = s + ucast (u16_be x 0)"
| "sum_bytes s (a # b # r) = sum_bytes (s + ucast (u16_be a b)) r"

section \<open>Datagrams\<close>

type_synonym endpoint_addr = "ip_addr \<times> u16"

definition push_udp :: "bytes \<Rightarrow> u16 \<Rightarrow> u16 \<Rightarrow> bytes \<Rightarrow> u16 \<Rightarrow> u32 \<Rightarrow> bytes" where
  "push_udp packet src_port dst_port payload udp_len pseudo =
     (let header_at = length packet;
          packet = packet @ to_be16 src_port @ to_be16 dst_port @ to_be16 udp_len @ [0, 0] @ payload;
          sum = sum_bytes pseudo (drop header_at packet);
          checksum = checksum_from sum;
          checksum = (if checksum = 0 then 0xFFFF else checksum)
      in overwrite packet (header_at + 6) (to_be16 checksum))"

text \<open>\<open>u16::try_from(n).ok()\<close>.\<close>

definition to_u16 :: "nat \<Rightarrow> u16 option" where
  "to_u16 n = (if n \<le> 65535 then Some (of_nat n) else None)"

definition build_udp_packet :: "endpoint_addr \<Rightarrow> endpoint_addr \<Rightarrow> bytes \<Rightarrow> bytes option" where
  "build_udp_packet src dst payload =
     (let udp_len = UDP_HEADER_LEN + length payload in
      case to_u16 udp_len of
        None \<Rightarrow> None
      | Some udp_len_u16 \<Rightarrow>
          (case (fst src, fst dst) of
             (V4 s, V4 d) \<Rightarrow>
               (case to_u16 (IPV4_HEADER_LEN + udp_len) of
                  None \<Rightarrow> None
                | Some whole \<Rightarrow>
                    let packet = [0x45, 0] @ to_be16 whole @ [0, 0] @ [0, 0] @ [TTL, PROTO_UDP] @ [0, 0] @ octets (V4 s) @ octets (V4 d);
                        header_checksum = checksum_from (sum_bytes 0 (take IPV4_HEADER_LEN packet));
                        packet = overwrite packet 10 (to_be16 header_checksum);
                        pseudo = sum_bytes (sum_bytes 0 (octets (V4 s))) (octets (V4 d)) + ucast PROTO_UDP + ucast udp_len_u16
                    in Some (push_udp packet (snd src) (snd dst) payload udp_len_u16 pseudo))
           | (V6 s, V6 d) \<Rightarrow>
               let packet = [0x60, 0, 0, 0] @ to_be16 udp_len_u16 @ [PROTO_UDP, TTL] @ octets (V6 s) @ octets (V6 d);
                   pseudo = sum_bytes (sum_bytes 0 (octets (V6 s))) (octets (V6 d)) + ucast udp_len_u16 + ucast PROTO_UDP
               in Some (push_udp packet (snd src) (snd dst) payload udp_len_u16 pseudo)
           | _ \<Rightarrow> None))"

text \<open>The part of a packet after its IP header, with the addresses of the header.\<close>

definition udp_segment :: "bytes \<Rightarrow> (ip_addr \<times> ip_addr \<times> bytes) option" where
  "udp_segment packet =
     (case packet of
        [] \<Rightarrow> None
      | b # _ \<Rightarrow>
          if drop_bit 4 b = 4 then
            let ihl = unat (b AND 0x0F) * 4 in
            if ihl < IPV4_HEADER_LEN \<or> length packet < ihl then None
            else if packet ! 9 \<noteq> PROTO_UDP then None
            else let frag = rd16 packet 6 in
              if frag AND 0x1FFF \<noteq> 0 \<or> frag AND 0x2000 \<noteq> 0 then None
              else let whole = unat (rd16 packet 2) in
                if whole < ihl \<or> length packet < whole then None
                else map_option (\<lambda>udp. (v4_from (sub 12 4 packet), v4_from (sub 16 4 packet), udp)) (slice_get packet ihl whole)
          else if drop_bit 4 b = 6 then
            if length packet < IPV6_HEADER_LEN \<or> packet ! 6 \<noteq> PROTO_UDP then None
            else let end_at = IPV6_HEADER_LEN + unat (rd16 packet 4) in
              if length packet < end_at then None
              else map_option (\<lambda>udp. (v6_from (sub 8 16 packet), v6_from (sub 24 16 packet), udp)) (slice_get packet IPV6_HEADER_LEN end_at)
          else None)"

definition parse_udp :: "bytes \<Rightarrow> (endpoint_addr \<times> endpoint_addr \<times> bytes) option" where
  "parse_udp packet =
     Option.bind (udp_segment packet) (\<lambda>(src_ip, dst_ip, udp).
       if length udp < UDP_HEADER_LEN then None
       else let udp_len = unat (rd16 udp 4) in
         if udp_len < UDP_HEADER_LEN \<or> length udp < udp_len then None
         else Some ((src_ip, rd16 udp 0), (dst_ip, rd16 udp 2), sub UDP_HEADER_LEN (udp_len - UDP_HEADER_LEN) udp))"

section \<open>What the sums compute\<close>

lemma unat_ucast_u16 [simp]: "unat (ucast (v :: u16) :: u32) = unat v"
proof -
  have "unat v < 4294967296" using unat_u16_less [of v] by linarith
  then show ?thesis by (simp add: unsigned_ucast_eq take_bit_nat_eq_self)
qed

lemma unat_add_small: "unat (s :: u32) + n < 2 ^ 32 \<Longrightarrow> n = unat v \<Longrightarrow> unat (s + v) = unat s + n"
  by (simp add: unat_word_ariths)

lemma sum_bytes_unat:
  "unat s + word_sum bs < 2 ^ 32 \<Longrightarrow> unat (sum_bytes s bs) = unat s + word_sum bs"
proof (induction s bs rule: sum_bytes.induct)
  case (2 s x)
  then show ?case by (simp add: unat_add_small unat_u16_be)
next
  case (3 s a b r)
  then have "unat (s + ucast (u16_be a b)) = unat s + (unat a * 256 + unat b)" by (intro unat_add_small) (simp_all add: unat_u16_be)
  then show ?case using 3 by simp
qed simp

lemma fold_carries_facts: "unat (fold_carries s) \<le> 65535 \<and> unat (fold_carries s) mod 65535 = unat s mod 65535"
proof (induction s rule: fold_carries.induct)
  case (1 s)
  show ?case
  proof (cases "0xFFFF < s")
    case True
    have "unat s = (unat s mod 65536 + unat s div 65536) + 65535 * (unat s div 65536)" using div_mult_mod_eq [of "unat s" 65536] by linarith
    then have "(unat s mod 65536 + unat s div 65536) mod 65535 = unat s mod 65535" by (metis mod_mult_self2)
    then show ?thesis using 1 True by (simp add: fold_carries.simps [of s] fold_sum(3))
  next
    case False
    then have "unat s \<le> 65535" by (simp add: word_less_nat_alt)
    then show ?thesis using False by (simp add: fold_carries.simps [of s])
  qed
qed

lemma checksum_completes: "(unat s + unat (checksum_from s)) mod 65535 = 0"
proof -
  define f where "f = unat (fold_carries s)"
  have f: "f \<le> 65535" "f mod 65535 = unat s mod 65535" using fold_carries_facts [of s] by (simp_all add: f_def)
  have "unat (ucast (fold_carries s) :: u16) = f" using f(1) by (simp add: f_def unsigned_ucast_eq take_bit_eq_mod)
  moreover have "unat (NOT w) = 65535 - unat w" for w :: u16
  proof -
    have "w + NOT w = -1" by simp
    then have "unat (w + NOT w) = 65535" by (simp only: unsigned_minus_1_eq_mask) (simp add: mask_eq_exp_minus_1)
    then have "(unat w + unat (NOT w)) mod 65536 = 65535" unfolding unat_word_ariths by simp
    moreover have "unat w + unat (NOT w) < 131071" using unat_u16_less [of w] unat_u16_less [of "NOT w"] by linarith
    ultimately have "unat w + unat (NOT w) = 65535" by (cases "unat w + unat (NOT w) < 65536") (simp_all add: le_mod_geq)
    then show ?thesis using unat_u16_less [of w] by linarith
  qed
  ultimately have "unat (checksum_from s) = 65535 - f" by (simp add: checksum_from_def)
  then have "(unat s + unat (checksum_from s)) mod 65535 = (unat s + (65535 - f)) mod 65535" by simp
  also have "\<dots> = (f + (65535 - f)) mod 65535" using f(2) by (metis mod_add_left_eq)
  finally show ?thesis using f(1) by simp
qed

section \<open>Reading back what was built\<close>

definition udp_bytes :: "u16 \<Rightarrow> u16 \<Rightarrow> u16 \<Rightarrow> u16 \<Rightarrow> bytes \<Rightarrow> bytes" where
  "udp_bytes sp dp len ck payload = to_be16 sp @ to_be16 dp @ to_be16 len @ to_be16 ck @ payload"

lemma length_udp_bytes [simp]: "length (udp_bytes sp dp len ck payload) = 8 + length payload"
  by (simp add: udp_bytes_def)

lemma word_sum_udp_bytes: "word_sum (udp_bytes sp dp len ck payload) = unat sp + unat dp + unat len + unat ck + word_sum payload"
  by (simp add: udp_bytes_def word_sum_append)

lemma to_be16_pair: obtains hi lo where "to_be16 w = [hi, lo]" "u16_be hi lo = w"
  using u16_be_to_be16 [of w] by (simp add: to_be16_def)

lemma udp_bytes_reads:
  "rd16 (udp_bytes sp dp len ck payload) 0 = sp" "rd16 (udp_bytes sp dp len ck payload) 2 = dp"
  "rd16 (udp_bytes sp dp len ck payload) 4 = len" "sub 8 (length payload) (udp_bytes sp dp len ck payload) = payload"
proof -
  obtain a b where "to_be16 sp = [a, b]" "u16_be a b = sp" by (rule to_be16_pair)
  moreover obtain c d where "to_be16 dp = [c, d]" "u16_be c d = dp" by (rule to_be16_pair)
  moreover obtain e f where "to_be16 len = [e, f]" "u16_be e f = len" by (rule to_be16_pair)
  moreover obtain g h where "to_be16 ck = [g, h]" by (rule to_be16_pair)
  ultimately show "rd16 (udp_bytes sp dp len ck payload) 0 = sp" "rd16 (udp_bytes sp dp len ck payload) 2 = dp"
    "rd16 (udp_bytes sp dp len ck payload) 4 = len" "sub 8 (length payload) (udp_bytes sp dp len ck payload) = payload"
    by (simp_all add: udp_bytes_def rd16_def sub_def)
qed

lemma word_sum_bound: "word_sum bs \<le> 32768 * (length bs + 1)"
proof (induction bs rule: word_sum.induct)
  case (2 a)
  have "unat a * 256 \<le> 65536" using unat_u8_less [of a] by linarith
  then show ?case by simp
next
  case (3 a b r)
  have "unat a * 256 + unat b \<le> 65536" using unat_u8_less [of a] unat_u8_less [of b] by linarith
  then show ?case using 3 by simp
qed simp

lemma nonzero_checksum: "(a + unat (c :: u16)) mod 65535 = 0 \<Longrightarrow> (a + unat (if c = 0 then 0xFFFF else c)) mod 65535 = 0"
  by (cases "c = 0") simp_all

lemma push_udp_layout:
  "push_udp packet sp dp payload len pseudo = packet @ udp_bytes sp dp len
     (let c = checksum_from (sum_bytes pseudo (udp_bytes sp dp len 0 payload)) in if c = 0 then 0xFFFF else c) payload"
proof -
  obtain a b where a: "to_be16 sp = [a, b]" by (rule to_be16_pair)
  obtain c d where c: "to_be16 dp = [c, d]" by (rule to_be16_pair)
  obtain e f where e: "to_be16 len = [e, f]" by (rule to_be16_pair)
  have z: "to_be16 0 = [0, 0]" by (simp add: to_be16_def)
  have o: "overwrite (packet @ [a, b, c, d, e, f, 0, 0] @ payload) (length packet + 6) (to_be16 k) =
    packet @ [a, b, c, d, e, f] @ to_be16 k @ payload" for k by (simp add: overwrite_def)
  show ?thesis using o unfolding push_udp_def udp_bytes_def a c e z by (simp add: Let_def)
qed

text \<open>The checksum completes the sum of the pseudo-header and the datagram to zero, and is never zero itself.\<close>

lemma push_udp_eq:
  assumes "length payload \<le> 65527" and "unat pseudo \<le> 2000000"
  shows "\<exists>ck. push_udp packet sp dp payload len pseudo = packet @ udp_bytes sp dp len ck payload \<and> ck \<noteq> 0 \<and>
    (unat pseudo + word_sum (udp_bytes sp dp len ck payload)) mod 65535 = 0"
proof -
  let ?z = "udp_bytes sp dp len 0 payload"
  define c where "c = checksum_from (sum_bytes pseudo ?z)"
  define ck where "ck = (if c = 0 then 0xFFFF else c)"
  have "8 + length payload + 1 \<le> 65536" using assms(1) by simp
  then have "32768 * (8 + length payload + 1) \<le> 32768 * 65536" by (rule mult_le_mono2)
  with word_sum_bound [of ?z] have "word_sum ?z \<le> 32768 * 65536" unfolding length_udp_bytes by (rule order_trans)
  then have s: "unat (sum_bytes pseudo ?z) = unat pseudo + word_sum ?z" using assms(2) by (intro sum_bytes_unat) simp
  have "(unat pseudo + word_sum ?z + unat ck) mod 65535 = 0"
    unfolding ck_def by (rule nonzero_checksum) (use checksum_completes [of "sum_bytes pseudo ?z"] in \<open>simp only: s c_def\<close>)
  moreover have "unat pseudo + word_sum ?z + unat ck = unat pseudo + word_sum (udp_bytes sp dp len ck payload)"
    by (simp add: word_sum_udp_bytes)
  ultimately have "(unat pseudo + word_sum (udp_bytes sp dp len ck payload)) mod 65535 = 0" by (simp only:)
  moreover have "push_udp packet sp dp payload len pseudo = packet @ udp_bytes sp dp len ck payload"
    unfolding push_udp_layout Let_def c_def [symmetric] ck_def [symmetric] ..
  moreover have "ck \<noteq> 0" by (simp add: ck_def)
  ultimately show ?thesis by (intro exI [of _ ck] conjI)
qed

definition ipv4_bytes :: "u16 \<Rightarrow> u16 \<Rightarrow> u32 \<Rightarrow> u32 \<Rightarrow> bytes" where
  "ipv4_bytes whole ck s d = [0x45, 0] @ to_be16 whole @ [0, 0, 0, 0, TTL, PROTO_UDP] @ to_be16 ck @ octets (V4 s) @ octets (V4 d)"

definition ipv6_bytes :: "u16 \<Rightarrow> u128 \<Rightarrow> u128 \<Rightarrow> bytes" where
  "ipv6_bytes len s d = [0x60, 0, 0, 0] @ to_be16 len @ [PROTO_UDP, TTL] @ octets (V6 s) @ octets (V6 d)"

lemma header_lengths [simp]: "length (ipv4_bytes whole ck s d) = 20" "length (ipv6_bytes len s' d') = 40"
  by (simp_all add: ipv4_bytes_def ipv6_bytes_def addr_len_def del: octets.simps)

lemma segment_v4:
  assumes "unat whole = 20 + length u"
  shows "udp_segment (ipv4_bytes whole ck s d @ u @ rest) = Some (V4 s, V4 d, u)"
proof -
  obtain hi lo where w: "to_be16 whole = [hi, lo]" "u16_be hi lo = whole" by (rule to_be16_pair)
  obtain c0 c1 where c: "to_be16 ck = [c0, c1]" by (rule to_be16_pair)
  define A B where "A = be_bytes 4 (unat s)" and "B = be_bytes 4 (unat d)"
  have l: "length A = 4" "length B = 4" by (simp_all add: A_def B_def del: be_bytes.simps)
  have v: "v4_from A = V4 s" "v4_from B = V4 d" by (simp_all only: A_def B_def v4_from_octets)
  have f: "u16_be 0 0 = 0" by (simp add: u16_be_def)
  show ?thesis using assms unfolding udp_segment_def ipv4_bytes_def octets.simps A_def [symmetric] B_def [symmetric]
    by (simp add: w c l v f rd16_def IPV4_HEADER_LEN_def sub_def slice_get_def PROTO_UDP_def)
qed

lemma segment_v6:
  assumes "unat len = length u"
  shows "udp_segment (ipv6_bytes len s d @ u @ rest) = Some (V6 s, V6 d, u)"
proof -
  obtain hi lo where w: "to_be16 len = [hi, lo]" "u16_be hi lo = len" by (rule to_be16_pair)
  define A B where "A = be_bytes 16 (unat s)" and "B = be_bytes 16 (unat d)"
  have l: "length A = 16" "length B = 16" by (simp_all add: A_def B_def del: be_bytes.simps)
  have v: "v6_from A = V6 s" "v6_from B = V6 d" by (simp_all only: A_def B_def v6_from_octets)
  show ?thesis using assms unfolding udp_segment_def ipv6_bytes_def octets.simps A_def [symmetric] B_def [symmetric]
    by (simp add: w l v rd16_def IPV6_HEADER_LEN_def sub_def slice_get_def PROTO_UDP_def)
qed

lemma parse_segment:
  assumes "udp_segment p = Some (s, d, udp_bytes sp dp len ck payload)" and "unat len = 8 + length payload"
  shows "parse_udp p = Some ((s, sp), (d, dp), payload)"
  using assms by (simp add: parse_udp_def UDP_HEADER_LEN_def udp_bytes_reads)

text \<open>The sums of the pseudo-headers stay far below the width of the accumulator.\<close>

lemma addr_sum_bound: "word_sum (octets a) \<le> 557056"
proof -
  have "word_sum (octets a) \<le> 32768 * (addr_len (is_ipv6 a) + 1)" using word_sum_bound [of "octets a"] by simp
  also have "\<dots> \<le> 557056" by (simp add: addr_len_def)
  finally show ?thesis .
qed

lemma pseudo_unat:
  "unat (sum_bytes (sum_bytes 0 (octets a)) (octets b) + ucast PROTO_UDP + ucast (len :: u16)) = word_sum (octets a) + word_sum (octets b) + 17 + unat len"
  "unat (sum_bytes (sum_bytes 0 (octets a)) (octets b) + ucast (len :: u16) + ucast PROTO_UDP) = word_sum (octets a) + word_sum (octets b) + 17 + unat len"
proof -
  note A = addr_sum_bound [of a] and B = addr_sum_bound [of b]
  have L: "unat len \<le> 65535" using unat_u16_less [of len] by linarith
  have u: "unat (sum_bytes 0 (octets a)) = word_sum (octets a)" using sum_bytes_unat [of 0 "octets a"] A by simp
  have v: "unat (sum_bytes (sum_bytes 0 (octets a)) (octets b)) = word_sum (octets a) + word_sum (octets b)"
    using sum_bytes_unat [of "sum_bytes 0 (octets a)" "octets b"] u A B by simp
  have p: "ucast PROTO_UDP = (17 :: u32)" by (simp add: PROTO_UDP_def)
  let ?s = "sum_bytes (sum_bytes 0 (octets a)) (octets b)"
  have x: "unat (?s + 17) = unat ?s + 17" by (rule unat_add_small) (use v A B in simp_all)
  have y: "unat (?s + ucast len) = unat ?s + unat len" by (rule unat_add_small) (use v A B L in simp_all)
  show "unat (?s + ucast PROTO_UDP + ucast len) = word_sum (octets a) + word_sum (octets b) + 17 + unat len"
  proof -
    have "unat (?s + 17 + ucast len) = unat (?s + 17) + unat len" by (rule unat_add_small) (use x v A B L in simp_all)
    then show ?thesis unfolding p x v .
  qed
  show "unat (?s + ucast len + ucast PROTO_UDP) = word_sum (octets a) + word_sum (octets b) + 17 + unat len"
  proof -
    have "unat (?s + ucast len + 17) = unat (?s + ucast len) + 17" by (rule unat_add_small) (use y v A B L in simp_all)
    then show ?thesis unfolding p y v by simp
  qed
qed

text \<open>What is built, in each family: the header with its length, then the datagram with valid checksums.\<close>

definition sums_to_zero :: "ip_addr \<Rightarrow> ip_addr \<Rightarrow> u16 \<Rightarrow> bytes \<Rightarrow> bool" where
  "sums_to_zero s d len u \<longleftrightarrow> (word_sum (octets s) + word_sum (octets d) + 17 + unat len + word_sum u) mod 65535 = 0"

lemma pushed:
  assumes "length payload \<le> 65527" and "unat pseudo = word_sum (octets s) + word_sum (octets d) + 17 + unat len"
  obtains ck where "push_udp packet sp dp payload len pseudo = packet @ udp_bytes sp dp len ck payload" "ck \<noteq> 0"
    "sums_to_zero s d len (udp_bytes sp dp len ck payload)"
proof -
  have "unat len \<le> 65535" using unat_u16_less [of len] by linarith
  then have "unat pseudo \<le> 2000000" using addr_sum_bound [of s] addr_sum_bound [of d] assms(2) by simp
  from push_udp_eq [OF assms(1) this] obtain ck where "push_udp packet sp dp payload len pseudo = packet @ udp_bytes sp dp len ck payload" "ck \<noteq> 0"
    "(unat pseudo + word_sum (udp_bytes sp dp len ck payload)) mod 65535 = 0" by metis
  then show thesis by (intro that) (simp_all only: sums_to_zero_def assms(2) not_False_eq_True)
qed

lemma build_v6:
  assumes "length payload \<le> 65527"
  obtains ck where "build_udp_packet (V6 s, sp) (V6 d, dp) payload =
      Some (ipv6_bytes (of_nat (8 + length payload)) s d @ udp_bytes sp dp (of_nat (8 + length payload)) ck payload)" "ck \<noteq> 0"
    "sums_to_zero (V6 s) (V6 d) (of_nat (8 + length payload)) (udp_bytes sp dp (of_nat (8 + length payload)) ck payload)"
proof -
  let ?n = "of_nat (8 + length payload) :: u16"
  have t: "to_u16 (8 + length payload) = Some ?n" using assms by (simp add: to_u16_def)
  obtain ck where "push_udp (ipv6_bytes ?n s d) sp dp payload ?n (sum_bytes (sum_bytes 0 (octets (V6 s))) (octets (V6 d)) + ucast ?n + ucast PROTO_UDP) =
      ipv6_bytes ?n s d @ udp_bytes sp dp ?n ck payload" "ck \<noteq> 0" "sums_to_zero (V6 s) (V6 d) ?n (udp_bytes sp dp ?n ck payload)"
    by (rule pushed [OF assms pseudo_unat(2)])
  then show thesis by (intro that [of ck]) (simp_all add: build_udp_packet_def UDP_HEADER_LEN_def t ipv6_bytes_def Let_def del: octets.simps of_nat_add)
qed

lemma ipv4_built:
  "\<exists>hck. (let packet = [0x45, 0] @ to_be16 whole @ [0, 0] @ [0, 0] @ [TTL, PROTO_UDP] @ [0, 0] @ octets (V4 s) @ octets (V4 d)
      in overwrite packet 10 (to_be16 (checksum_from (sum_bytes 0 (take IPV4_HEADER_LEN packet))))) = ipv4_bytes whole hck s d \<and>
    word_sum (ipv4_bytes whole hck s d) mod 65535 = 0"
proof -
  let ?z = "ipv4_bytes whole 0 s d"
  define c where "c = checksum_from (sum_bytes 0 ?z)"
  have z: "[0x45, 0] @ to_be16 whole @ [0, 0] @ [0, 0] @ [TTL, PROTO_UDP] @ [0, 0] @ octets (V4 s) @ octets (V4 d) = ?z"
    by (simp add: ipv4_bytes_def to_be16_def del: octets.simps)
  have t: "take IPV4_HEADER_LEN ?z = ?z" using header_lengths(1) [of whole 0 s d] by (simp add: IPV4_HEADER_LEN_def)
  have o: "overwrite ?z 10 (to_be16 c) = ipv4_bytes whole c s d"
  proof -
    obtain hi lo where "to_be16 whole = [hi, lo]" by (rule to_be16_pair)
    moreover obtain c0 c1 where "to_be16 c = [c0, c1]" by (rule to_be16_pair)
    moreover have "to_be16 0 = [0, 0]" by (simp add: to_be16_def)
    ultimately show ?thesis by (simp add: overwrite_def ipv4_bytes_def del: octets.simps)
  qed
  have even: "even (length (octets (V4 a)))" for a by (simp add: addr_len_def)
  have w: "word_sum (ipv4_bytes whole k s d) = word_sum ?z + unat k" for k
    by (simp add: ipv4_bytes_def word_sum_append even del: octets.simps)
  have "word_sum ?z \<le> 32768 * 21" using word_sum_bound [of ?z] by simp
  then have "unat (sum_bytes 0 ?z) = word_sum ?z" using sum_bytes_unat [of 0 ?z] by simp
  then have "(word_sum ?z + unat c) mod 65535 = 0" using checksum_completes [of "sum_bytes 0 ?z"] by (simp only: c_def)
  then have "word_sum (ipv4_bytes whole c s d) mod 65535 = 0" by (simp only: w [of c])
  then show ?thesis unfolding Let_def z t c_def [symmetric] o by (intro exI [of _ c] conjI refl)
qed

lemma build_v4:
  assumes "length payload \<le> 65507"
  obtains hck ck where "build_udp_packet (V4 s, sp) (V4 d, dp) payload =
      Some (ipv4_bytes (of_nat (28 + length payload)) hck s d @ udp_bytes sp dp (of_nat (8 + length payload)) ck payload)" "ck \<noteq> 0"
    "word_sum (ipv4_bytes (of_nat (28 + length payload)) hck s d) mod 65535 = 0"
    "sums_to_zero (V4 s) (V4 d) (of_nat (8 + length payload)) (udp_bytes sp dp (of_nat (8 + length payload)) ck payload)"
proof -
  let ?n = "of_nat (8 + length payload) :: u16" and ?w = "of_nat (28 + length payload) :: u16"
  have l: "length payload \<le> 65527" using assms by simp
  have t: "to_u16 (8 + length payload) = Some ?n" "to_u16 (20 + (8 + length payload)) = Some ?w" using assms by (simp_all add: to_u16_def)
  obtain hck where h: "overwrite ([0x45, 0] @ to_be16 ?w @ [0, 0] @ [0, 0] @ [TTL, PROTO_UDP] @ [0, 0] @ octets (V4 s) @ octets (V4 d)) 10
      (to_be16 (checksum_from (sum_bytes 0 (take IPV4_HEADER_LEN
        ([0x45, 0] @ to_be16 ?w @ [0, 0] @ [0, 0] @ [TTL, PROTO_UDP] @ [0, 0] @ octets (V4 s) @ octets (V4 d)))))) = ipv4_bytes ?w hck s d"
    "word_sum (ipv4_bytes ?w hck s d) mod 65535 = 0" using ipv4_built [of ?w s d] unfolding Let_def by metis
  obtain ck where c: "push_udp (ipv4_bytes ?w hck s d) sp dp payload ?n (sum_bytes (sum_bytes 0 (octets (V4 s))) (octets (V4 d)) + ucast PROTO_UDP + ucast ?n) =
      ipv4_bytes ?w hck s d @ udp_bytes sp dp ?n ck payload" "ck \<noteq> 0" "sums_to_zero (V4 s) (V4 d) ?n (udp_bytes sp dp ?n ck payload)"
    by (rule pushed [OF l pseudo_unat(1)])
  have "build_udp_packet (V4 s, sp) (V4 d, dp) payload = Some (ipv4_bytes ?w hck s d @ udp_bytes sp dp ?n ck payload)"
    unfolding build_udp_packet_def Let_def UDP_HEADER_LEN_def t fst_conv snd_conv prod.case option.case ip_addr.case IPV4_HEADER_LEN_def
      h(1) [unfolded IPV4_HEADER_LEN_def] c(1) ..
  then show thesis by (rule that) (use c h in blast)+
qed

lemma build_refused:
  "build_udp_packet src dst payload = None \<longleftrightarrow>
     is_ipv6 (fst src) \<noteq> is_ipv6 (fst dst) \<or> (if is_ipv6 (fst src) then 65527 else 65507) < length payload"
  by (cases "fst src"; cases "fst dst") (auto simp: build_udp_packet_def to_u16_def UDP_HEADER_LEN_def IPV4_HEADER_LEN_def Let_def)

text \<open>The header length of a family, and what a receiver checks of a datagram after the header.\<close>

definition ip_header_len :: "ip_addr \<Rightarrow> nat" where
  "ip_header_len a = (if is_ipv6 a then 40 else 20)"

definition checks_out :: "ip_addr \<Rightarrow> ip_addr \<Rightarrow> bytes \<Rightarrow> bool" where
  "checks_out s d p \<longleftrightarrow> (let u = drop (ip_header_len s) p in
     sums_to_zero s d (of_nat (length u)) u \<and> rd16 u 6 \<noteq> 0 \<and> (is_ipv6 s \<or> word_sum (take 20 p) mod 65535 = 0))"

lemma udp_checksum_field: "rd16 (udp_bytes sp dp len ck payload) 6 = ck"
proof -
  obtain a b where "to_be16 sp = [a, b]" by (rule to_be16_pair)
  moreover obtain c d where "to_be16 dp = [c, d]" by (rule to_be16_pair)
  moreover obtain e f where "to_be16 len = [e, f]" by (rule to_be16_pair)
  moreover obtain g h where "to_be16 ck = [g, h]" "u16_be g h = ck" by (rule to_be16_pair)
  ultimately show ?thesis by (simp add: udp_bytes_def rd16_def)
qed

lemma built_v4:
  assumes "build_udp_packet (V4 a, sp) (V4 b, dp) payload = Some p" and l: "length payload \<le> 65507"
  shows "parse_udp (p @ rest) = Some ((V4 a, sp), (V4 b, dp), payload) \<and> checks_out (V4 a) (V4 b) p"
proof -
  let ?n = "of_nat (8 + length payload) :: u16" and ?w = "of_nat (28 + length payload) :: u16"
  have n: "unat ?n = 8 + length payload" "unat ?w = 28 + length payload" using l by (simp_all add: unat_of_nat del: of_nat_add)
  then have w: "unat ?w = 20 + length (udp_bytes sp dp x y payload)" for x y by simp
  obtain hck ck where p: "p = ipv4_bytes ?w hck a b @ udp_bytes sp dp ?n ck payload" and "ck \<noteq> 0" "word_sum (ipv4_bytes ?w hck a b) mod 65535 = 0"
    "sums_to_zero (V4 a) (V4 b) ?n (udp_bytes sp dp ?n ck payload)"
    using build_v4 [OF l, of a sp b dp] assms(1) by (metis option.inject)
  then have "checks_out (V4 a) (V4 b) p" by (simp add: checks_out_def ip_header_len_def udp_checksum_field)
  moreover have "parse_udp (p @ rest) = Some ((V4 a, sp), (V4 b, dp), payload)"
    unfolding p append_assoc by (rule parse_segment [OF segment_v4 [OF w] n(1)])
  ultimately show ?thesis by simp
qed

lemma built_v6:
  assumes "build_udp_packet (V6 a, sp) (V6 b, dp) payload = Some p" and l: "length payload \<le> 65527"
  shows "parse_udp (p @ rest) = Some ((V6 a, sp), (V6 b, dp), payload) \<and> checks_out (V6 a) (V6 b) p"
proof -
  let ?n = "of_nat (8 + length payload) :: u16"
  have n: "unat ?n = 8 + length payload" using l by (simp add: unat_of_nat del: of_nat_add)
  then have w: "unat ?n = length (udp_bytes sp dp x y payload)" for x y by simp
  obtain ck where p: "p = ipv6_bytes ?n a b @ udp_bytes sp dp ?n ck payload" and "ck \<noteq> 0"
    "sums_to_zero (V6 a) (V6 b) ?n (udp_bytes sp dp ?n ck payload)"
    using build_v6 [OF l, of a sp b dp] assms(1) by (metis option.inject)
  then have "checks_out (V6 a) (V6 b) p" by (simp add: checks_out_def ip_header_len_def udp_checksum_field)
  moreover have "parse_udp (p @ rest) = Some ((V6 a, sp), (V6 b, dp), payload)"
    unfolding p append_assoc by (rule parse_segment [OF segment_v6 [OF w] n])
  ultimately show ?thesis by simp
qed

lemma built_reads_back:
  assumes "build_udp_packet (s, sp) (d, dp) payload = Some p"
  shows "parse_udp (p @ rest) = Some ((s, sp), (d, dp), payload) \<and> checks_out s d p"
proof -
  have fits: "is_ipv6 s = is_ipv6 d" "length payload \<le> (if is_ipv6 s then 65527 else 65507)"
    using build_refused [of "(s, sp)" "(d, dp)" payload] assms by auto
  show ?thesis
  proof (cases s)
    case (V4 a)
    then obtain b where "d = V4 b" using fits(1) by (cases d) auto
    then show ?thesis using built_v4 assms fits(2) V4 by simp
  next
    case (V6 a)
    then obtain b where "d = V6 b" using fits(1) by (cases d) auto
    then show ?thesis using built_v6 assms fits(2) V6 by simp
  qed
qed

section \<open>Property\<close>

text \<open>
  C15.  A control datagram is refused exactly when its endpoints are of different families or its
  payload does not fit a packet; otherwise the packet built for it is read back as the same
  endpoints and payload, whatever bytes follow it in the buffer, and its header and datagram
  checksums are valid, the latter never the zero that would mean "not computed".
\<close>

theorem raw_udp_roundtrip:
  "(build_udp_packet (s, sp) (d, dp) payload = None \<longleftrightarrow>
      is_ipv6 s \<noteq> is_ipv6 d \<or> (if is_ipv6 s then 65527 else 65507) < length payload) \<and>
   (\<forall>p. build_udp_packet (s, sp) (d, dp) payload = Some p \<longrightarrow>
      parse_udp (p @ rest) = Some ((s, sp), (d, dp), payload) \<and> checks_out s d p)"
  using build_refused [of "(s, sp)" "(d, dp)" payload] built_reads_back by auto

theorem raw_udp_roundtrip_witness:
  "\<exists>p. build_udp_packet (V4 0x0a420002, 61000) (V4 0x0a420001, 5351) [0, 1] = Some p \<and>
     parse_udp (p @ [9]) = Some ((V4 0x0a420002, 61000), (V4 0x0a420001, 5351), [0, 1])"
proof -
  note r = raw_udp_roundtrip [of "V4 0x0a420002" 61000 "V4 0x0a420001" 5351 "[0, 1]" "[9]"]
  then obtain p where "build_udp_packet (V4 0x0a420002, 61000) (V4 0x0a420001, 5351) [0, 1] = Some p" by fastforce
  then show ?thesis using r by blast
qed

end
