(* ===== verification/Control_Plane.thy ===== *)
theory Control_Plane
  imports Raw_Udp Ports "HOL-Library.Sublist"
begin

text \<open>
  The demultiplexer of \<open>warren-net/src/raw_udp.rs\<close> and the control plane of
  \<open>warren-bolthole/src/control.rs\<close> over it.  A channel is the queue of what it holds: the inbox of a
  flow is kept under the token of its registration and is \<open>None\<close> once its receiver is dropped; the
  injector is the device's uplink queue with its capacity.
\<close>

section \<open>Flows and their registrations\<close>

datatype remote_filter = Endpoint endpoint_addr | Host ip_addr

fun accepts :: "remote_filter \<Rightarrow> endpoint_addr \<Rightarrow> bool" where
  "accepts (Endpoint expected) from_addr \<longleftrightarrow> from_addr = expected"
| "accepts (Host host) from_addr \<longleftrightarrow> fst from_addr = host"

record registration =
  rg_token :: u64
  rg_local :: endpoint_addr

record raw_udp_flow =
  fl_local :: endpoint_addr
  fl_remote :: remote_filter
  fl_token :: u64

record raw_udp_demux =
  dx_flows :: "u16 \<Rightarrow> registration option"
  dx_next_token :: u64
  dx_inbox :: "u64 \<Rightarrow> (bytes \<times> endpoint_addr) list option"
  dx_injector :: "bytes list"
  dx_depth :: nat
  dx_injector_open :: bool

definition demux_new :: "nat \<Rightarrow> raw_udp_demux" where
  "demux_new depth = \<lparr>dx_flows = Map.empty, dx_next_token = 0, dx_inbox = Map.empty, dx_injector = [], dx_depth = depth, dx_injector_open = True\<rparr>"

definition register_with :: "endpoint_addr \<Rightarrow> remote_filter \<Rightarrow> raw_udp_demux \<Rightarrow> raw_udp_demux \<times> raw_udp_flow" where
  "register_with loc expected_remote dx =
     (let token = dx_next_token dx
      in (dx\<lparr>dx_next_token := token + 1, dx_inbox := (dx_inbox dx)(token \<mapsto> []),
             dx_flows := (dx_flows dx)(snd loc \<mapsto> \<lparr>rg_token = token, rg_local = loc\<rparr>)\<rparr>,
          \<lparr>fl_local = loc, fl_remote = expected_remote, fl_token = token\<rparr>))"

definition register_flow :: "endpoint_addr \<Rightarrow> endpoint_addr \<Rightarrow> raw_udp_demux \<Rightarrow> raw_udp_demux \<times> raw_udp_flow" where
  "register_flow loc expected_remote dx = register_with loc (Endpoint expected_remote) dx"

definition register_from_host :: "endpoint_addr \<Rightarrow> ip_addr \<Rightarrow> raw_udp_demux \<Rightarrow> raw_udp_demux \<times> raw_udp_flow" where
  "register_from_host loc expected_host dx = register_with loc (Host expected_host) dx"

text \<open>\<open>try_send\<close> into an inbox whose receiver may be gone or full: the datagram is lost then.\<close>

definition inbox_send :: "u64 \<Rightarrow> bytes \<times> endpoint_addr \<Rightarrow> raw_udp_demux \<Rightarrow> raw_udp_demux" where
  "inbox_send token item dx =
     (case dx_inbox dx token of
        Some q \<Rightarrow> if length q < FLOW_INBOX_DEPTH then dx\<lparr>dx_inbox := (dx_inbox dx)(token \<mapsto> q @ [item])\<rparr> else dx
      | None \<Rightarrow> dx)"

definition demux_deliver :: "bytes \<Rightarrow> raw_udp_demux \<Rightarrow> raw_udp_demux \<times> bool" where
  "demux_deliver packet dx =
     (case parse_udp packet of
        None \<Rightarrow> (dx, False)
      | Some (src, dst, payload) \<Rightarrow>
          (case dx_flows dx (snd dst) of
             None \<Rightarrow> (dx, False)
           | Some registered \<Rightarrow>
               if rg_local registered = dst then (inbox_send (rg_token registered) (payload, src) dx, True) else (dx, False)))"

definition close_all :: "raw_udp_demux \<Rightarrow> raw_udp_demux" where
  "close_all dx = dx\<lparr>dx_flows := Map.empty\<rparr>"

text \<open>Dropping a flow frees its port only while the registration there is its own; its receiver is gone either way.\<close>

definition drop_flow :: "raw_udp_flow \<Rightarrow> raw_udp_demux \<Rightarrow> raw_udp_demux" where
  "drop_flow fl dx =
     (let port = snd (fl_local fl);
          dx = (case dx_flows dx port of
                  Some registered \<Rightarrow> if rg_token registered = fl_token fl then dx\<lparr>dx_flows := (dx_flows dx)(port := None)\<rparr> else dx
                | None \<Rightarrow> dx)
      in dx\<lparr>dx_inbox := (dx_inbox dx)(fl_token fl := None)\<rparr>)"

datatype net_error = EngineStopped

definition flow_send_to :: "raw_udp_flow \<Rightarrow> bytes \<Rightarrow> endpoint_addr \<Rightarrow> raw_udp_demux \<Rightarrow> raw_udp_demux \<times> (net_error, unit) res" where
  "flow_send_to fl data dst dx =
     (case build_udp_packet (fl_local fl) dst data of
        None \<Rightarrow> (dx, Ok ())
      | Some packet \<Rightarrow>
          if \<not> dx_injector_open dx then (dx, Err EngineStopped)
          else if length (dx_injector dx) < dx_depth dx then (dx\<lparr>dx_injector := dx_injector dx @ [packet]\<rparr>, Ok ())
          else (dx, Ok ()))"

text \<open>
  The loop of \<open>recv_from\<close>: datagrams from anyone else are skipped.  On an empty inbox it waits while
  the registration still holds the sending half, and ends otherwise.
\<close>

datatype received = Received bytes endpoint_addr | Waiting | Ended

fun recv_loop :: "remote_filter \<Rightarrow> (bytes \<times> endpoint_addr) list \<Rightarrow> (bytes \<times> endpoint_addr) list \<times> (bytes \<times> endpoint_addr) option" where
  "recv_loop expected [] = ([], None)"
| "recv_loop expected ((payload, from_addr) # rest) =
     (if accepts expected from_addr then (rest, Some (payload, from_addr)) else recv_loop expected rest)"

definition flow_recv_from :: "raw_udp_flow \<Rightarrow> raw_udp_demux \<Rightarrow> raw_udp_demux \<times> received" where
  "flow_recv_from fl dx =
     (case dx_inbox dx (fl_token fl) of
        None \<Rightarrow> (dx, Ended)
      | Some q \<Rightarrow>
          let (rest, got) = recv_loop (fl_remote fl) q;
              dx' = dx\<lparr>dx_inbox := (dx_inbox dx)(fl_token fl \<mapsto> rest)\<rparr>;
              fed = (case dx_flows dx (snd (fl_local fl)) of Some registered \<Rightarrow> rg_token registered = fl_token fl | None \<Rightarrow> False)
          in (dx', case got of Some (payload, from_addr) \<Rightarrow> Received payload from_addr | None \<Rightarrow> if fed then Waiting else Ended))"

section \<open>The gateway's control plane\<close>

record gateway_control =
  ct_demux :: raw_udp_demux
  ct_local :: u32
  ct_gateway :: u32
  ct_next_port :: u32
  ct_alive :: bool

definition control_new :: "raw_udp_demux \<Rightarrow> u32 \<Rightarrow> u32 \<Rightarrow> gateway_control" where
  "control_new dx loc gateway = \<lparr>ct_demux = dx, ct_local = loc, ct_gateway = gateway, ct_next_port = ucast CONTROL_RANGE_START, ct_alive = True\<rparr>"

definition control_close :: "gateway_control \<Rightarrow> gateway_control" where
  "control_close c = c\<lparr>ct_alive := False, ct_demux := close_all (ct_demux c)\<rparr>"

definition take_port :: "gateway_control \<Rightarrow> gateway_control \<times> u16" where
  "take_port c =
     (let span = ucast (CONTROL_RANGE_END - CONTROL_RANGE_START) + 1;
          raw = ct_next_port c;
          offset = (raw - ucast CONTROL_RANGE_START) mod span
      in (c\<lparr>ct_next_port := raw + 1\<rparr>, CONTROL_RANGE_START + (case to_u16 (unat offset) of Some o16 \<Rightarrow> o16 | None \<Rightarrow> 0)))"

definition open_udp :: "gateway_control \<Rightarrow> gateway_control \<times> (net_error, raw_udp_flow) res" where
  "open_udp c =
     (if \<not> ct_alive c then (c, Err EngineStopped)
      else let (c, port) = take_port c;
               (dx, fl) = register_from_host (V4 (ct_local c), port) (V4 (ct_gateway c)) (ct_demux c)
           in (c\<lparr>ct_demux := dx\<rparr>, Ok fl))"

section \<open>The ports\<close>

lemma take_port_facts:
  assumes "take_port c = (c', port)"
  shows "unat port = 61000 + unat (ct_next_port c - 61000) mod 1000" "is_control port" "ct_demux c' = ct_demux c"
    "ct_local c' = ct_local c" "ct_gateway c' = ct_gateway c" "ct_alive c' = ct_alive c" "ct_next_port c' = ct_next_port c + 1"
proof -
  let ?o = "(ct_next_port c - 61000) mod 1000"
  have "unat ?o = unat (ct_next_port c - 61000) mod 1000" by (simp add: unat_mod)
  moreover have "unat (ct_next_port c - 61000) mod 1000 < 1000" by simp
  ultimately have o: "unat ?o = unat (ct_next_port c - 61000) mod 1000" "unat ?o < 1000" by simp_all
  have p: "port = 61000 + of_nat (unat ?o)" and c': "c' = c\<lparr>ct_next_port := ct_next_port c + 1\<rparr>"
    using assms o(2) by (auto simp: take_port_def CONTROL_RANGE_START_def CONTROL_RANGE_END_def to_u16_def Let_def)
  show u: "unat port = 61000 + unat (ct_next_port c - 61000) mod 1000" using o unfolding p by (simp add: unat_word_ariths unat_of_nat)
  have "unat port < 62000" using u by simp
  then show "is_control port"
    using u by (simp add: is_control_def CONTROL_RANGE_START_def CONTROL_RANGE_END_def word_le_nat_alt)
  show "ct_demux c' = ct_demux c" "ct_local c' = ct_local c" "ct_gateway c' = ct_gateway c" "ct_alive c' = ct_alive c"
    "ct_next_port c' = ct_next_port c + 1" by (simp_all add: c')
qed

section \<open>Flows\<close>

text \<open>What a control plane may have been through, with the number of flows it opened.\<close>

inductive plane_run :: "nat \<Rightarrow> gateway_control \<Rightarrow> bool" where
  plane_new: "plane_run 0 (control_new (demux_new depth) loc gateway)"
| plane_opens: "plane_run n c \<Longrightarrow> n < 2 ^ 64 \<Longrightarrow> open_udp c = (c', r) \<Longrightarrow> plane_run (Suc n) c'"
| plane_delivers: "plane_run n c \<Longrightarrow> plane_run n (c\<lparr>ct_demux := fst (demux_deliver packet (ct_demux c))\<rparr>)"
| plane_receives: "plane_run n c \<Longrightarrow> plane_run n (c\<lparr>ct_demux := fst (flow_recv_from fl (ct_demux c))\<rparr>)"
| plane_sends: "plane_run n c \<Longrightarrow> plane_run n (c\<lparr>ct_demux := fst (flow_send_to fl bs dst (ct_demux c))\<rparr>)"
| plane_drops: "plane_run n c \<Longrightarrow> plane_run n (c\<lparr>ct_demux := drop_flow fl (ct_demux c)\<rparr>)"
| plane_closes: "plane_run n c \<Longrightarrow> plane_run n (control_close c)"

text \<open>Tokens are handed out in order, so the next one is held by no registration.\<close>

definition tokens_below :: "nat \<Rightarrow> raw_udp_demux \<Rightarrow> bool" where
  "tokens_below n dx \<longleftrightarrow> (\<forall>port r. dx_flows dx port = Some r \<longrightarrow> unat (rg_token r) < n)"

lemma kept_tokens:
  "dx_flows (fst (demux_deliver packet dx)) = dx_flows dx" "dx_next_token (fst (demux_deliver packet dx)) = dx_next_token dx"
  "dx_flows (fst (flow_recv_from fl dx)) = dx_flows dx" "dx_next_token (fst (flow_recv_from fl dx)) = dx_next_token dx"
  "dx_flows (fst (flow_send_to fl bs dst dx)) = dx_flows dx" "dx_next_token (fst (flow_send_to fl bs dst dx)) = dx_next_token dx"
  "dx_next_token (drop_flow fl dx) = dx_next_token dx" "dx_next_token (close_all dx) = dx_next_token dx"
  "tokens_below n dx \<Longrightarrow> tokens_below n (drop_flow fl dx)" "tokens_below n (close_all dx)"
  by (auto simp: demux_deliver_def inbox_send_def flow_recv_from_def flow_send_to_def drop_flow_def close_all_def tokens_below_def Let_def
      split: option.splits prod.splits if_splits)

lemma kept_below:
  "tokens_below n (fst (demux_deliver packet dx)) = tokens_below n dx" "tokens_below n (fst (flow_recv_from fl dx)) = tokens_below n dx"
  "tokens_below n (fst (flow_send_to fl bs dst dx)) = tokens_below n dx" "dx_flows dx = Map.empty \<Longrightarrow> tokens_below n dx"
  unfolding tokens_below_def kept_tokens by simp_all

lemma open_udp_shape:
  assumes "open_udp c = (c', r)"
  shows "c' = c \<and> r = Err EngineStopped \<or>
    (\<exists>port. ct_demux c' = fst (register_from_host (V4 (ct_local c), port) (V4 (ct_gateway c)) (ct_demux c)))"
proof (cases "ct_alive c")
  case True
  obtain c1 port where t: "take_port c = (c1, port)" by force
  then have "ct_demux c' = fst (register_from_host (V4 (ct_local c), port) (V4 (ct_gateway c)) (ct_demux c))"
    using assms True take_port_facts(3-5) [OF t] by (auto simp: open_udp_def split: prod.splits)
  then show ?thesis by blast
qed (use assms in \<open>simp add: open_udp_def\<close>)

lemma plane_tokens: "plane_run n c \<Longrightarrow> \<exists>m \<le> n. dx_next_token (ct_demux c) = of_nat m \<and> tokens_below m (ct_demux c)"
proof (induction rule: plane_run.induct)
  case (plane_opens n c c' r)
  then obtain m where m: "m \<le> n" "dx_next_token (ct_demux c) = of_nat m" "tokens_below m (ct_demux c)" by blast
  have u: "unat (of_nat m :: u64) = m" using m(1) plane_opens(2) by (simp add: unat_of_nat)
  show ?case using open_udp_shape [OF plane_opens(3)]
  proof (elim disjE exE conjE)
    fix port assume d: "ct_demux c' = fst (register_from_host (V4 (ct_local c), port) (V4 (ct_gateway c)) (ct_demux c))"
    have "tokens_below (Suc m) (ct_demux c')"
      using m(2,3) u unfolding d by (auto simp: tokens_below_def register_from_host_def register_with_def Let_def less_SucI)
    moreover have "dx_next_token (ct_demux c') = of_nat (Suc m)" using m(2) unfolding d by (simp add: register_from_host_def register_with_def Let_def)
    ultimately show ?thesis using m(1) by (intro exI [of _ "Suc m"]) simp
  qed (use m in \<open>auto intro: le_SucI\<close>)
qed (auto simp: control_new_def demux_new_def control_close_def kept_tokens kept_below)

lemma open_udp_cases:
  assumes "open_udp c = (c', Ok fl)"
  obtains port where "ct_alive c" "is_control port" "fl_local fl = (V4 (ct_local c), port)" "fl_remote fl = Host (V4 (ct_gateway c))"
    "dx_flows (ct_demux c') port = Some \<lparr>rg_token = fl_token fl, rg_local = fl_local fl\<rparr>" "dx_inbox (ct_demux c') (fl_token fl) = Some []"
    "ct_alive c' = ct_alive c"
proof -
  obtain c1 port where t: "take_port c = (c1, port)" by force
  have a: "ct_alive c" using assms by (simp add: open_udp_def split: if_splits)
  note F = take_port_facts [OF t]
  have "c' = c1\<lparr>ct_demux := fst (register_from_host (V4 (ct_local c), port) (V4 (ct_gateway c)) (ct_demux c))\<rparr>"
    "fl = snd (register_from_host (V4 (ct_local c), port) (V4 (ct_gateway c)) (ct_demux c))"
    using assms a t F by (auto simp: open_udp_def split: prod.splits)
  then show thesis using a F by (intro that [of port]) (simp_all add: register_from_host_def register_with_def Let_def)
qed

text \<open>A registered flow with what its inbox holds; no other registration feeds that inbox.\<close>

definition feeds :: "raw_udp_demux \<Rightarrow> raw_udp_flow \<Rightarrow> (bytes \<times> endpoint_addr) list \<Rightarrow> bool" where
  "feeds dx fl q \<longleftrightarrow> dx_inbox dx (fl_token fl) = Some q \<and>
     dx_flows dx (snd (fl_local fl)) = Some \<lparr>rg_token = fl_token fl, rg_local = fl_local fl\<rparr> \<and>
     (\<forall>port r. dx_flows dx port = Some r \<and> rg_token r = fl_token fl \<longrightarrow> port = snd (fl_local fl))"

lemma deliver_feeds:
  assumes "feeds dx fl q"
  shows "feeds (fst (demux_deliver packet dx)) fl
    (case parse_udp packet of
       Some (src, dst, payload) \<Rightarrow> if dst = fl_local fl \<and> length q < 64 then q @ [(payload, src)] else q
     | None \<Rightarrow> q)"
proof (cases "parse_udp packet")
  case (Some t)
  obtain src dst payload where t: "t = (src, dst, payload)" by (cases t)
  note inb = assms [unfolded feeds_def]
  show ?thesis
  proof (cases "dst = fl_local fl")
    case True
    then have "fst (demux_deliver packet dx) = inbox_send (fl_token fl) (payload, src) dx"
      using inb Some t by (simp add: demux_deliver_def)
    then show ?thesis using inb Some t True by (simp add: feeds_def inbox_send_def FLOW_INBOX_DEPTH_def)
  next
    case False
    have "dx_inbox (inbox_send k item dx) (fl_token fl) = Some q \<and> dx_flows (inbox_send k item dx) = dx_flows dx" if "k \<noteq> fl_token fl" for k item
      using inb that by (auto simp: inbox_send_def split: option.split)
    moreover have "rg_token r \<noteq> fl_token fl" if "dx_flows dx (snd dst) = Some r" "rg_local r = dst" for r
      using inb that False by (metis option.inject registration.select_convs(2))
    ultimately have "feeds (fst (demux_deliver packet dx)) fl q"
      using inb Some t by (auto simp: feeds_def demux_deliver_def split: option.split)
    then show ?thesis using Some t False by simp
  qed
qed (use assms in \<open>simp add: demux_deliver_def\<close>)

lemma recv_feeds:
  assumes "feeds dx fl q" and "recv_loop (fl_remote fl) q = (rest, x)"
  shows "feeds (fst (flow_recv_from fl dx)) fl rest"
    "snd (flow_recv_from fl dx) = (case x of Some (payload, src) \<Rightarrow> Received payload src | None \<Rightarrow> Waiting)"
  using assms by (auto simp: feeds_def flow_recv_from_def Let_def split: option.splits prod.splits)

lemma recv_loop_filter:
  "recv_loop expected q = (rest, x) \<Longrightarrow>
     filter (\<lambda>dg. accepts expected (snd dg)) q = (case x of None \<Rightarrow> [] | Some dg \<Rightarrow> dg # filter (\<lambda>dg. accepts expected (snd dg)) rest) \<and>
     (x = None \<longrightarrow> rest = []) \<and> length rest \<le> length q"
  by (induction q) (auto split: if_splits option.splits)

text \<open>
  What a flow sees of the downlink: packets arrive in any order and number, for it or for others, and
  it asks for a datagram whenever it likes.  \<open>sent_to\<close> is what was addressed to it, \<open>given\<close> what it was given.
\<close>

datatype flow_event = Arrives bytes | Asks

fun flow_run :: "raw_udp_flow \<Rightarrow> flow_event list \<Rightarrow> raw_udp_demux \<Rightarrow> raw_udp_demux \<times> received list" where
  "flow_run fl [] dx = (dx, [])"
| "flow_run fl (Arrives packet # es) dx = flow_run fl es (fst (demux_deliver packet dx))"
| "flow_run fl (Asks # es) dx =
     (let (dx, r) = flow_recv_from fl dx; (dx, rs) = flow_run fl es dx in (dx, r # rs))"

fun sent_to :: "endpoint_addr \<Rightarrow> flow_event list \<Rightarrow> (bytes \<times> endpoint_addr) list" where
  "sent_to loc [] = []"
| "sent_to loc (Arrives packet # es) =
     (case parse_udp packet of
        Some (src, dst, payload) \<Rightarrow> if dst = loc then [(payload, src)] else []
      | None \<Rightarrow> []) @ sent_to loc es"
| "sent_to loc (Asks # es) = sent_to loc es"

fun given :: "received list \<Rightarrow> (bytes \<times> endpoint_addr) list" where
  "given [] = []"
| "given (Received payload src # rs) = (payload, src) # given rs"
| "given (_ # rs) = given rs"

abbreviation wanted :: "raw_udp_flow \<Rightarrow> (bytes \<times> endpoint_addr) list \<Rightarrow> (bytes \<times> endpoint_addr) list" where
  "wanted fl \<equiv> filter (\<lambda>dg. accepts (fl_remote fl) (snd dg))"

text \<open>
  The flow is given, in order, datagrams it wants and was sent; it has missed none of them as long as
  its inbox cannot have filled up.
\<close>

lemma flow_run_feeds:
  assumes "feeds dx fl q" and "flow_run fl es dx = (dx', rs)"
  shows "\<exists>q'. feeds dx' fl q' \<and> Ended \<notin> set rs \<and>
    subseq (given rs @ wanted fl q') (wanted fl (q @ sent_to (fl_local fl) es)) \<and>
    (length q + length (sent_to (fl_local fl) es) \<le> 64 \<longrightarrow>
       given rs @ wanted fl q' = wanted fl (q @ sent_to (fl_local fl) es) \<and>
       length q' \<le> length q + length (sent_to (fl_local fl) es))"
  using assms
proof (induction fl es dx arbitrary: q dx' rs rule: flow_run.induct)
  case (2 fl packet es dx)
  note f = deliver_feeds [OF 2(2), of packet]
  show ?case
  proof (cases "parse_udp packet")
    case None
    then show ?thesis using 2(1) [OF f] 2(3) by simp
  next
    case (Some t)
    obtain src dst payload where t: "t = (src, dst, payload)" by (cases t)
    let ?r = "sent_to (fl_local fl) es"
    consider "dst \<noteq> fl_local fl" | "dst = fl_local fl" "length q < 64" | (full) "dst = fl_local fl" "\<not> length q < 64" by blast
    then show ?thesis
    proof cases
      case full
      then obtain q' where q': "feeds dx' fl q'" "Ended \<notin> set rs" "subseq (given rs @ wanted fl q') (wanted fl (q @ ?r))"
        using 2(1) [OF f] 2(3) Some t by auto
      moreover have "subseq (wanted fl (q @ ?r)) (wanted fl (q @ (payload, src) # ?r))" by (intro subseq_filter list_emb_append_mono) auto
      ultimately have "subseq (given rs @ wanted fl q') (wanted fl (q @ (payload, src) # ?r))" by (blast intro: subseq_order.order_trans)
      then show ?thesis using q'(1,2) full Some t by (intro exI [of _ q']) simp
    qed (use 2(1) [OF f] 2(3) Some t in auto)
  qed
next
  case (3 fl es dx)
  obtain rest x where x: "recv_loop (fl_remote fl) q = (rest, x)" by force
  obtain d r where r: "flow_recv_from fl dx = (d, r)" by force
  obtain rs0 where rs: "flow_run fl es d = (dx', rs0)" "rs = r # rs0" using 3(3) r by (auto split: prod.splits)
  note f = recv_feeds [OF 3(2) x, unfolded r] and w = recv_loop_filter [OF x]
  obtain q' where q': "feeds dx' fl q'" "Ended \<notin> set rs0" "subseq (given rs0 @ wanted fl q') (wanted fl (rest @ sent_to (fl_local fl) es))"
      "length rest + length (sent_to (fl_local fl) es) \<le> 64 \<Longrightarrow>
         given rs0 @ wanted fl q' = wanted fl (rest @ sent_to (fl_local fl) es) \<and> length q' \<le> length rest + length (sent_to (fl_local fl) es)"
    using 3(1) [OF r [symmetric] refl, of rest dx' rs0] f(1) rs(1) by auto
  show ?case
  proof (cases x)
    case None
    then show ?thesis using q' w f(2) rs(2) by (intro exI [of _ q']) auto
  next
    case (Some dg)
    then show ?thesis using q' w f(2) rs(2) by (cases dg) (intro exI [of _ q'], auto)
  qed
qed auto

lemma drained:
  assumes "feeds dx fl q" and "length (wanted fl q) \<le> k"
  shows "given (snd (flow_run fl (replicate k Asks) dx)) = wanted fl q"
  using assms
proof (induction k arbitrary: dx q)
  case (Suc k)
  obtain rest x where x: "recv_loop (fl_remote fl) q = (rest, x)" by force
  obtain d r where r: "flow_recv_from fl dx = (d, r)" by force
  note f = recv_feeds [OF Suc(2) x, unfolded r] and w = recv_loop_filter [OF x]
  have "length (wanted fl rest) \<le> k" using w Suc(3) by (cases x) auto
  then have "given (snd (flow_run fl (replicate k Asks) d)) = wanted fl rest" using Suc(1) f(1) by simp
  then show ?case using w f(2) r by (cases x) (auto split: prod.splits)
qed simp

lemma flow_run_append:
  "flow_run fl (es @ fs) dx = (fst (flow_run fl fs (fst (flow_run fl es dx))), snd (flow_run fl es dx) @ snd (flow_run fl fs (fst (flow_run fl es dx))))"
  by (induction fl es dx rule: flow_run.induct) (auto split: prod.splits)

lemma given_append: "given (rs @ rs') = given rs @ given rs'"
  by (induction rs rule: given.induct) simp_all

lemma opened_feeds:
  assumes "plane_run n c" and "n < 2 ^ 64" and o: "open_udp c = (c', Ok fl)"
  shows "feeds (ct_demux c') fl []"
proof -
  obtain m where m: "m \<le> n" "dx_next_token (ct_demux c) = of_nat m" "tokens_below m (ct_demux c)"
    using plane_tokens [OF assms(1)] by blast
  have u: "unat (of_nat m :: u64) = m" using m(1) assms(2) by (simp add: unat_of_nat)
  obtain c1 port where t: "take_port c = (c1, port)" by force
  note F = take_port_facts [OF t]
  have a: "ct_alive c" using o by (simp add: open_udp_def split: if_splits)
  have "ct_demux c' = fst (register_from_host (V4 (ct_local c), port) (V4 (ct_gateway c)) (ct_demux c))"
    "fl = snd (register_from_host (V4 (ct_local c), port) (V4 (ct_gateway c)) (ct_demux c))"
    using o a t F by (auto simp: open_udp_def split: prod.splits)
  moreover have "rg_token r \<noteq> of_nat m" if "dx_flows (ct_demux c) p = Some r" for p r
    using m(3) that u unfolding tokens_below_def by fastforce
  ultimately show ?thesis using m(2) by (auto simp: feeds_def register_from_host_def register_with_def Let_def split: if_splits)
qed

lemma sent_to_asks: "sent_to loc (es @ replicate k Asks) = sent_to loc es"
proof -
  have "sent_to loc (replicate k Asks) = []" by (induction k) simp_all
  moreover have "sent_to loc (es @ fs) = sent_to loc es @ sent_to loc fs" for fs by (induction loc es rule: sent_to.induct) auto
  ultimately show ?thesis by simp
qed

lemma missed_none:
  assumes f: "feeds dx fl []" and few: "length (sent_to (fl_local fl) es) \<le> 64"
    and k: "length (wanted fl (sent_to (fl_local fl) es)) \<le> k"
  shows "given (snd (flow_run fl (es @ replicate k Asks) dx)) = wanted fl (sent_to (fl_local fl) es)"
    and "snd (flow_recv_from fl (fst (flow_run fl (es @ replicate k Asks) dx))) = Waiting"
proof -
  obtain d rs where r: "flow_run fl es dx = (d, rs)" by force
  obtain q where q: "feeds d fl q" "given rs @ wanted fl q = wanted fl (sent_to (fl_local fl) es)"
    using flow_run_feeds [OF f r] few by auto
  have "length (wanted fl q) \<le> k" using arg_cong [OF q(2), of length] k by simp
  from drained [OF q(1) this] show all: "given (snd (flow_run fl (es @ replicate k Asks) dx)) = wanted fl (sent_to (fl_local fl) es)"
    using r q(2) by (simp add: flow_run_append given_append)
  obtain d' rs' where r': "flow_run fl (es @ replicate k Asks) dx = (d', rs')" by force
  obtain q' where q': "feeds d' fl q'" "given rs' @ wanted fl q' = wanted fl (sent_to (fl_local fl) es)"
    using flow_run_feeds [OF f r'] few by (auto simp: sent_to_asks)
  then have none: "wanted fl q' = []" using all r' by simp
  obtain rest x where x: "recv_loop (fl_remote fl) q' = (rest, x)" by force
  then have "x = None" using recv_loop_filter [OF x] none by (cases x) auto
  then show "snd (flow_recv_from fl (fst (flow_run fl (es @ replicate k Asks) dx))) = Waiting"
    using recv_feeds(2) [OF q'(1) x] r' by simp
qed

definition from_host :: "ip_addr \<Rightarrow> (bytes \<times> endpoint_addr) list \<Rightarrow> (bytes \<times> endpoint_addr) list" where
  "from_host h dgs = filter (\<lambda>(payload, (host, port)). host = h) dgs"

text \<open>
  C14.  A flow of a live control plane is sourced at the assigned address on a port of the reserved
  range.  Whatever arrives from the tunnel, and however the flow's receives fall between the
  arrivals, the flow is given only datagrams that the exit's gateway sent to it, in the order they came,
  and it never ends while the plane lives.  As long as no more than 64 datagrams were addressed to it,
  from anyone, it misses none: asking as often as the gateway sent gives it all of them, and one more
  receive waits.  A packet built for the flow is one addressed to it, with the payload and the sender it
  was built from.  Once the plane is closed a flow with an empty inbox ends and no further one opens.
\<close>

theorem control_exchange:
  assumes run: "plane_run n c" "n < 2 ^ 64" and o: "open_udp c = (c', Ok fl)"
  shows "fst (fl_local fl) = V4 (ct_local c) \<and> is_control (snd (fl_local fl)) \<and>
    Ended \<notin> set (snd (flow_run fl es (ct_demux c'))) \<and>
    subseq (given (snd (flow_run fl es (ct_demux c')))) (from_host (V4 (ct_gateway c)) (sent_to (fl_local fl) es)) \<and>
    (length (sent_to (fl_local fl) es) \<le> 64 \<and> k = length (from_host (V4 (ct_gateway c)) (sent_to (fl_local fl) es)) \<longrightarrow>
       given (snd (flow_run fl (es @ replicate k Asks) (ct_demux c'))) = from_host (V4 (ct_gateway c)) (sent_to (fl_local fl) es) \<and>
       snd (flow_recv_from fl (fst (flow_run fl (es @ replicate k Asks) (ct_demux c')))) = Waiting) \<and>
    (build_udp_packet (h, q) (fl_local fl) payload = Some p \<longrightarrow> sent_to (fl_local fl) [Arrives (p @ rest)] = [(payload, (h, q))]) \<and>
    snd (flow_recv_from fl (ct_demux (control_close c'))) = Ended \<and> snd (open_udp (control_close c')) = Err EngineStopped"
proof (rule open_udp_cases [OF o])
  fix port assume p: "ct_alive c" "is_control port" "fl_local fl = (V4 (ct_local c), port)" "fl_remote fl = Host (V4 (ct_gateway c))"
    "dx_inbox (ct_demux c') (fl_token fl) = Some []"
  have want: "from_host (V4 (ct_gateway c)) dgs = wanted fl dgs" for dgs
    unfolding from_host_def p(4) by (rule filter_cong) auto
  have f: "feeds (ct_demux c') fl []" by (rule opened_feeds [OF run o])
  obtain d rs where r: "flow_run fl es (ct_demux c') = (d, rs)" by force
  obtain q' where "Ended \<notin> set rs" "subseq (given rs @ wanted fl q') (wanted fl (sent_to (fl_local fl) es))"
    using flow_run_feeds [OF f r] by auto
  then have "Ended \<notin> set rs \<and> subseq (given rs) (wanted fl (sent_to (fl_local fl) es))"
    using subseq_order.order_trans [of "given rs" "given rs @ wanted fl q'"] by auto
  moreover have "sent_to (fl_local fl) [Arrives (p @ rest)] = [(payload, (h, q))]"
    if "build_udp_packet (h, q) (fl_local fl) payload = Some p"
    using built_reads_back [of h q "V4 (ct_local c)" port payload p rest] that p(3) by simp
  moreover have "snd (flow_recv_from fl (ct_demux (control_close c'))) = Ended"
    using p(5) by (simp add: flow_recv_from_def control_close_def close_all_def)
  moreover have "snd (open_udp (control_close c')) = Err EngineStopped" by (simp add: open_udp_def control_close_def)
  ultimately show ?thesis unfolding want using r p(2,3) missed_none [OF f] by simp
qed

definition sample_control :: gateway_control where
  "sample_control = control_new (demux_new 64) 0x0a420002 0x0a420001"

theorem control_exchange_witness:
  "\<exists>c fl p f. open_udp sample_control = (c, Ok fl) \<and> build_udp_packet (V4 0x0a420001, 5351) (fl_local fl) [1] = Some p \<and>
     build_udp_packet (V4 0x08080808, 53) (fl_local fl) [2] = Some f \<and>
     given (snd (flow_run fl [Arrives f, Arrives p, Asks] (ct_demux c))) = [([1], (V4 0x0a420001, 5351))]"
proof -
  have "\<exists>c fl. open_udp sample_control = (c, Ok fl)"
    by (simp add: open_udp_def sample_control_def control_new_def split: prod.split)
  then obtain c fl where o: "open_udp sample_control = (c, Ok fl)" by blast
  obtain port where l: "fl_local fl = (V4 0x0a420002, port)"
    by (rule open_udp_cases [OF o]) (simp add: sample_control_def control_new_def)
  obtain p where b: "build_udp_packet (V4 0x0a420001, 5351) (fl_local fl) [1] = Some p"
    using build_refused [of "(V4 0x0a420001, 5351)" "fl_local fl" "[1]"] l by fastforce
  obtain f where g: "build_udp_packet (V4 0x08080808, 53) (fl_local fl) [2] = Some f"
    using build_refused [of "(V4 0x08080808, 53)" "fl_local fl" "[2]"] l by fastforce
  have run: "plane_run 0 sample_control" unfolding sample_control_def by (rule plane_new)
  define es where "es = [Arrives f, Arrives p]"
  have s: "sent_to (fl_local fl) es = [([2], (V4 0x08080808, 53)), ([1], (V4 0x0a420001, 5351))]"
    using built_reads_back [of "V4 0x0a420001" 5351 "V4 0x0a420002" port "[1]" p "[]"]
      built_reads_back [of "V4 0x08080808" 53 "V4 0x0a420002" port "[2]" f "[]"] b g by (simp add: l es_def)
  have gw: "ct_gateway sample_control = 0x0a420001" by (simp add: sample_control_def control_new_def)
  have "from_host (V4 0x0a420001) (sent_to (fl_local fl) es) = [([1], (V4 0x0a420001, 5351))]" by (simp add: s from_host_def)
  then have "given (snd (flow_run fl (es @ replicate 1 Asks) (ct_demux c))) = [([1], (V4 0x0a420001, 5351))]"
    using control_exchange [OF run _ o, of es 1 "V4 0" 0 "[]" "[]" "[]"] unfolding gw s by simp
  then show ?thesis using o b g by (auto simp: es_def)
qed

end
