(* ===== verification/Spec2Isabelle.thy ===== *)
theory Spec2Isabelle
  imports Ports Rate_Limit Lfsr_Period Peer_Plan Icmp Napt_Properties Conf_Properties Responder_Properties Control_Plane
begin

text \<open>
  Verification of the packet core of the Warren gateway.

  \<^bold>\<open>The program.\<close>  The gateway terminates WireGuard-protocol clients (peers) and carries their packets
  through one tunnel whose exit assigned it a single address.  A datagram from a peer is opened by
  the responder, which checks the inner source and judges the destination; the packet is translated
  onto the assigned address by the NAT and leaves through the tunnel.  A packet from the tunnel is
  either an answer to the gateway's own control plane or is translated back by the NAT and sealed
  for its peer by the responder.  A configuration file names the peers; reloading it changes the
  responder's tables, and the NAT learns from the responder which peer owns which address.

  \<^bold>\<open>The theories\<close> (sources under \<open>src/crates/warren-bolthole-core/src\<close> unless a path is given).

  \<^item> \<open>Prelude\<close>: outcomes of fallible code (\<open>Ok\<close>, \<open>Err\<close>, \<open>Panic\<close>), Rust slices with their panics,
    big-endian fields, sums of 16-bit words.
  \<^item> \<open>Ip\<close> (\<open>ip.rs\<close>, \<open>error.rs\<close>): parsing of headers and the in-place rewriting of an endpoint with
    incremental checksums.  Parsing never panics and accepts exactly the packets that are laid out
    so; a rewrite changes one endpoint and its checksums and nothing else, or nothing at all, and what a
    receiver accepts stays acceptable but for an IPv6 UDP checksum that is updated to zero.
  \<^item> \<open>Icmp\<close> (\<open>icmp.rs\<close>): echo replies, unreachable errors, and the packet an error quotes.  The
    answers are exactly those due, byte for byte where it matters; a rewritten quote reads as the original flow.
  \<^item> \<open>Ports\<close> (\<open>ports.rs\<close>): the port allocator, its free list and reservations.  A port is given to one
    holder at a time.
  \<^item> \<open>Rate_Limit\<close> (\<open>ratelimit.rs\<close>): token buckets, per source and for answers; bounds on what any
    window admits, on memory, and a refinement of the shared table by one bucket per source.
  \<^item> \<open>Session_Index\<close>, \<open>Lfsr_Period\<close> (\<open>index.rs\<close>): the shift register behind the session indexes; its
    period is the whole space, so no index returns and none is refused early.
  \<^item> \<open>Peer_Plan\<close> (\<open>plan.rs\<close>): subnets, gateway and peer addresses, with the exact condition
    under which every peer's IPv6 address is inside its subnet; the complement of excluded networks.
  \<^item> \<open>Stats\<close> (\<open>stats.rs\<close>, \<open>peer.rs\<close>): counters and labels; every refusal is in exactly one class.
  \<^item> \<open>Napt\<close> (\<open>nat.rs\<close>): all operations of the translator on one state record.  \<open>Recency\<close>, \<open>Napt_Table\<close>,
    \<open>Napt_Steps\<close>, \<open>Napt_Expiry\<close>, \<open>Napt_Translate\<close> and \<open>Napt_Reach\<close> build its invariant, operation by
    operation, and the runs that keep it; \<open>Napt_Properties\<close> holds the properties.
  \<^item> \<open>Text\<close>, \<open>Conf\<close>, \<open>Conf_Reading\<close>, \<open>Conf_Properties\<close> (\<open>conf.rs\<close>, \<open>keys.rs\<close>): the text functions of
    the standard library that the reader uses, the configuration file and the artifacts of a peer.
  \<^item> \<open>Responder\<close> (\<open>responder.rs\<close>): all operations of the responder.  \<open>Responder_State\<close> shows what each
    leaves alone, \<open>Responder_Reload\<close> and \<open>Responder_Reach\<close> build the invariant of its tables through
    reloads and runs, \<open>Responder_Traffic\<close> says what a datagram leads to, and \<open>Responder_Properties\<close>
    holds the properties.
  \<^item> \<open>Raw_Udp\<close>, \<open>Control_Plane\<close> (\<open>src/crates/warren-net/src/raw_udp.rs\<close>,
    \<open>src/crates/warren-bolthole/src/control.rs\<close>): the gateway's own datagrams, their demultiplexer and
    the control plane over them; what a flow is given over any run of arrivals and receives.

  \<^bold>\<open>Conventions.\<close>  A struct is a record, an enum a datatype, a \<open>w\<close>-bit integer a word; a method takes
  and returns the state.  A hash map is a function to options, a \<open>BTreeMap\<close> the list of its entries
  by key, a heap a sorted list, a channel the queue it holds.  Time is a natural number of
  nanoseconds.  Counters wrap at 64 bits, so their laws are equations of words.

  \<^bold>\<open>Code outside the repository\<close> is a parameter with named hypotheses: \<open>engine\<close> with \<open>engine_sums\<close> (the
  checksum crate), \<open>world\<close> with \<open>world_ok\<close> (random draws and checksums of the NAT), \<open>codec\<close>
  with \<open>codec_ok\<close> and \<open>nets_ok\<close> (base64, x25519, ip_network), \<open>wire\<close> with \<open>wire_ok\<close> (the protocol
  engine boringtun and the route trie).  Each has a concrete instance, on which the witnesses
  evaluate: \<open>sum_engine\<close>, \<open>sample_world\<close>, \<open>spell_codec\<close>, \<open>sample_wire\<close>.

  \<^bold>\<open>Loops.\<close>  No definition uses fuel.  The sweep of the NAT, the folding of a checksum and the trimming
  of text are functions with a termination proof.  The draw of a session index is a partial
  function, and its properties show that every draw of a generator returns.

  \<^bold>\<open>Not modelled.\<close>  \<open>device.rs\<close> of the daemon crate, the asynchronous shell that drives these parts
  under two locks: the components are verified one by one and the interleaving of its lock sections
  is not.  Sockets, tasks, files, health and admin routes.  The remaining crates of the workspace
  are clients of network services (account API, exit discovery, QUIC transport, supervision), stream
  proxies, bindings, or re-exports of engine crates that are not in the repository.  Randomness for
  keys and wiping of memory have no counterpart in a model of values.
\<close>

end
